(* ===== verification/Prelude.thy ===== *)
theory Prelude
  imports Main "HOL-Library.Finite_Map" "HOL-Library.FSet" "HOL-Library.Word"
    "HOL-Library.List_Lexorder" "HOL-Library.Char_ord" "HOL-Library.Monad_Syntax"
    "HOL-Library.Multiset"
begin

text \<open>
  What every component shares: the Go integers and strings the program computes with
  (\<open>strconv.Atoi\<close>, \<open>%d\<close>, \<open>strings.ToLower\<close>, \<open>strings.ToUpper\<close>), the random source
  (\<open>math/rand\<close> and Go's unspecified map iteration order), the monad of panics, and the
  lemma collections the component theories extend.

  A Go panic is the value \<open>None\<close>: nothing in the program recovers, so a panic in any
  handler ends the whole process. A Go \<open>int\<close> is a HOL \<open>int\<close> in the range of 64 bits;
  where the source's arithmetic can leave the range the wrap-around is written \<open>i64\<close>.
  A Go \<open>string\<close> is a list of bytes.
\<close>

named_theorems db_defs \<open>definitions of the database operations\<close>
named_theorems cmd_defs \<open>definitions of the command bodies\<close>
named_theorems handler_defs \<open>definitions of the command handlers\<close>

subsection \<open>Panics\<close>

lemma bind_Some_iff [simp]:
  "Option.bind x f = Some y \<longleftrightarrow> (\<exists>z. x = Some z \<and> f z = Some y)"
  by (cases x) auto

lemma bind_None_iff [simp]:
  "Option.bind x f = None \<longleftrightarrow> x = None \<or> (\<exists>z. x = Some z \<and> f z = None)"
  by (cases x) auto

subsection \<open>64-bit integers\<close>

type_synonym u64 = "64 word"

definition max_int :: int where
  "max_int = 9223372036854775807"

definition min_int :: int where
  "min_int = - 9223372036854775808"

definition in_int :: "int \<Rightarrow> bool" where
  "in_int x \<longleftrightarrow> min_int \<le> x \<and> x \<le> max_int"

text \<open>The value of an \<open>int\<close> expression after wrap-around in two's complement.\<close>

definition i64 :: "int \<Rightarrow> int" where
  "i64 x = (x + 9223372036854775808) mod 18446744073709551616 - 9223372036854775808"

lemmas int_bounds = max_int_def min_int_def in_int_def

lemma i64_id [simp]: "in_int x \<Longrightarrow> i64 x = x"
  by (simp add: i64_def int_bounds)

lemma i64_in_int [simp]: "in_int (i64 x)"
  by (simp add: i64_def int_bounds)

lemma i64_max_int: "i64 (max_int + 1) = min_int"
  by (simp add: i64_def int_bounds)

lemma i64_neg_min_int: "i64 (- min_int) = min_int"
  by (simp add: i64_def int_bounds)

lemma of_nat_u64_less:
  "0 < n \<Longrightarrow> unat (v :: u64) + n < 2 ^ 64 \<Longrightarrow> v < v + of_nat n"
  by (simp add: word_less_nat_alt unat_word_ariths unat_of_nat)

subsection \<open>Decimal integers: strconv.Atoi and the verb d\<close>

fun digits_val :: "int \<Rightarrow> string \<Rightarrow> int option" where
  "digits_val acc [] = Some acc"
| "digits_val acc (c # cs) =
     (if CHR ''0'' \<le> c \<and> c \<le> CHR ''9'' then digits_val (10 * acc + (of_char c - 48)) cs
      else None)"

text \<open>\<open>None\<close> is a non-nil error: bad syntax, or a value outside 64 bits.\<close>

definition Atoi :: "string \<Rightarrow> int option" where
  "Atoi s =
     (let (neg, ds) =
        (case s of
           [] \<Rightarrow> (False, [])
         | c # cs \<Rightarrow> if c = CHR ''-'' then (True, cs) else if c = CHR ''+'' then (False, cs) else (False, s))
      in if ds = [] then None
         else (case digits_val 0 ds of
                 None \<Rightarrow> None
               | Some n \<Rightarrow> let v = (if neg then - n else n) in if in_int v then Some v else None))"

definition digit :: "nat \<Rightarrow> char" where
  "digit n = char_of (48 + n)"

fun nat_digits :: "nat \<Rightarrow> string" where
  "nat_digits n = (if n < 10 then [digit n] else nat_digits (n div 10) @ [digit (n mod 10)])"

declare nat_digits.simps [simp del]

definition Itoa :: "int \<Rightarrow> string" where
  "Itoa i = (if i < 0 then CHR ''-'' # nat_digits (nat (- i)) else nat_digits (nat i))"

lemma of_char_digit: "n < 10 \<Longrightarrow> of_char (digit n) = (48 + int n)"
proof -
  assume "n < 10"
  then have "int (of_char (digit n)) = 48 + int n" by (simp add: digit_def of_char_of)
  then show ?thesis by (metis of_nat_of_char)
qed

lemma digit_range: "n < 10 \<Longrightarrow> CHR ''0'' \<le> digit n \<and> digit n \<le> CHR ''9''"
  by (simp add: digit_def less_eq_char_def of_char_of)

lemma nat_digits_nonempty [simp]: "nat_digits n \<noteq> []"
  by (subst nat_digits.simps) simp

lemma digits_val_append:
  "digits_val acc (xs @ ys) = Option.bind (digits_val acc xs) (\<lambda>a. digits_val a ys)"
  by (induction acc xs rule: digits_val.induct) auto

lemma digits_val_digit: "n < 10 \<Longrightarrow> digits_val acc [digit n] = Some (10 * acc + int n)"
  using digit_range [of n] by (simp add: of_char_digit)

lemma digits_val_nat_digits: "digits_val 0 (nat_digits n) = Some (int n)"
proof (induction n rule: nat_digits.induct)
  case (1 n)
  show ?case
  proof (cases "n < 10")
    case True
    then show ?thesis
      by (subst nat_digits.simps) (simp add: digits_val_digit del: digits_val.simps)
  next
    case False
    with "1.IH" have "digits_val 0 (nat_digits (n div 10)) = Some (int (n div 10))" by simp
    moreover have "10 * int (n div 10) + int (n mod 10) = int n" by presburger
    ultimately show ?thesis using False
      by (subst nat_digits.simps)
        (simp add: digits_val_append digits_val_digit del: digits_val.simps)
  qed
qed

lemma nat_digits_set: "set (nat_digits n) \<subseteq> {c. CHR ''0'' \<le> c \<and> c \<le> CHR ''9''}"
proof (induction n rule: nat_digits.induct)
  case (1 n)
  then show ?case
    using digit_range [of n] digit_range [of "n mod 10"]
    by (cases "n < 10"; subst nat_digits.simps) auto
qed

lemma hd_nat_digits: "nat_digits n = c # cs \<Longrightarrow> c \<noteq> CHR ''-'' \<and> c \<noteq> CHR ''+''"
  using nat_digits_set [of n] by auto

lemma Atoi_Itoa: "in_int i \<Longrightarrow> Atoi (Itoa i) = Some i"
proof (cases "i < 0")
  case True
  assume "in_int i"
  with True show ?thesis
    by (simp add: Atoi_def Itoa_def digits_val_nat_digits)
next
  case False
  assume i: "in_int i"
  obtain c cs where ds: "nat_digits (nat i) = c # cs"
    by (cases "nat_digits (nat i)") auto
  have v: "digits_val 0 (c # cs) = Some i"
    using False digits_val_nat_digits [of "nat i"] ds by simp
  show ?thesis
    using False i hd_nat_digits [OF ds] v by (simp add: Atoi_def Itoa_def ds del: digits_val.simps)
qed

lemma nat_digits_inj: "nat_digits m = nat_digits n \<Longrightarrow> m = n"
  by (metis digits_val_nat_digits of_nat_eq_iff option.inject)

lemma nat_digits_sign [simp]: "nat_digits n \<noteq> CHR ''-'' # cs" "CHR ''-'' # cs \<noteq> nat_digits n"
proof -
  show *: "nat_digits n \<noteq> CHR ''-'' # cs" using hd_nat_digits by blast
  show "CHR ''-'' # cs \<noteq> nat_digits n" using * by metis
qed

lemma Itoa_inj: "Itoa i = Itoa j \<Longrightarrow> i = j"
  by (auto simp: Itoa_def split: if_splits dest: nat_digits_inj)

lemma Atoi_in_int: "Atoi s = Some v \<Longrightarrow> in_int v"
  by (auto simp: Atoi_def Let_def split: prod.splits list.splits option.splits if_splits)

lemma Itoa_no_newline: "CHR ''\<newline>'' \<notin> set (Itoa i)"
proof -
  have "CHR ''\<newline>'' \<notin> set (nat_digits n)" for n
    using nat_digits_set [of n] by (auto simp: less_eq_char_def)
  then show ?thesis by (simp add: Itoa_def)
qed

subsection \<open>Case folding: strings.ToUpper and strings.ToLower\<close>

text \<open>
  Bytes of a string are folded in the ASCII range; besides, the four non-ASCII letters
  whose counterpart is an ASCII letter are folded to it (dotless i and long s upwards, the
  Kelvin sign and dotted I downwards). Go maps every other non-ASCII letter to a non-ASCII
  letter and invalid UTF-8 to U+FFFD; the model leaves those bytes alone, which no
  comparison with an ASCII word can observe.
\<close>

definition upper_byte :: "char \<Rightarrow> char" where
  "upper_byte c = (if CHR ''a'' \<le> c \<and> c \<le> CHR ''z'' then char_of (of_char c - 32 :: nat) else c)"

definition lower_byte :: "char \<Rightarrow> char" where
  "lower_byte c = (if CHR ''A'' \<le> c \<and> c \<le> CHR ''Z'' then char_of (of_char c + 32 :: nat) else c)"

fun ToUpper :: "string \<Rightarrow> string" where
  "ToUpper [] = []"
| "ToUpper (c # s) =
     (if take 2 (c # s) = [CHR 0xC4, CHR 0xB1] then CHR ''I'' # ToUpper (drop 1 s)
      else if take 2 (c # s) = [CHR 0xC5, CHR 0xBF] then CHR ''S'' # ToUpper (drop 1 s)
      else upper_byte c # ToUpper s)"

fun ToLower :: "string \<Rightarrow> string" where
  "ToLower [] = []"
| "ToLower (c # s) =
     (if take 3 (c # s) = [CHR 0xE2, CHR 0x84, CHR 0xAA] then CHR ''k'' # ToLower (drop 2 s)
      else if take 2 (c # s) = [CHR 0xC4, CHR 0xB0] then CHR ''i'' # ToLower (drop 1 s)
      else lower_byte c # ToLower s)"

definition is_upper :: "string \<Rightarrow> bool" where
  "is_upper s \<longleftrightarrow> (\<forall>c \<in> set s. CHR ''A'' \<le> c \<and> c \<le> CHR ''Z'')"

lemma ToUpper_id: "is_upper s \<Longrightarrow> ToUpper s = s"
  by (induction s) (auto simp: is_upper_def upper_byte_def less_eq_char_def)

lemma ToUpper_ToLower: "is_upper s \<Longrightarrow> ToUpper (ToLower s) = s"
proof (induction s)
  case Nil
  then show ?case by simp
next
  case (Cons c s)
  then have c: "CHR ''A'' \<le> c" "c \<le> CHR ''Z''" and s: "is_upper s" by (auto simp: is_upper_def)
  have "ToLower (c # s) = lower_byte c # ToLower s"
    using c by (auto simp: less_eq_char_def)
  moreover have "lower_byte c \<noteq> CHR 0xC4" "lower_byte c \<noteq> CHR 0xC5"
    using c by (auto simp: lower_byte_def less_eq_char_def dest!: arg_cong [where f = "of_char :: char \<Rightarrow> nat"])
  moreover have "upper_byte (lower_byte c) = c"
    using c by (simp add: lower_byte_def upper_byte_def less_eq_char_def)
  ultimately show ?case using Cons.IH [OF s] by simp
qed

subsection \<open>The random source and the order of map iteration\<close>

text \<open>
  \<open>math/rand\<close> and the iteration order of Go maps are both read from one unlimited supply of
  numbers: any supply is possible, so a statement for every supply is a statement for every
  outcome. \<open>Intn n\<close> panics for \<open>n \<le> 0\<close>.
\<close>

type_synonym rng = "nat \<Rightarrow> nat"

definition rng_next :: "rng \<Rightarrow> rng" where
  "rng_next r = (\<lambda>i. r (Suc i))"

definition Intn :: "int \<Rightarrow> rng \<Rightarrow> (nat \<times> rng) option" where
  "Intn n r = (if n \<le> 0 then None else Some (r 0 mod nat n, rng_next r))"

lemma Intn_Some: "Intn n r = Some (i, r') \<Longrightarrow> int i < n"
proof -
  assume "Intn n r = Some (i, r')"
  then have n: "0 < n" and i: "i = r 0 mod nat n" by (auto simp: Intn_def split: if_splits)
  from n have "r 0 mod nat n < nat n" by simp
  then show ?thesis unfolding i by linarith
qed

lemma Intn_length: "xs \<noteq> [] \<Longrightarrow> Intn (int (length xs)) r = Some (r 0 mod length xs, rng_next r)"
  by (simp add: Intn_def)

definition remove_nth :: "nat \<Rightarrow> 'a list \<Rightarrow> 'a list" where
  "remove_nth i xs = take i xs @ drop (Suc i) xs"

lemma length_remove_nth: "i < length xs \<Longrightarrow> length (remove_nth i xs) < length xs"
  by (simp add: remove_nth_def)

lemma mset_remove_nth: "i < length xs \<Longrightarrow> add_mset (xs ! i) (mset (remove_nth i xs)) = mset xs"
proof -
  assume "i < length xs"
  then have "mset xs = mset (take i xs @ xs ! i # drop (Suc i) xs)" by (metis id_take_nth_drop)
  then show ?thesis by (simp add: remove_nth_def)
qed

text \<open>\<open>for k := range m\<close>: the keys of the map in an order the runtime chooses.\<close>

function range_order :: "rng \<Rightarrow> 'a list \<Rightarrow> 'a list \<times> rng" where
  "range_order r [] = ([], r)"
| "range_order r (x # xs) =
     (let ys = x # xs; i = r 0 mod length ys; (zs, r') = range_order (rng_next r) (remove_nth i ys)
      in (ys ! i # zs, r'))"
  by pat_completeness auto
termination
  by (relation "measure (\<lambda>(r, xs). length xs)")
    (auto simp: length_remove_nth [where xs = "x # xs" for x xs, simplified])

lemma mset_range_order: "mset (fst (range_order r xs)) = mset xs"
proof (induction r xs rule: range_order.induct)
  case (1 r)
  show ?case by simp
next
  case (2 r x xs)
  let ?i = "r 0 mod length (x # xs)"
  have i: "?i < length (x # xs)" by simp
  from 2 [OF refl refl] mset_remove_nth [OF i] show ?case
    by (simp add: Let_def case_prod_unfold del: length_Cons)
qed

lemma set_range_order [simp]: "set (fst (range_order r xs)) = set xs"
  using mset_range_order by (metis set_mset_mset)

lemma length_range_order [simp]: "length (fst (range_order r xs)) = length xs"
  using mset_range_order by (metis size_mset)

lemma range_order_any: "mset ys = mset xs \<Longrightarrow> \<exists>r. fst (range_order r xs) = ys"
proof (induction ys arbitrary: xs)
  case Nil
  then show ?case by simp
next
  case (Cons y ys)
  from Cons.prems have "y \<in> set xs" by (metis list.set_intros(1) set_mset_mset)
  then obtain i where i: "i < length xs" "xs ! i = y" by (auto simp: in_set_conv_nth)
  with Cons.prems have "mset ys = mset (remove_nth i xs)"
    using mset_remove_nth [OF i(1)] by (metis add_mset_add_mset_same_iff mset.simps(2))
  from Cons.IH [OF this] obtain r where r: "fst (range_order r (remove_nth i xs)) = ys" by blast
  let ?r = "\<lambda>n. case n of 0 \<Rightarrow> i | Suc m \<Rightarrow> r m"
  have "rng_next ?r = r" by (simp add: rng_next_def)
  moreover from i obtain z zs where "xs = z # zs" by (cases xs) auto
  ultimately have "fst (range_order ?r xs) = y # ys"
    using i r by (simp add: Let_def case_prod_unfold)
  then show ?case by blast
qed

end
