(* ===== verification/Peer.thy ===== *)
theory Peer
  imports Prelude
begin

text \<open>
  The output side of \<open>server/server.go\<close>: the \<open>Peer\<close> a handler writes its reply to, the
  \<open>Write*\<close> methods, the bytes they put on the connection, and the grammar of complete
  replies of the protocol. The write buffer is kept as the list of items written; \<open>wire\<close>
  gives the bytes of an item, as the format strings of the \<open>Write*\<close> methods do.
\<close>

datatype token =
    TError string
  | TInline string
  | TBulk string
  | TNull
  | TLen int
  | TInt int

record 'ctx Peer =
  wbuf :: "token list"
  closed :: bool
  Ctx :: "'ctx option"

definition new_peer :: "'ctx Peer" where
  "new_peer = \<lparr>wbuf = [], closed = False, Ctx = None\<rparr>"

definition crlf :: string where
  "crlf = [CHR 0x0D, CHR 0x0A]"

fun wire :: "token \<Rightarrow> string" where
  "wire (TError e) = ''-'' @ e @ crlf"
| "wire (TInline s) = ''+'' @ s @ crlf"
| "wire (TBulk s) = ''$'' @ Itoa (int (length s)) @ crlf @ s @ crlf"
| "wire TNull = ''$-1'' @ crlf"
| "wire (TLen n) = ''*'' @ Itoa n @ crlf"
| "wire (TInt i) = '':'' @ Itoa i @ crlf"

definition wire_all :: "token list \<Rightarrow> string" where
  "wire_all ts = concat (map wire ts)"

definition emit :: "token list \<Rightarrow> 'ctx Peer \<Rightarrow> 'ctx Peer" where
  "emit ts c = c\<lparr>wbuf := wbuf c @ ts\<rparr>"

definition WriteError :: "string \<Rightarrow> 'ctx Peer \<Rightarrow> 'ctx Peer" where
  "WriteError e c = emit [TError e] c"

definition WriteInline :: "string \<Rightarrow> 'ctx Peer \<Rightarrow> 'ctx Peer" where
  "WriteInline s c = emit [TInline s] c"

definition WriteOK :: "'ctx Peer \<Rightarrow> 'ctx Peer" where
  "WriteOK c = WriteInline ''OK'' c"

definition WriteBulk :: "string \<Rightarrow> 'ctx Peer \<Rightarrow> 'ctx Peer" where
  "WriteBulk s c = emit [TBulk s] c"

definition WriteNull :: "'ctx Peer \<Rightarrow> 'ctx Peer" where
  "WriteNull c = emit [TNull] c"

definition WriteLen :: "int \<Rightarrow> 'ctx Peer \<Rightarrow> 'ctx Peer" where
  "WriteLen n c = emit [TLen n] c"

definition WriteInt :: "int \<Rightarrow> 'ctx Peer \<Rightarrow> 'ctx Peer" where
  "WriteInt i c = emit [TInt i] c"

definition Close :: "'ctx Peer \<Rightarrow> 'ctx Peer" where
  "Close c = c\<lparr>closed := True\<rparr>"

lemmas write_defs = WriteError_def WriteInline_def WriteOK_def WriteBulk_def WriteNull_def
  WriteLen_def WriteInt_def

lemma emit_simps [simp]:
  "wbuf (emit ts c) = wbuf c @ ts"
  "closed (emit ts c) = closed c"
  "Ctx (emit ts c) = Ctx c"
  "emit us (emit ts c) = emit (ts @ us) c"
  "emit [] c = c"
  by (simp_all add: emit_def)

lemma emit_ctx [simp]: "emit ts (c\<lparr>Ctx := x\<rparr>) = (emit ts c)\<lparr>Ctx := x\<rparr>"
  by (simp add: emit_def)

lemma wire_all_append [simp]: "wire_all (ts @ us) = wire_all ts @ wire_all us"
  by (simp add: wire_all_def)

subsection \<open>Complete replies\<close>

text \<open>
  One reply of the protocol is a single line, a bulk string, a null, or an array header
  followed by exactly as many replies as it announces.
\<close>

inductive reply :: "token list \<Rightarrow> bool" where
  error: "reply [TError e]"
| inline: "reply [TInline s]"
| bulk: "reply [TBulk s]"
| null: "reply [TNull]"
| integer: "reply [TInt i]"
| array: "(\<forall>r \<in> set rs. reply r) \<Longrightarrow> reply (TLen (int (length rs)) # concat rs)"

inductive_simps reply_simps:
  "reply []"
  "reply (TError e # ts)"
  "reply (TInline e # ts)"
  "reply (TBulk e # ts)"
  "reply (TNull # ts)"
  "reply (TInt i # ts)"

declare reply_simps [simp]

inductive_cases reply_lenE: "reply (TLen n # ts)"

lemma reply_array_empty [simp]: "reply [TLen 0]"
  using reply.array [of "[]"] by simp

lemma reply_bulks: "n = int (length xs) \<Longrightarrow> reply (TLen n # map TBulk xs)"
  using reply.array [of "map (\<lambda>x. [TBulk x]) xs"] by (auto simp: concat_map_singleton)

lemma reply_pair: "reply a \<Longrightarrow> reply b \<Longrightarrow> reply (TLen 2 # a @ b)"
  using reply.array [of "[a, b]"] by auto

lemma reply_nonempty: "reply r \<Longrightarrow> r \<noteq> []"
  by auto

text \<open>
  The grammar is unambiguous: no reply is a proper prefix of another, so a client that reads
  one reply at a time never loses its place in the stream.
\<close>

lemma concat_prefix_free:
  assumes "length rs = length ss" and "concat rs @ x = concat ss @ y"
    and "\<And>r s x y. r \<in> set rs \<Longrightarrow> s \<in> set ss \<Longrightarrow> r @ x = s @ y \<Longrightarrow> r = s"
  shows "rs = ss"
  using assms
proof (induction rs ss arbitrary: x y rule: list_induct2)
  case Nil
  then show ?case by simp
next
  case (Cons r rs s ss)
  have eq: "r @ (concat rs @ x) = s @ (concat ss @ y)" using Cons.prems(1) by simp
  have rs: "r = s" by (rule Cons.prems(2) [OF _ _ eq]) simp_all
  with eq have eq': "concat rs @ x = concat ss @ y" by simp
  have "rs = ss"
  proof (rule Cons.IH [OF eq'])
    fix r' s' x' y'
    assume "r' \<in> set rs" "s' \<in> set ss" "r' @ x' = s' @ y'"
    then show "r' = s'" by (meson Cons.prems(2) list.set_intros(2))
  qed
  with rs show ?case by simp
qed

lemma reply_prefix_free: "reply a \<Longrightarrow> reply b \<Longrightarrow> a @ x = b @ y \<Longrightarrow> a = b"
proof (induction a arbitrary: b x y rule: reply.induct)
  case (array rs)
  from array.prems obtain ts where b: "b = TLen (int (length rs)) # ts"
    using reply_nonempty [OF array.prems(1)] by (cases b) auto
  with array.prems(1) obtain ss where ss: "\<forall>s \<in> set ss. reply s" "length ss = length rs" "ts = concat ss"
    by (auto elim: reply_lenE)
  have rs: "rs = ss"
  proof (rule concat_prefix_free)
    show "length rs = length ss" using ss by simp
    show "concat rs @ x = concat ss @ y" using array.prems(2) b ss by simp
    show "\<And>r s x y. r \<in> set rs \<Longrightarrow> s \<in> set ss \<Longrightarrow> r @ x = s @ y \<Longrightarrow> r = s"
      using array.IH ss(1) by blast
  qed
  show ?case unfolding b ss(3) rs by (rule refl)
qed (case_tac b; auto)+

lemma replies_unique:
  "\<forall>r \<in> set rs. reply r \<Longrightarrow> \<forall>s \<in> set ss. reply s \<Longrightarrow> concat rs = concat ss \<Longrightarrow> rs = ss"
proof (induction rs arbitrary: ss)
  case Nil
  then show ?case using reply_nonempty by (cases ss) auto
next
  case (Cons r rs)
  from Cons.prems obtain s ss' where ss: "ss = s # ss'"
    using reply_nonempty by (cases ss) auto
  have rep: "reply r" "reply s" and tails: "\<forall>r \<in> set rs. reply r" "\<forall>s \<in> set ss'. reply s"
    using Cons.prems(1,2) ss by simp_all
  have eq: "r @ concat rs = s @ concat ss'" using Cons.prems(3) ss by simp
  have r: "r = s" by (rule reply_prefix_free [OF rep eq])
  with eq have "concat rs = concat ss'" by simp
  from Cons.IH [OF tails this] show ?case using r ss by simp
qed

end
