(* ===== verification/State.thy ===== *)
theory State
  imports Peer
begin

text \<open>
  The state of the server (\<open>rediqueue.go\<close>): one numbered database, the server object, the
  context of one connection, and the messages of \<open>redis.go\<close>.

  Go's queued transaction callbacks are closures. Each closure of the source is a
  constructor of \<open>txCmd\<close> (or \<open>blockCmd\<close>) that holds the variables the closure captures;
  what it does when called is \<open>run_txCmd\<close> of theory Tx.
\<close>

subsection \<open>Messages\<close>

definition msgWrongType :: string where
  "msgWrongType = ''WRONGTYPE Operation against a key holding the wrong kind of value''"

definition msgInvalidInt :: string where
  "msgInvalidInt = ''ERR value is not an integer or out of range''"

definition msgInvalidTimeout :: string where
  "msgInvalidTimeout = ''ERR timeout is not an integer or out of range''"

definition msgSyntaxError :: string where
  "msgSyntaxError = ''ERR syntax error''"

definition msgKeyNotFound :: string where
  "msgKeyNotFound = ''ERR no such key''"

definition msgOutOfRange :: string where
  "msgOutOfRange = ''ERR index out of range''"

definition msgInvalidCursor :: string where
  "msgInvalidCursor = ''ERR invalid cursor''"

definition msgNegTimeout :: string where
  "msgNegTimeout = ''ERR timeout is negative''"

definition errWrongNumber :: "string \<Rightarrow> string" where
  "errWrongNumber cmd = ''ERR wrong number of arguments for '' @ [CHR 0x27] @ ToLower cmd @ [CHR 0x27] @ '' command''"

subsection \<open>A database\<close>

type_synonym listKey = "string list"
type_synonym setKey = "string fset"

record RedisDB =
  db_id :: int
  keys :: "(string, string) fmap"
  listKeys :: "(string, listKey) fmap"
  setKeys :: "(string, setKey) fmap"
  keyVersion :: "(string, u64) fmap"

definition newRedisDB :: "int \<Rightarrow> RedisDB" where
  "newRedisDB i = \<lparr>db_id = i, keys = fmempty, listKeys = fmempty, setKeys = fmempty, keyVersion = fmempty\<rparr>"

subsection \<open>Connections and queued commands\<close>

datatype leftright = Left | Right

datatype blockCmd =
    BXpop "string list" leftright
  | BRpoplpush string string

datatype txCmd =
    TxBlocking blockCmd
  | TxDbsize | TxFlushall | TxFlushdb
  | TxUnwatch
  | TxDel "string list" | TxType string | TxExists "string list" | TxMove string int
  | TxKeys string | TxRandomkey | TxRename string string | TxRenamenx string string
  | TxScan int "string option"
  | TxLindex string int | TxLinsert string int string string | TxLlen string
  | TxXpop string leftright | TxXpush string "string list" leftright
  | TxXpushx string "string list" leftright | TxLrange string int int
  | TxLrem string int string | TxLset string int string | TxLtrim string int int
  | TxRpoplpush string string
  | TxSadd string "string list" | TxScard string | TxSdiff "string list"
  | TxSdiffstore string "string list" | TxSinter "string list" | TxSinterstore string "string list"
  | TxSismember string string | TxSmembers string | TxSmove string string string
  | TxSpop string "string list" | TxSrandmember string int bool | TxSrem string "string list"
  | TxSunion "string list" | TxSunionstore string "string list"
  | TxSscan string int "string option"

text \<open>A database number and a key; ordered, so that iteration over it is defined.\<close>

datatype dbKey = DbKey (dk_db: int) (dk_key: string)

instantiation dbKey :: linorder
begin

definition less_eq_dbKey :: "dbKey \<Rightarrow> dbKey \<Rightarrow> bool" where
  "less_eq_dbKey a b \<longleftrightarrow> dk_db a < dk_db b \<or> (dk_db a = dk_db b \<and> dk_key a \<le> dk_key b)"

definition less_dbKey :: "dbKey \<Rightarrow> dbKey \<Rightarrow> bool" where
  "less_dbKey a b \<longleftrightarrow> dk_db a < dk_db b \<or> (dk_db a = dk_db b \<and> dk_key a < dk_key b)"

instance
  by standard (auto simp: less_eq_dbKey_def less_dbKey_def intro: dbKey.expand)

end

record connCtx =
  selectedDB :: int
  authenticated :: bool
  transaction :: "txCmd list option"
  dirtyTransaction :: bool
  watching :: "(dbKey, u64) fmap option"

type_synonym peer = "connCtx Peer"

definition new_connCtx :: connCtx where
  "new_connCtx = \<lparr>selectedDB = 0, authenticated = False, transaction = None,
     dirtyTransaction = False, watching = None\<rparr>"

text \<open>\<open>getCtx\<close> allocates the context on first use; \<open>ctx\<close> reads the one it returns.\<close>

definition getCtx :: "peer \<Rightarrow> peer" where
  "getCtx c = (case Ctx c of None \<Rightarrow> c\<lparr>Ctx := Some new_connCtx\<rparr> | Some _ \<Rightarrow> c)"

definition ctx :: "peer \<Rightarrow> connCtx" where
  "ctx c = (case Ctx c of None \<Rightarrow> new_connCtx | Some x \<Rightarrow> x)"

definition upd_ctx :: "(connCtx \<Rightarrow> connCtx) \<Rightarrow> peer \<Rightarrow> peer" where
  "upd_ctx f c = c\<lparr>Ctx := Some (f (ctx c))\<rparr>"

definition startTx :: "peer \<Rightarrow> peer" where
  "startTx = upd_ctx (\<lambda>x. x\<lparr>transaction := Some [], dirtyTransaction := False\<rparr>)"

definition unwatch :: "peer \<Rightarrow> peer" where
  "unwatch = upd_ctx (\<lambda>x. x\<lparr>watching := None\<rparr>)"

definition stopTx :: "peer \<Rightarrow> peer" where
  "stopTx c = unwatch (upd_ctx (\<lambda>x. x\<lparr>transaction := None\<rparr>) c)"

definition inTx :: "peer \<Rightarrow> bool" where
  "inTx c \<longleftrightarrow> transaction (ctx c) \<noteq> None"

definition addTxCmd :: "txCmd \<Rightarrow> peer \<Rightarrow> peer" where
  "addTxCmd cb = upd_ctx (\<lambda>x. x\<lparr>transaction :=
     Some ((case transaction x of None \<Rightarrow> [] | Some cbs \<Rightarrow> cbs) @ [cb])\<rparr>)"

definition setDirty :: "peer \<Rightarrow> peer" where
  "setDirty c = (case Ctx c of None \<Rightarrow> c | Some x \<Rightarrow> c\<lparr>Ctx := Some (x\<lparr>dirtyTransaction := True\<rparr>)\<rparr>)"

definition setAuthenticated :: "peer \<Rightarrow> peer" where
  "setAuthenticated = upd_ctx (\<lambda>x. x\<lparr>authenticated := True\<rparr>)"

definition keyVer :: "RedisDB \<Rightarrow> string \<Rightarrow> u64" where
  "keyVer db k = (case fmlookup (keyVersion db) k of None \<Rightarrow> 0 | Some v \<Rightarrow> v)"

definition watch :: "RedisDB \<Rightarrow> string \<Rightarrow> peer \<Rightarrow> peer" where
  "watch db key = upd_ctx (\<lambda>x. x\<lparr>watching :=
     Some (fmupd (DbKey (db_id db) key) (keyVer db key)
       (case watching x of None \<Rightarrow> fmempty | Some ws \<Rightarrow> ws))\<rparr>)"

lemmas ctx_defs = getCtx_def ctx_def upd_ctx_def startTx_def stopTx_def unwatch_def inTx_def
  addTxCmd_def setDirty_def setAuthenticated_def watch_def

lemma ctx_upd_ctx [simp]: "ctx (upd_ctx f c) = f (ctx c)"
  by (simp add: ctx_def upd_ctx_def)

lemma ctx_getCtx [simp]: "ctx (getCtx c) = ctx c"
  by (auto simp: getCtx_def ctx_def split: option.splits)

lemma ctx_emit [simp]: "ctx (emit ts c) = ctx c"
  by (simp add: ctx_def)

lemma wbuf_upd [simp]:
  "wbuf (upd_ctx f c) = wbuf c" "wbuf (getCtx c) = wbuf c" "wbuf (setDirty c) = wbuf c"
  "closed (upd_ctx f c) = closed c" "closed (getCtx c) = closed c" "closed (setDirty c) = closed c"
  by (auto simp: upd_ctx_def getCtx_def setDirty_def split: option.splits)

subsection \<open>The server\<close>

text \<open>
  \<open>signal\<close> counts the broadcasts of the condition variable: a goroutine that started to
  wait when the count was \<open>g\<close> is woken as soon as the count is above \<open>g\<close>. The last two
  fields are what the server takes from the Go run time: the random source, and
  \<open>regexp.Compile\<close> with \<open>MatchString\<close> (\<open>None\<close> where \<open>MustCompile\<close> panics).
\<close>

record RediQueue =
  password :: string
  dbs :: "(int, RedisDB) fmap"
  m_selectedDB :: int
  signal :: nat
  rand :: rng
  re_compile :: "string \<Rightarrow> (string \<Rightarrow> bool) option"

definition NewRediQueue :: "rng \<Rightarrow> (string \<Rightarrow> (string \<Rightarrow> bool) option) \<Rightarrow> RediQueue" where
  "NewRediQueue r re = \<lparr>password = [], dbs = fmempty, m_selectedDB = 0, signal = 0, rand = r, re_compile = re\<rparr>"

definition RequireAuth :: "string \<Rightarrow> RediQueue \<Rightarrow> RediQueue" where
  "RequireAuth pw m = m\<lparr>password := pw\<rparr>"

definition put_db :: "int \<Rightarrow> RedisDB \<Rightarrow> RediQueue \<Rightarrow> RediQueue" where
  "put_db i db m = m\<lparr>dbs := fmupd i db (dbs m)\<rparr>"

text \<open>\<open>m.db(i)\<close>: the database, created on first use.\<close>

definition m_db :: "int \<Rightarrow> RediQueue \<Rightarrow> RedisDB \<times> RediQueue" where
  "m_db i m =
     (case fmlookup (dbs m) i of
        Some db \<Rightarrow> (db, m)
      | None \<Rightarrow> (newRedisDB i, put_db i (newRedisDB i) m))"

definition Broadcast :: "RediQueue \<Rightarrow> RediQueue" where
  "Broadcast m = m\<lparr>signal := Suc (signal m)\<rparr>"

text \<open>The database as any reader sees it: an absent one is a fresh one.\<close>

definition the_db :: "RediQueue \<Rightarrow> int \<Rightarrow> RedisDB" where
  "the_db m i = (case fmlookup (dbs m) i of None \<Rightarrow> newRedisDB i | Some db \<Rightarrow> db)"

lemma fst_m_db [simp]: "fst (m_db i m) = the_db m i"
  by (auto simp: m_db_def the_db_def split: option.splits)

lemma the_db_put_db [simp]: "the_db (put_db i db m) j = (if i = j then db else the_db m j)"
  by (auto simp: the_db_def put_db_def)

lemma the_db_m_db [simp]: "the_db (snd (m_db i m)) j = the_db m j"
  by (auto simp: m_db_def the_db_def put_db_def split: option.splits)

lemma m_db_fields [simp]:
  "password (snd (m_db i m)) = password m" "signal (snd (m_db i m)) = signal m"
  "rand (snd (m_db i m)) = rand m" "re_compile (snd (m_db i m)) = re_compile m"
  "password (put_db i db m) = password m" "signal (put_db i db m) = signal m"
  "rand (put_db i db m) = rand m" "re_compile (put_db i db m) = re_compile m"
  by (auto simp: m_db_def put_db_def split: option.splits)

lemma the_db_fields [simp]:
  "the_db (m\<lparr>rand := r\<rparr>) i = the_db m i" "the_db (Broadcast m) i = the_db m i"
  "the_db (RequireAuth pw m) i = the_db m i"
  by (simp_all add: the_db_def Broadcast_def RequireAuth_def)

subsection \<open>Authentication\<close>

text \<open>The access check every handler but AUTH, QUIT starts with; it sends the reply itself.\<close>

definition handleAuth :: "RediQueue \<Rightarrow> peer \<Rightarrow> bool \<times> peer" where
  "handleAuth m c =
     (if password m = [] then (True, c)
      else let c = getCtx c in
        if \<not> authenticated (ctx c) then (False, WriteError ''NOAUTH Authentication required.'' c)
        else (True, c))"

end
