(* ===== verification/Db.thy ===== *)
theory Db
  imports State
begin

text \<open>
  The operations of one database (\<open>db.go\<close>), its invariant, the keyspace it stands for, and
  how its version counters follow the changes of that keyspace.

  A database keeps the type of every key in \<open>keys\<close> and its value in \<open>listKeys\<close> or
  \<open>setKeys\<close>. \<open>value_of\<close> is the abstraction: what a key holds. Each operation is shown to
  compute the intended function of the abstract keyspace (a functional refinement), to keep
  \<open>wf_db\<close>, and to move the version of every key it changes.
\<close>

subsection \<open>Operations\<close>

definition db_exists :: "string \<Rightarrow> RedisDB \<Rightarrow> bool" where
  "db_exists k db \<longleftrightarrow> fmlookup (keys db) k \<noteq> None"

text \<open>The type of a key, or the empty string.\<close>

definition db_t :: "string \<Rightarrow> RedisDB \<Rightarrow> string" where
  "db_t k db = (case fmlookup (keys db) k of None \<Rightarrow> [] | Some s \<Rightarrow> s)"

definition allKeys :: "RedisDB \<Rightarrow> string list" where
  "allKeys db = sorted_list_of_fset (fmdom (keys db))"

definition flush :: "RedisDB \<Rightarrow> RedisDB" where
  "flush db = db\<lparr>keys := fmempty, listKeys := fmempty, setKeys := fmempty\<rparr>"

text \<open>Reading an absent key of a Go map gives the zero value: no elements.\<close>

definition list_at :: "string \<Rightarrow> RedisDB \<Rightarrow> listKey" where
  "list_at k db = (case fmlookup (listKeys db) k of None \<Rightarrow> [] | Some l \<Rightarrow> l)"

definition set_at :: "string \<Rightarrow> RedisDB \<Rightarrow> setKey" where
  "set_at k db = (case fmlookup (setKeys db) k of None \<Rightarrow> {||} | Some s \<Rightarrow> s)"

definition put_type :: "string \<Rightarrow> string \<Rightarrow> RedisDB \<Rightarrow> RedisDB" where
  "put_type k ty db = db\<lparr>keys := fmupd k ty (keys db)\<rparr>"

definition put_list :: "string \<Rightarrow> listKey \<Rightarrow> RedisDB \<Rightarrow> RedisDB" where
  "put_list k l db = db\<lparr>listKeys := fmupd k l (listKeys db)\<rparr>"

definition put_set :: "string \<Rightarrow> setKey \<Rightarrow> RedisDB \<Rightarrow> RedisDB" where
  "put_set k s db = db\<lparr>setKeys := fmupd k s (setKeys db)\<rparr>"

text \<open>\<open>db.keyVersion[k]++\<close>\<close>

definition bump :: "string \<Rightarrow> RedisDB \<Rightarrow> RedisDB" where
  "bump k db = db\<lparr>keyVersion := fmupd k (keyVer db k + 1) (keyVersion db)\<rparr>"

definition db_del :: "string \<Rightarrow> RedisDB \<Rightarrow> RedisDB option" where
  "db_del k db =
     (if \<not> db_exists k db then Some db
      else
        let ty = db_t k db;
            db = bump k (db\<lparr>keys := fmdrop k (keys db)\<rparr>)
        in if ty = ''list'' then Some (db\<lparr>listKeys := fmdrop k (listKeys db)\<rparr>)
           else if ty = ''set'' then Some (db\<lparr>setKeys := fmdrop k (setKeys db)\<rparr>)
           else None)"

text \<open>Moves a key to another database: whether it did, the source and the target after it.\<close>

definition db_move :: "string \<Rightarrow> RedisDB \<Rightarrow> RedisDB \<Rightarrow> (bool \<times> RedisDB \<times> RedisDB) option" where
  "db_move key db to =
     (if fmlookup (keys to) key \<noteq> None then Some (False, db, to)
      else (case fmlookup (keys db) key of
              None \<Rightarrow> Some (False, db, to)
            | Some ty \<Rightarrow> do {
                let to = put_type key ty to;
                to \<leftarrow> (if ty = ''list'' then Some (put_list key (list_at key db) to)
                      else if ty = ''set'' then Some (put_set key (set_at key db) to)
                      else None);
                let to = bump key to;
                db \<leftarrow> db_del key db;
                Some (True, db, to)
              }))"

definition db_rename :: "string \<Rightarrow> string \<Rightarrow> RedisDB \<Rightarrow> RedisDB option" where
  "db_rename from to db = do {
     db \<leftarrow> db_del to db;
     db \<leftarrow> (if db_t from db = ''list'' then Some (put_list to (list_at from db) db)
           else if db_t from db = ''set'' then Some (put_set to (set_at from db) db)
           else None);
     let db = bump to (put_type to (db_t from db) db);
     db_del from db
   }"

definition listLpush :: "string \<Rightarrow> string \<Rightarrow> RedisDB \<Rightarrow> int \<times> RedisDB" where
  "listLpush k v db =
     (let l = list_at k db;
          db = (if fmlookup (listKeys db) k = None then put_type k ''list'' db else db);
          l = [v] @ l
      in (int (length l), bump k (put_list k l db)))"

definition listLpop :: "string \<Rightarrow> RedisDB \<Rightarrow> (string \<times> RedisDB) option" where
  "listLpop k db =
     (case list_at k db of
        [] \<Rightarrow> None
      | el # l \<Rightarrow> do {
          db \<leftarrow> (if length l = 0 then db_del k db else Some (put_list k l db));
          Some (el, bump k db)
        })"

definition listPush :: "string \<Rightarrow> string list \<Rightarrow> RedisDB \<Rightarrow> int \<times> RedisDB" where
  "listPush k v db =
     (let l = list_at k db;
          db = (if fmlookup (listKeys db) k = None then put_type k ''list'' db else db);
          l = l @ v
      in (int (length l), bump k (put_list k l db)))"

definition listPop :: "string \<Rightarrow> RedisDB \<Rightarrow> (string \<times> RedisDB) option" where
  "listPop k db =
     (let l = list_at k db
      in if l = [] then None
         else do {
           let el = last l;
           let l = butlast l;
           db \<leftarrow> (if length l = 0 then db_del k db else Some (bump k (put_list k l db)));
           Some (el, db)
         })"

definition setSet :: "string \<Rightarrow> setKey \<Rightarrow> RedisDB \<Rightarrow> RedisDB" where
  "setSet k s db = bump k (put_set k s (put_type k ''set'' db))"

fun add_loop :: "string list \<Rightarrow> setKey \<Rightarrow> int \<Rightarrow> setKey \<times> int" where
  "add_loop [] s added = (s, added)"
| "add_loop (e # es) s added = add_loop es (finsert e s) (if e |\<in>| s then added else added + 1)"

definition setAdd :: "string \<Rightarrow> string list \<Rightarrow> RedisDB \<Rightarrow> int \<times> RedisDB" where
  "setAdd k elems db =
     (let s = set_at k db;
          db = (if fmlookup (setKeys db) k = None then put_type k ''set'' db else db);
          (s, added) = add_loop elems s 0
      in (added, bump k (put_set k s db)))"

fun rem_loop :: "string list \<Rightarrow> setKey \<Rightarrow> int \<Rightarrow> setKey \<times> int" where
  "rem_loop [] s removed = (s, removed)"
| "rem_loop (f # fs) s removed =
     (if f |\<in>| s then rem_loop fs (s |-| {|f|}) (removed + 1) else rem_loop fs s removed)"

text \<open>
  The set is mutated in place before the emptiness test, so the deletion below is of a key
  whose set is already empty; the model stores the set only where the source assigns it.
\<close>

definition setRem :: "string \<Rightarrow> string list \<Rightarrow> RedisDB \<Rightarrow> (int \<times> RedisDB) option" where
  "setRem k fs db =
     (case fmlookup (setKeys db) k of
        None \<Rightarrow> Some (0, db)
      | Some s \<Rightarrow> do {
          let (s, removed) = rem_loop fs s 0;
          db \<leftarrow> (if fcard s = 0 then db_del k db else Some (put_set k s db));
          Some (removed, bump k db)
        })"

definition setMembers :: "string \<Rightarrow> RedisDB \<Rightarrow> string list" where
  "setMembers k db = sorted_list_of_fset (set_at k db)"

definition setIsMember :: "string \<Rightarrow> string \<Rightarrow> RedisDB \<Rightarrow> bool" where
  "setIsMember k v db \<longleftrightarrow>
     (case fmlookup (setKeys db) k of None \<Rightarrow> False | Some s \<Rightarrow> v |\<in>| s)"

text \<open>
  The three set operations: \<open>None\<close> for the panic of \<open>keys[0]\<close> on no keys, \<open>Inl\<close> for the
  returned error, \<open>Inr\<close> for the set. The loops over the other keys are recursions that
  continue, return or panic as the source's loop bodies do.
\<close>

fun diff_loop :: "RedisDB \<Rightarrow> string list \<Rightarrow> setKey \<Rightarrow> string + setKey" where
  "diff_loop db [] s = Inr s"
| "diff_loop db (sk # ks) s =
     (if \<not> db_exists sk db then diff_loop db ks s
      else if db_t sk db \<noteq> ''set'' then Inl msgWrongType
      else diff_loop db ks (s |-| set_at sk db))"

fun inter_loop :: "RedisDB \<Rightarrow> string list \<Rightarrow> setKey \<Rightarrow> string + setKey" where
  "inter_loop db [] s = Inr s"
| "inter_loop db (sk # ks) s =
     (if \<not> db_exists sk db then inter_loop db ks s
      else if db_t sk db \<noteq> ''set'' then inter_loop db ks s
      else inter_loop db ks (ffilter (\<lambda>e. e |\<in>| set_at sk db) s))"

fun union_loop :: "RedisDB \<Rightarrow> string list \<Rightarrow> setKey \<Rightarrow> string + setKey" where
  "union_loop db [] s = Inr s"
| "union_loop db (sk # ks) s =
     (if \<not> db_exists sk db then union_loop db ks s
      else if db_t sk db \<noteq> ''set'' then Inl msgWrongType
      else union_loop db ks (s |\<union>| set_at sk db))"

definition setDiff :: "string list \<Rightarrow> RedisDB \<Rightarrow> (string + setKey) option" where
  "setDiff ks db =
     (case ks of
        [] \<Rightarrow> None
      | key # ks \<Rightarrow>
          Some (if db_exists key db \<and> db_t key db \<noteq> ''set'' then Inl msgWrongType
                else diff_loop db ks (set_at key db)))"

definition setInter :: "string list \<Rightarrow> RedisDB \<Rightarrow> (string + setKey) option" where
  "setInter ks db =
     (case ks of
        [] \<Rightarrow> None
      | key # ks \<Rightarrow>
          Some (if db_exists key db \<and> db_t key db \<noteq> ''set'' then Inl msgWrongType
                else inter_loop db ks (set_at key db)))"

definition setUnion :: "string list \<Rightarrow> RedisDB \<Rightarrow> (string + setKey) option" where
  "setUnion ks db =
     (case ks of
        [] \<Rightarrow> None
      | key # ks \<Rightarrow>
          Some (if db_exists key db \<and> db_t key db \<noteq> ''set'' then Inl msgWrongType
                else union_loop db ks (set_at key db)))"

text \<open>
  \<open>reverseSlice\<close> swaps the two ends inwards, in place. \<open>reverse_from i o\<close> is the loop from
  index \<open>i\<close> on.
\<close>

definition swap :: "nat \<Rightarrow> nat \<Rightarrow> 'a list \<Rightarrow> 'a list" where
  "swap i j xs = xs[i := xs ! j, j := xs ! i]"

fun reverse_loop :: "nat \<Rightarrow> 'a list \<Rightarrow> 'a list" where
  "reverse_loop 0 xs = xs"
| "reverse_loop (Suc i) xs = (let ys = reverse_loop i xs in swap i (length ys - 1 - i) ys)"

definition reverseSlice :: "'a list \<Rightarrow> 'a list" where
  "reverseSlice xs = reverse_loop (length xs div 2) xs"

subsection \<open>The keyspace and the invariant\<close>

datatype val = VList (vlist: listKey) | VSet (vset: setKey)

definition value_of :: "RedisDB \<Rightarrow> string \<Rightarrow> val option" where
  "value_of db k =
     (case fmlookup (keys db) k of
        None \<Rightarrow> None
      | Some ty \<Rightarrow> if ty = ''list'' then Some (VList (list_at k db)) else Some (VSet (set_at k db)))"

text \<open>
  The three maps agree: a key with no type has no value, a list key has a non-empty list
  and no set, a set key has a set and no list. (A set may be empty: SINTERSTORE and its kin
  store empty sets.)
\<close>

definition wf_entry :: "string option \<Rightarrow> listKey option \<Rightarrow> setKey option \<Rightarrow> bool" where
  "wf_entry ty l s \<longleftrightarrow>
     (case ty of
        None \<Rightarrow> l = None \<and> s = None
      | Some ty \<Rightarrow> (ty = ''list'' \<and> l \<noteq> None \<and> l \<noteq> Some [] \<and> s = None)
               \<or> (ty = ''set'' \<and> l = None \<and> s \<noteq> None))"

definition wf_db :: "RedisDB \<Rightarrow> bool" where
  "wf_db db \<longleftrightarrow>
     (\<forall>k. wf_entry (fmlookup (keys db) k) (fmlookup (listKeys db) k) (fmlookup (setKeys db) k))"

lemma wf_dbD: "wf_db db \<Longrightarrow> wf_entry (fmlookup (keys db) k) (fmlookup (listKeys db) k) (fmlookup (setKeys db) k)"
  by (simp add: wf_db_def)

lemma wf_newRedisDB [simp]: "wf_db (newRedisDB i)"
  by (simp add: wf_db_def newRedisDB_def wf_entry_def)

lemma value_of_newRedisDB [simp]: "value_of (newRedisDB i) = Map.empty"
  by (simp add: value_of_def newRedisDB_def fun_eq_iff)

lemma wf_flush [simp]: "wf_db (flush db)"
  by (simp add: wf_db_def flush_def wf_entry_def)

lemma value_of_flush [simp]: "value_of (flush db) = Map.empty"
  by (simp add: value_of_def flush_def fun_eq_iff)

lemma keyVer_flush [simp]: "keyVer (flush db) = keyVer db"
  by (simp add: keyVer_def flush_def fun_eq_iff)

text \<open>What the three maps hold at a key, by what the key holds.\<close>

lemma value_of_None:
  "wf_db db \<Longrightarrow> value_of db k = None \<Longrightarrow>
     fmlookup (keys db) k = None \<and> fmlookup (listKeys db) k = None \<and> fmlookup (setKeys db) k = None"
  using wf_dbD [of db k] by (auto simp: value_of_def wf_entry_def split: option.splits if_splits)

lemma value_of_VList:
  "wf_db db \<Longrightarrow> value_of db k = Some (VList l) \<Longrightarrow>
     fmlookup (keys db) k = Some ''list'' \<and> fmlookup (listKeys db) k = Some l \<and>
     fmlookup (setKeys db) k = None \<and> l \<noteq> []"
  using wf_dbD [of db k] by (auto simp: value_of_def wf_entry_def list_at_def split: option.splits if_splits)

lemma value_of_VSet:
  "wf_db db \<Longrightarrow> value_of db k = Some (VSet s) \<Longrightarrow>
     fmlookup (keys db) k = Some ''set'' \<and> fmlookup (listKeys db) k = None \<and>
     fmlookup (setKeys db) k = Some s"
  using wf_dbD [of db k] by (auto simp: value_of_def wf_entry_def set_at_def split: option.splits if_splits)

lemmas value_ofD = value_of_None value_of_VList value_of_VSet

lemma key_cases:
  obtains (absent) "value_of db k = None" | (list) l where "value_of db k = Some (VList l)"
    | (set) s where "value_of db k = Some (VSet s)"
  by (metis val.exhaust option.exhaust)

text \<open>The source's tests, by the value of the key.\<close>

lemma db_exists_iff: "db_exists k db \<longleftrightarrow> value_of db k \<noteq> None"
  by (auto simp: db_exists_def value_of_def split: option.splits)

lemma db_t_simps:
  "wf_db db \<Longrightarrow> value_of db k = None \<Longrightarrow> db_t k db = []"
  "wf_db db \<Longrightarrow> value_of db k = Some (VList l) \<Longrightarrow> db_t k db = ''list''"
  "wf_db db \<Longrightarrow> value_of db k = Some (VSet s) \<Longrightarrow> db_t k db = ''set''"
  by (auto simp: db_t_def dest: value_ofD)

lemma list_at_simps:
  "wf_db db \<Longrightarrow> value_of db k = None \<Longrightarrow> list_at k db = []"
  "wf_db db \<Longrightarrow> value_of db k = Some (VList l) \<Longrightarrow> list_at k db = l"
  "wf_db db \<Longrightarrow> value_of db k = Some (VSet s) \<Longrightarrow> list_at k db = []"
  by (auto simp: list_at_def dest: value_ofD)

lemma set_at_simps:
  "wf_db db \<Longrightarrow> value_of db k = None \<Longrightarrow> set_at k db = {||}"
  "wf_db db \<Longrightarrow> value_of db k = Some (VList l) \<Longrightarrow> set_at k db = {||}"
  "wf_db db \<Longrightarrow> value_of db k = Some (VSet s) \<Longrightarrow> set_at k db = s"
  by (auto simp: set_at_def dest: value_ofD)

lemmas lookup_simps = db_exists_iff db_t_simps list_at_simps set_at_simps

lemma keys_None_iff: "fmlookup (keys db) k = None \<longleftrightarrow> value_of db k = None"
  by (simp add: value_of_def split: option.split)

lemma fmdom_keys: "k |\<in>| fmdom (keys db) \<longleftrightarrow> value_of db k \<noteq> None"
  by (auto simp: value_of_def fmlookup_dom_iff split: option.splits)

lemma set_allKeys: "set (allKeys db) = {k. value_of db k \<noteq> None}"
  by (auto simp: allKeys_def fmdom_keys)

lemma sorted_allKeys: "sorted (allKeys db) \<and> distinct (allKeys db)"
  by (simp add: allKeys_def sorted_list_of_fset.rep_eq)

subsection \<open>Changes\<close>

text \<open>
  \<open>changed k v n db db'\<close>: \<open>db'\<close> is a well-formed database that differs from \<open>db\<close> only in
  that \<open>k\<close> now holds \<open>v\<close> and the version of \<open>k\<close> has moved \<open>n\<close> times.
\<close>

definition changed :: "string \<Rightarrow> val option \<Rightarrow> nat \<Rightarrow> RedisDB \<Rightarrow> RedisDB \<Rightarrow> bool" where
  "changed k v n db db' \<longleftrightarrow>
     wf_db db' \<and> db_id db' = db_id db \<and> value_of db' = (value_of db)(k := v) \<and>
     keyVer db' = (keyVer db)(k := keyVer db k + of_nat n)"

text \<open>
  \<open>evolves f db db'\<close>: the version of every key \<open>k\<close> has moved \<open>f k\<close> times, and of every key
  whose value differs at least once.
\<close>

definition evolves :: "(string \<Rightarrow> nat) \<Rightarrow> RedisDB \<Rightarrow> RedisDB \<Rightarrow> bool" where
  "evolves f db db' \<longleftrightarrow>
     db_id db' = db_id db \<and>
     (\<forall>k. keyVer db' k = keyVer db k + of_nat (f k) \<and>
          (value_of db' k \<noteq> value_of db k \<longrightarrow> 0 < f k))"

lemma evolves_refl [intro, simp]: "evolves (\<lambda>_. 0) db db"
  by (simp add: evolves_def)

lemma evolves_trans: "evolves f a b \<Longrightarrow> evolves g b c \<Longrightarrow> evolves (\<lambda>k. f k + g k) a c"
proof -
  assume f: "evolves f a b" and g: "evolves g b c"
  have "0 < f k + g k" if "value_of c k \<noteq> value_of a k" for k
    using that f g by (cases "value_of b k = value_of a k") (auto simp: evolves_def)
  with f g show ?thesis by (simp add: evolves_def add.assoc)
qed

lemma changed_evolves: "changed k v n db db' \<Longrightarrow> 0 < n \<Longrightarrow> evolves ((\<lambda>_. 0)(k := n)) db db'"
  by (simp add: changed_def evolves_def)

lemma changed_wf: "changed k v n db db' \<Longrightarrow> wf_db db'"
  by (simp add: changed_def)

lemma changed_trans:
  "changed k v n a b \<Longrightarrow> changed k u p b c \<Longrightarrow> changed k u (n + p) a c"
  by (simp add: changed_def add.assoc)

lemma changed_value: "changed k v n db db' \<Longrightarrow> value_of db' j = (if j = k then v else value_of db j)"
  by (simp add: changed_def)

text \<open>The two ways an operation builds its new state: the entry of one key is written or dropped.\<close>

lemma changed_I:
  assumes "wf_db db"
    and "\<And>j. j \<noteq> k \<Longrightarrow> fmlookup (keys db') j = fmlookup (keys db) j"
    and "\<And>j. j \<noteq> k \<Longrightarrow> fmlookup (listKeys db') j = fmlookup (listKeys db) j"
    and "\<And>j. j \<noteq> k \<Longrightarrow> fmlookup (setKeys db') j = fmlookup (setKeys db) j"
    and "db_id db' = db_id db"
    and "\<And>j. keyVer db' j = (if j = k then keyVer db j + of_nat n else keyVer db j)"
    and "wf_entry (fmlookup (keys db') k) (fmlookup (listKeys db') k) (fmlookup (setKeys db') k)"
    and "value_of db' k = v"
  shows "changed k v n db db'"
proof -
  have "wf_db db'"
    unfolding wf_db_def by (metis assms(1-4,7) wf_dbD)
  moreover have "value_of db' j = value_of db j" if "j \<noteq> k" for j
  proof -
    have "list_at j db' = list_at j db" "set_at j db' = set_at j db"
      using that by (simp_all add: list_at_def set_at_def assms(3,4))
    with that show ?thesis by (simp add: value_of_def assms(2) split: option.split)
  qed
  ultimately show ?thesis
    using assms(5,6,8) by (auto simp: changed_def fun_eq_iff)
qed

lemma keyVer_simps [simp]:
  "keyVer (bump k db) j = (if j = k then keyVer db j + 1 else keyVer db j)"
  "keyVer (put_type k ty db) = keyVer db" "keyVer (put_list k l db) = keyVer db"
  "keyVer (put_set k s db) = keyVer db"
  "keyVer (db\<lparr>keys := ks\<rparr>) = keyVer db" "keyVer (db\<lparr>listKeys := ls\<rparr>) = keyVer db"
  "keyVer (db\<lparr>setKeys := ss\<rparr>) = keyVer db"
  by (auto simp: keyVer_def bump_def put_type_def put_list_def put_set_def fun_eq_iff)

lemma put_simps [simp]:
  "keys (bump k db) = keys db" "keys (put_type k ty db) = fmupd k ty (keys db)"
  "keys (put_list k l db) = keys db" "keys (put_set k s db) = keys db"
  "listKeys (bump k db) = listKeys db" "listKeys (put_type k ty db) = listKeys db"
  "listKeys (put_list k l db) = fmupd k l (listKeys db)" "listKeys (put_set k s db) = listKeys db"
  "setKeys (bump k db) = setKeys db" "setKeys (put_type k ty db) = setKeys db"
  "setKeys (put_list k l db) = setKeys db" "setKeys (put_set k s db) = fmupd k s (setKeys db)"
  "db_id (bump k db) = db_id db" "db_id (put_type k ty db) = db_id db"
  "db_id (put_list k l db) = db_id db" "db_id (put_set k s db) = db_id db"
  by (simp_all add: bump_def put_type_def put_list_def put_set_def)

subsection \<open>What each operation does\<close>

lemma db_del_absent: "value_of db k = None \<Longrightarrow> db_del k db = Some db"
  by (simp add: db_del_def db_exists_iff)

lemma db_del_present:
  assumes "wf_db db" "value_of db k \<noteq> None"
  obtains db' where "db_del k db = Some db'" "changed k None 1 db db'"
proof (cases rule: key_cases [of db k])
  case absent
  with assms show ?thesis by simp
next
  case (list l)
  note e = value_of_VList [OF assms(1) list]
  let ?db = "(bump k (db\<lparr>keys := fmdrop k (keys db)\<rparr>))\<lparr>listKeys := fmdrop k (listKeys db)\<rparr>"
  have "db_del k db = Some ?db"
    using list assms(1) by (simp add: db_del_def lookup_simps bump_def)
  moreover have "changed k None 1 db ?db"
    by (rule changed_I [OF assms(1)]) (use e in \<open>auto simp: wf_entry_def value_of_def\<close>)
  ultimately show ?thesis by (rule that)
next
  case (set s)
  note e = value_of_VSet [OF assms(1) set]
  let ?db = "(bump k (db\<lparr>keys := fmdrop k (keys db)\<rparr>))\<lparr>setKeys := fmdrop k (setKeys db)\<rparr>"
  have "db_del k db = Some ?db"
    using set assms(1) by (simp add: db_del_def lookup_simps bump_def)
  moreover have "changed k None 1 db ?db"
    by (rule changed_I [OF assms(1)]) (use e in \<open>auto simp: wf_entry_def value_of_def\<close>)
  ultimately show ?thesis by (rule that)
qed

lemma db_del_spec:
  assumes "wf_db db"
  obtains db' n where "db_del k db = Some db'" "changed k None n db db'"
    "n = (if value_of db k = None then 0 else 1)"
proof (cases "value_of db k = None")
  case True
  then have "changed k None 0 db db"
    using assms by (auto simp: changed_def)
  with True db_del_absent [OF True] show ?thesis by (intro that) auto
next
  case False
  with assms obtain db' where "db_del k db = Some db'" "changed k None 1 db db'"
    by (rule db_del_present)
  with False show ?thesis by (intro that [of db' 1]) auto
qed

text \<open>A key a list operation may work on: it holds a list, or nothing.\<close>

definition list_or_absent :: "RedisDB \<Rightarrow> string \<Rightarrow> bool" where
  "list_or_absent db k \<longleftrightarrow> value_of db k = None \<or> (\<exists>l. value_of db k = Some (VList l))"

definition set_or_absent :: "RedisDB \<Rightarrow> string \<Rightarrow> bool" where
  "set_or_absent db k \<longleftrightarrow> value_of db k = None \<or> (\<exists>s. value_of db k = Some (VSet s))"

lemma put_list_changed:
  assumes "wf_db db" "list_or_absent db k" "l \<noteq> []"
  shows "changed k (Some (VList l)) 1 db
    (bump k (put_list k l (if fmlookup (listKeys db) k = None then put_type k ''list'' db else db)))"
proof (cases "value_of db k")
  case None
  note e = value_of_None [OF assms(1) None]
  show ?thesis
    by (intro changed_I [OF assms(1)]) (simp_all add: e assms(3) wf_entry_def value_of_def list_at_def)
next
  case (Some v)
  with assms(2) obtain l0 where l0: "value_of db k = Some (VList l0)" by (auto simp: list_or_absent_def)
  note e = value_of_VList [OF assms(1) l0]
  show ?thesis
    by (intro changed_I [OF assms(1)]) (simp_all add: e assms(3) wf_entry_def value_of_def list_at_def)
qed

lemma put_list_changed':
  assumes "wf_db db" "value_of db k = Some (VList l0)" "l \<noteq> []"
  shows "changed k (Some (VList l)) 1 db (bump k (put_list k l db))"
proof -
  have "list_or_absent db k" using assms(2) by (auto simp: list_or_absent_def)
  from put_list_changed [OF assms(1) this assms(3)] value_of_VList [OF assms(1,2)]
  show ?thesis by simp
qed

lemma put_set_changed:
  assumes "wf_db db" "set_or_absent db k"
  shows "changed k (Some (VSet s)) 1 db
    (bump k (put_set k s (if fmlookup (setKeys db) k = None then put_type k ''set'' db else db)))"
proof (cases "value_of db k")
  case None
  note e = value_of_None [OF assms(1) None]
  show ?thesis
    by (intro changed_I [OF assms(1)]) (simp_all add: e wf_entry_def value_of_def set_at_def)
next
  case (Some v)
  with assms(2) obtain s0 where s0: "value_of db k = Some (VSet s0)" by (auto simp: set_or_absent_def)
  note e = value_of_VSet [OF assms(1) s0]
  show ?thesis
    by (intro changed_I [OF assms(1)]) (simp_all add: e wf_entry_def value_of_def set_at_def)
qed

lemma put_set_changed':
  assumes "wf_db db" "value_of db k = Some (VSet s0)"
  shows "changed k (Some (VSet s)) 1 db (bump k (put_set k s db))"
proof -
  have "set_or_absent db k" using assms(2) by (auto simp: set_or_absent_def)
  from put_set_changed [OF assms(1) this] value_of_VSet [OF assms(1,2)]
  show ?thesis by simp
qed

lemma listLpush_spec:
  assumes "wf_db db" "list_or_absent db k"
  shows "fst (listLpush k v db) = int (length (v # list_at k db)) \<and>
    changed k (Some (VList (v # list_at k db))) 1 db (snd (listLpush k v db))"
  using put_list_changed [OF assms, of "v # list_at k db"] by (simp add: listLpush_def Let_def)

lemma listPush_spec:
  assumes "wf_db db" "list_or_absent db k" "list_at k db @ vs \<noteq> []"
  shows "fst (listPush k vs db) = int (length (list_at k db @ vs)) \<and>
    changed k (Some (VList (list_at k db @ vs))) 1 db (snd (listPush k vs db))"
  using put_list_changed [OF assms(1,2), of "list_at k db @ vs"] assms(3)
  by (simp add: listPush_def Let_def)

lemma bump_changed: "changed k v n db db' \<Longrightarrow> changed k v (Suc n) db (bump k db')"
proof -
  assume c: "changed k v n db db'"
  have "value_of (bump k db') = value_of db'"
    by (simp add: value_of_def list_at_def set_at_def fun_eq_iff split: option.split)
  moreover from c have "wf_db (bump k db')" by (simp add: changed_def wf_db_def)
  moreover note c
  ultimately have "wf_db (bump k db')" "value_of (bump k db') = (value_of db)(k := v)"
    by (simp_all add: changed_def)
  with c show ?thesis by (auto simp: changed_def fun_eq_iff)
qed

lemma listLpop_spec:
  assumes "wf_db db" "value_of db k = Some (VList (x # l))"
  obtains db' n where "listLpop k db = Some (x, db')" "0 < n"
    "changed k (if l = [] then None else Some (VList l)) n db db'"
proof (cases "l = []")
  case True
  from assms obtain db1 where "db_del k db = Some db1" "changed k None 1 db db1"
    by (auto intro: db_del_present)
  with True assms show ?thesis
    by (intro that [of "bump k db1" "Suc 1"]) (auto simp: listLpop_def lookup_simps intro: bump_changed)
next
  case False
  with put_list_changed' [OF assms False] assms show ?thesis
    by (intro that [of "bump k (put_list k l db)" 1]) (auto simp: listLpop_def lookup_simps)
qed

lemma listPop_spec:
  assumes "wf_db db" "value_of db k = Some (VList l)"
  obtains db' where "listPop k db = Some (last l, db')"
    "changed k (if butlast l = [] then None else Some (VList (butlast l))) 1 db db'"
proof -
  have ne: "l \<noteq> []" using value_of_VList [OF assms] by simp
  show ?thesis
  proof (cases "butlast l = []")
    case True
    from assms obtain db1 where "db_del k db = Some db1" "changed k None 1 db db1"
      by (auto intro: db_del_present)
    with True ne assms show ?thesis
      by (intro that [of db1]) (auto simp: listPop_def lookup_simps Let_def)
  next
    case False
    with put_list_changed' [OF assms False] ne assms show ?thesis
      by (intro that [of "bump k (put_list k (butlast l) db)"])
        (auto simp: listPop_def lookup_simps Let_def)
  qed
qed

lemma listLpop_empty: "list_at k db = [] \<Longrightarrow> listLpop k db = None \<and> listPop k db = None"
  by (simp add: listLpop_def listPop_def)

lemma setSet_spec:
  assumes "wf_db db" "set_or_absent db k"
  shows "changed k (Some (VSet s)) 1 db (setSet k s db)"
proof (cases "value_of db k")
  case None
  note e = value_of_None [OF assms(1) None]
  show ?thesis unfolding setSet_def
    by (intro changed_I [OF assms(1)]) (simp_all add: e wf_entry_def value_of_def set_at_def)
next
  case (Some v)
  with assms(2) obtain s0 where s0: "value_of db k = Some (VSet s0)" by (auto simp: set_or_absent_def)
  note e = value_of_VSet [OF assms(1) s0]
  show ?thesis unfolding setSet_def
    by (intro changed_I [OF assms(1)]) (simp_all add: e wf_entry_def value_of_def set_at_def)
qed

lemma add_loop_eq:
  "add_loop es s n = (s |\<union>| fset_of_list es, n + int (fcard (fset_of_list es |-| s)))"
proof (induction es s n rule: add_loop.induct)
  case (1 s n)
  then show ?case by simp
next
  case (2 e es s n)
  show ?case
  proof (cases "e |\<in>| s")
    case True
    then have "finsert e s = s" by auto
    moreover have "fset_of_list (e # es) |-| s = fset_of_list es |-| s" using True by auto
    ultimately show ?thesis using 2 True by auto
  next
    case False
    have "fset_of_list (e # es) |-| s = finsert e (fset_of_list es |-| finsert e s)"
      using False by auto
    then have "fcard (fset_of_list (e # es) |-| s) = Suc (fcard (fset_of_list es |-| finsert e s))"
      by (simp add: fcard_finsert_disjoint)
    then show ?thesis using 2 False by auto
  qed
qed

lemma rem_loop_eq:
  "rem_loop fs s n = (s |-| fset_of_list fs, n + int (fcard (s |\<inter>| fset_of_list fs)))"
proof (induction fs s n rule: rem_loop.induct)
  case (1 s n)
  then show ?case by simp
next
  case (2 f fs s n)
  show ?case
  proof (cases "f |\<in>| s")
    case True
    have "s |\<inter>| fset_of_list (f # fs) = finsert f ((s |-| {|f|}) |\<inter>| fset_of_list fs)"
      using True by auto
    then have "fcard (s |\<inter>| fset_of_list (f # fs)) = Suc (fcard ((s |-| {|f|}) |\<inter>| fset_of_list fs))"
      by (simp add: fcard_finsert_disjoint)
    moreover have "s |-| {|f|} |-| fset_of_list fs = s |-| fset_of_list (f # fs)" by auto
    ultimately show ?thesis using 2 True by simp
  next
    case False
    then have "s |\<inter>| fset_of_list (f # fs) = s |\<inter>| fset_of_list fs" "s |-| fset_of_list (f # fs) = s |-| fset_of_list fs"
      by auto
    then show ?thesis using 2 False by simp
  qed
qed

lemma setAdd_spec:
  assumes "wf_db db" "set_or_absent db k"
  shows "fst (setAdd k es db) = int (fcard (fset_of_list es |-| set_at k db)) \<and>
    changed k (Some (VSet (set_at k db |\<union>| fset_of_list es))) 1 db (snd (setAdd k es db))"
  using put_set_changed [OF assms] by (simp add: setAdd_def Let_def add_loop_eq)

text \<open>What a key holds once only the elements \<open>s\<close> are left of its set.\<close>

definition set_val :: "setKey \<Rightarrow> val option" where
  "set_val s = (if s = {||} then None else Some (VSet s))"

lemma setRem_spec:
  assumes "wf_db db" "value_of db k = Some (VSet s)"
  obtains db' n where "setRem k fs db = Some (int (fcard (s |\<inter>| fset_of_list fs)), db')" "0 < n"
    "changed k (set_val (s |-| fset_of_list fs)) n db db'"
proof (cases "s |-| fset_of_list fs = {||}")
  case True
  from assms obtain db1 where "db_del k db = Some db1" "changed k None 1 db db1"
    by (auto intro: db_del_present)
  with True value_of_VSet [OF assms] show ?thesis
    by (intro that [of "bump k db1" "Suc 1"]) (auto simp: setRem_def rem_loop_eq set_val_def intro: bump_changed)
next
  case False
  with put_set_changed' [OF assms, of "s |-| fset_of_list fs"] value_of_VSet [OF assms] show ?thesis
    by (intro that [of "bump k (put_set k (s |-| fset_of_list fs) db)" 1])
      (auto simp: setRem_def rem_loop_eq set_val_def)
qed

lemma setRem_absent: "wf_db db \<Longrightarrow> value_of db k = None \<Longrightarrow> setRem k fs db = Some (0, db)"
  by (auto simp: setRem_def dest: value_ofD)

lemma set_setMembers [simp]: "set (setMembers k db) = fset (set_at k db)"
  by (simp add: setMembers_def)

lemma setMembers_Nil [simp]: "setMembers k db = [] \<longleftrightarrow> set_at k db = {||}"
  by (metis set_setMembers set_empty bot_fset.rep_eq fset_inject)

lemma length_setMembers [simp]: "length (setMembers k db) = fcard (set_at k db)"
  by (simp add: setMembers_def sorted_list_of_fset.rep_eq fcard.rep_eq)

lemma setIsMember_iff: "setIsMember k v db \<longleftrightarrow> v |\<in>| set_at k db"
  by (auto simp: setIsMember_def set_at_def split: option.splits)

lemma db_rename_spec:
  assumes "wf_db db" "value_of db from = Some v" "from \<noteq> to"
  obtains db' where "db_rename from to db = Some db'" "wf_db db'" "db_id db' = db_id db"
    "value_of db' = (value_of db)(to := Some v, from := None)"
    "keyVer db' = (keyVer db)(from := keyVer db from + 1,
       to := keyVer db to + (if value_of db to = None then 1 else 2))"
proof -
  obtain db1 n where d1: "db_del to db = Some db1" "changed to None n db db1"
    and n: "n = (if value_of db to = None then 0 else 1)"
    using db_del_spec [OF assms(1)] by blast
  have wf1: "wf_db db1" and v1: "value_of db1 from = Some v" and t1: "value_of db1 to = None"
    using d1(2) assms by (auto simp: changed_def)
  note t1' = value_of_None [OF wf1 t1]
  obtain db2 where db2: "(if db_t from db1 = ''list'' then Some (put_list to (list_at from db1) db1)
      else if db_t from db1 = ''set'' then Some (put_set to (set_at from db1) db1) else None) = Some db2"
    and c2: "changed to (Some v) 1 db1 (bump to (put_type to (db_t from db1) db2))"
    and ty: "db_t from db2 = db_t from db1"
  proof (cases v)
    case (VList l)
    note e = value_of_VList [OF wf1 v1 [unfolded VList]]
    have "changed to (Some v) 1 db1 (bump to (put_type to ''list'' (put_list to l db1)))"
      unfolding VList
      by (rule changed_I [OF wf1]) (simp_all add: e t1' wf_entry_def value_of_def list_at_def)
    then show ?thesis
      using v1 wf1 by (intro that [of "put_list to l db1"]) (simp_all add: VList lookup_simps db_t_def e)
  next
    case (VSet s)
    note e = value_of_VSet [OF wf1 v1 [unfolded VSet]]
    have "changed to (Some v) 1 db1 (bump to (put_type to ''set'' (put_set to s db1)))"
      unfolding VSet
      by (rule changed_I [OF wf1]) (simp_all add: e t1' wf_entry_def value_of_def set_at_def)
    then show ?thesis
      using v1 wf1 by (intro that [of "put_set to s db1"]) (simp_all add: VSet lookup_simps db_t_def e)
  qed
  obtain db3 where db3: "bump to (put_type to (db_t from db1) db2) = db3" by blast
  note c3 = c2 [unfolded db3]
  have "value_of db3 from \<noteq> None" using c3 v1 assms(3) by (simp add: changed_def)
  then obtain db4 where d4: "db_del from db3 = Some db4" "changed from None 1 db3 db4"
    using changed_wf [OF c3] by (auto intro: db_del_present)
  have "db_rename from to db = Some db4"
    using d1(1) db2 ty d4(1) db3 by (simp add: db_rename_def Let_def)
  moreover have "wf_db db4" "db_id db4 = db_id db"
    using d1(2) c3 d4(2) by (simp_all add: changed_def)
  moreover have "value_of db4 = (value_of db)(to := Some v, from := None)"
    using d1(2) c3 d4(2) by (simp add: changed_def)
  moreover have "keyVer db4 = (keyVer db)(from := keyVer db from + 1,
       to := keyVer db to + (if value_of db to = None then 1 else 2))"
    using d1(2) c3 d4(2) assms(3) n by (simp add: changed_def fun_upd_twist add.commute)
  ultimately show ?thesis by (rule that)
qed

text \<open>RENAME of a key to itself: the first deletion removes the source, and the type switch panics.\<close>

lemma db_rename_same: "wf_db db \<Longrightarrow> db_rename k k db = None"
proof -
  assume wf: "wf_db db"
  obtain db1 n where "db_del k db = Some db1" and c: "changed k None n db db1"
    using db_del_spec [OF wf] by blast
  moreover have "db_t k db1 = []"
    using c by (intro db_t_simps(1)) (auto simp: changed_def)
  ultimately show ?thesis by (simp add: db_rename_def)
qed

lemma db_move_spec:
  assumes "wf_db db" "wf_db to"
  obtains b db' to' where "db_move key db to = Some (b, db', to')"
    "b \<longleftrightarrow> value_of db key \<noteq> None \<and> value_of to key = None"
    "b \<Longrightarrow> changed key None 1 db db'" "b \<Longrightarrow> changed key (value_of db key) 1 to to'"
    "\<not> b \<Longrightarrow> db' = db \<and> to' = to"
proof (cases "value_of db key \<noteq> None \<and> value_of to key = None")
  case False
  then have "fmlookup (keys to) key \<noteq> None \<or> fmlookup (keys db) key = None"
    by (auto simp: keys_None_iff)
  then have "db_move key db to = Some (False, db, to)"
    by (auto simp: db_move_def)
  with False show ?thesis by (intro that [of False db to]) auto
next
  case True
  then obtain v where v: "value_of db key = Some v" and t: "value_of to key = None" by auto
  note t' = value_of_None [OF assms(2) t]
  obtain db' where d: "db_del key db = Some db'" "changed key None 1 db db'"
    using assms(1) True by (auto intro: db_del_present)
  show ?thesis
  proof (cases v)
    case (VList l)
    note e = value_of_VList [OF assms(1) v [unfolded VList]]
    have "changed key (Some (VList l)) 1 to (bump key (put_list key l (put_type key ''list'' to)))"
      by (rule changed_I [OF assms(2)]) (simp_all add: e t' wf_entry_def value_of_def list_at_def)
    with d t' e v VList assms(1) show ?thesis
      by (intro that [of True db' "bump key (put_list key l (put_type key ''list'' to))"])
        (simp_all add: db_move_def list_at_def t)
  next
    case (VSet s)
    note e = value_of_VSet [OF assms(1) v [unfolded VSet]]
    have "changed key (Some (VSet s)) 1 to (bump key (put_set key s (put_type key ''set'' to)))"
      by (rule changed_I [OF assms(2)]) (simp_all add: e t' wf_entry_def value_of_def set_at_def)
    with d t' e v VSet assms(1) show ?thesis
      by (intro that [of True db' "bump key (put_set key s (put_type key ''set'' to))"])
        (simp_all add: db_move_def set_at_def t)
  qed
qed

text \<open>
  The three cases of every command on a key: no key, a list, a set. The tests of the source
  are decided by \<open>key_facts\<close>.
\<close>

lemma key_facts:
  "wf_db db \<Longrightarrow> value_of db k = None \<Longrightarrow>
     fmlookup (keys db) k = None \<and> \<not> db_exists k db \<and> list_at k db = [] \<and> set_at k db = {||}"
  "wf_db db \<Longrightarrow> value_of db k = Some (VList l) \<Longrightarrow>
     fmlookup (keys db) k = Some ''list'' \<and> db_exists k db \<and> db_t k db = ''list'' \<and> list_at k db = l \<and> l \<noteq> []"
  "wf_db db \<Longrightarrow> value_of db k = Some (VSet s) \<Longrightarrow>
     fmlookup (keys db) k = Some ''set'' \<and> db_exists k db \<and> db_t k db = ''set'' \<and> list_at k db = [] \<and>
     set_at k db = s"
  using value_of_None value_of_VList value_of_VSet lookup_simps by (metis option.distinct(1))+

end
