(* ===== verification/Command.thy ===== *)
theory Command
  imports Db
begin

text \<open>
  What the body of a command is, and the contracts command bodies keep.

  Most callbacks of the source have one shape: take the database of the connection, read or
  change it, write a reply. Such a body is a function on the database (and the random source)
  that gives the new database and the items written; \<open>on_db\<close> runs it as the callback does,
  on \<open>m.db(ctx.selectedDB)\<close>. The locales state what the rest of the server relies on:
  \<open>db_command\<close> (the invariant is kept, exactly one complete reply is written),
  \<open>watched_command\<close> (besides, versions follow changes), \<open>total_command\<close> (it never panics)
  for bodies, and \<open>callback\<close> for a whole callback.
\<close>

type_synonym dbcmd = "rng \<Rightarrow> RedisDB \<Rightarrow> (RedisDB \<times> rng \<times> token list) option"

text \<open>A body that uses no randomness.\<close>

definition det :: "(RedisDB \<Rightarrow> (RedisDB \<times> token list) option) \<Rightarrow> dbcmd" where
  "det f r db = map_option (\<lambda>(db, ts). (db, r, ts)) (f db)"

definition on_db :: "dbcmd \<Rightarrow> RediQueue \<Rightarrow> peer \<Rightarrow> (RediQueue \<times> peer) option" where
  "on_db f m c =
     (let i = selectedDB (ctx c); (db, m) = m_db i m in
        case f (rand m) db of
          None \<Rightarrow> None
        | Some (db, r, ts) \<Rightarrow> Some ((put_db i db m)\<lparr>rand := r\<rparr>, emit ts c))"

subsection \<open>The server as a whole\<close>

definition wf_m :: "RediQueue \<Rightarrow> bool" where
  "wf_m m \<longleftrightarrow> (\<forall>i. wf_db (the_db m i) \<and> db_id (the_db m i) = i)"

definition m_evolves :: "RediQueue \<Rightarrow> RediQueue \<Rightarrow> bool" where
  "m_evolves m m' \<longleftrightarrow> (\<forall>i. \<exists>g. evolves g (the_db m i) (the_db m' i))"

text \<open>What no command body changes: the password, the broadcast count, the regexp package.\<close>

definition same_env :: "RediQueue \<Rightarrow> RediQueue \<Rightarrow> bool" where
  "same_env m m' \<longleftrightarrow> password m' = password m \<and> signal m' = signal m \<and> re_compile m' = re_compile m"

text \<open>
  What a callback does to its connection: it writes \<open>ts\<close>, and touches nothing of the
  context but the dirty mark.
\<close>

definition wrote :: "token list \<Rightarrow> peer \<Rightarrow> peer \<Rightarrow> bool" where
  "wrote ts c c' \<longleftrightarrow>
     wbuf c' = wbuf c @ ts \<and> closed c' = closed c \<and>
     (Ctx c \<noteq> None \<longrightarrow> Ctx c' \<noteq> None) \<and>
     selectedDB (ctx c') = selectedDB (ctx c) \<and> authenticated (ctx c') = authenticated (ctx c) \<and>
     transaction (ctx c') = transaction (ctx c) \<and> watching (ctx c') = watching (ctx c)"

lemma wf_mD [dest]: "wf_m m \<Longrightarrow> wf_db (the_db m i) \<and> db_id (the_db m i) = i"
  by (simp add: wf_m_def)

lemma wf_m_put [intro]: "wf_m m \<Longrightarrow> wf_db db \<Longrightarrow> db_id db = i \<Longrightarrow> wf_m (put_db i db m)"
  by (simp add: wf_m_def)

lemma wf_m_simps [simp]:
  "wf_m (m\<lparr>rand := r\<rparr>) = wf_m m" "wf_m (Broadcast m) = wf_m m" "wf_m (snd (m_db i m)) = wf_m m"
  "wf_m (RequireAuth pw m) = wf_m m"
  by (simp_all add: wf_m_def)

lemma wf_NewRediQueue [simp]: "wf_m (NewRediQueue r re)"
  by (simp add: wf_m_def the_db_def NewRediQueue_def) (simp add: newRedisDB_def)

lemma m_evolves_refl [simp, intro]: "m_evolves m m"
  using evolves_refl by (auto simp: m_evolves_def)

lemma m_evolves_trans: "m_evolves a b \<Longrightarrow> m_evolves b c \<Longrightarrow> m_evolves a c"
  unfolding m_evolves_def using evolves_trans by blast

lemma same_env_refl [simp]: "same_env m m"
  by (simp add: same_env_def)

lemma same_env_trans: "same_env a b \<Longrightarrow> same_env b c \<Longrightarrow> same_env a c"
  by (simp add: same_env_def)

lemma wrote_emit [simp]: "wrote ts c (emit ts c)"
  by (simp add: wrote_def)

lemma wrote_trans: "wrote ts a b \<Longrightarrow> wrote us b c \<Longrightarrow> wrote (ts @ us) a c"
  by (simp add: wrote_def)

lemma wrote_getCtx: "wrote [] c (getCtx c)"
  by (simp add: wrote_def getCtx_def split: option.splits) (simp add: ctx_def)

lemma wrote_setDirty: "wrote [] c (setDirty c)"
  by (auto simp: wrote_def setDirty_def ctx_def split: option.splits)

subsection \<open>Contracts\<close>

locale callback =
  fixes cb :: "RediQueue \<Rightarrow> peer \<Rightarrow> (RediQueue \<times> peer) option"
  assumes cb_wf: "wf_m m \<Longrightarrow> cb m c = Some (m', c') \<Longrightarrow> wf_m m'"
    and cb_env: "wf_m m \<Longrightarrow> cb m c = Some (m', c') \<Longrightarrow> same_env m m'"
    and cb_reply: "wf_m m \<Longrightarrow> cb m c = Some (m', c') \<Longrightarrow> \<exists>ts. reply ts \<and> wrote ts c c'"

locale watched_callback = callback +
  assumes cb_evolves: "wf_m m \<Longrightarrow> cb m c = Some (m', c') \<Longrightarrow> m_evolves m m'"

text \<open>The laws of one call, together.\<close>

definition called :: "RediQueue \<Rightarrow> peer \<Rightarrow> RediQueue \<Rightarrow> peer \<Rightarrow> bool" where
  "called m c m' c' \<longleftrightarrow> wf_m m' \<and> same_env m m' \<and> (\<exists>ts. reply ts \<and> wrote ts c c')"

context callback
begin

lemma cb_called: "wf_m m \<Longrightarrow> cb m c = Some (m', c') \<Longrightarrow> called m c m' c'"
  using cb_wf cb_env cb_reply by (simp add: called_def)

end

context watched_callback
begin

lemma cb_watched: "wf_m m \<Longrightarrow> cb m c = Some (m', c') \<Longrightarrow> called m c m' c' \<and> m_evolves m m'"
  using cb_called cb_evolves by blast

end

locale total_callback = callback +
  assumes cb_total: "wf_m m \<Longrightarrow> cb m c \<noteq> None"

locale db_command =
  fixes f :: dbcmd
  assumes cmd_wf: "wf_db db \<Longrightarrow> f r db = Some (db', r', ts) \<Longrightarrow> wf_db db' \<and> db_id db' = db_id db"
    and cmd_reply: "wf_db db \<Longrightarrow> f r db = Some (db', r', ts) \<Longrightarrow> reply ts"
begin

lemma on_db_Some:
  assumes "on_db f m c = Some (m', c')"
  obtains db r ts where "f (rand m) (the_db m (selectedDB (ctx c))) = Some (db, r, ts)"
    "c' = emit ts c"
    "\<forall>i. the_db m' i = (if i = selectedDB (ctx c) then db else the_db m i)"
    "same_env m m'"
proof -
  let ?i = "selectedDB (ctx c)"
  obtain db0 m0 where m0: "m_db ?i m = (db0, m0)" by (cases "m_db ?i m")
  then have db0: "db0 = the_db m ?i" "m0 = snd (m_db ?i m)"
    using fst_m_db [of ?i m] by simp_all
  from assms m0 obtain db r ts where f: "f (rand m0) db0 = Some (db, r, ts)"
    and m': "m' = (put_db ?i db m0)\<lparr>rand := r\<rparr>" and c': "c' = emit ts c"
    by (auto simp: on_db_def Let_def split: option.splits)
  show ?thesis
  proof (rule that)
    show "f (rand m) (the_db m ?i) = Some (db, r, ts)" using f db0 by simp
    show "c' = emit ts c" by (rule c')
    show "\<forall>i. the_db m' i = (if i = ?i then db else the_db m i)"
      using m' db0(2) by simp
    show "same_env m m'" using m' db0(2) by (simp add: same_env_def)
  qed
qed

end

sublocale db_command \<subseteq> callback "on_db f"
proof
  fix m c m' c'
  assume wf: "wf_m m" and run: "on_db f m c = Some (m', c')"
  from run obtain db r ts where f: "f (rand m) (the_db m (selectedDB (ctx c))) = Some (db, r, ts)"
    and c': "c' = emit ts c" and db: "\<forall>i. the_db m' i = (if i = selectedDB (ctx c) then db else the_db m i)"
    and env: "same_env m m'"
    by (rule on_db_Some)
  from wf have "wf_db (the_db m (selectedDB (ctx c)))" by auto
  note wf' = cmd_wf [OF this f] and rep = cmd_reply [OF this f]
  from wf wf' db show "wf_m m'" by (simp add: wf_m_def)
  from rep c' show "\<exists>ts. reply ts \<and> wrote ts c c'" by auto
  show "same_env m m'" by (rule env)
qed

locale watched_command = db_command +
  assumes cmd_evolves: "wf_db db \<Longrightarrow> f r db = Some (db', r', ts) \<Longrightarrow> \<exists>g. evolves g db db'"

sublocale watched_command \<subseteq> watched_callback "on_db f"
proof
  fix m c m' c'
  assume wf: "wf_m m" and run: "on_db f m c = Some (m', c')"
  from run obtain db r ts where f: "f (rand m) (the_db m (selectedDB (ctx c))) = Some (db, r, ts)"
    and db: "\<forall>i. the_db m' i = (if i = selectedDB (ctx c) then db else the_db m i)"
    by (rule on_db_Some)
  from wf have "wf_db (the_db m (selectedDB (ctx c)))" by auto
  from cmd_evolves [OF this f] db show "m_evolves m m'"
    using evolves_refl by (auto simp: m_evolves_def)
qed

locale total_command = watched_command +
  assumes cmd_total: "wf_db db \<Longrightarrow> f r db \<noteq> None"

sublocale total_command \<subseteq> total_callback "on_db f"
proof
  fix m c
  assume "wf_m m"
  then have "wf_db (the_db m (selectedDB (ctx c)))" by auto
  then have "f (rand m) (the_db m (selectedDB (ctx c))) \<noteq> None" by (rule cmd_total)
  then show "on_db f m c \<noteq> None"
    by (auto simp: on_db_def Let_def case_prod_unfold split: option.split)
qed

text \<open>
  How a body discharges its contract: it leaves the database alone and writes a reply, or it
  makes one change.
\<close>

definition served :: "RedisDB \<Rightarrow> (RedisDB \<times> token list) option \<Rightarrow> bool" where
  "served db res \<longleftrightarrow>
     (\<exists>db' ts g. res = Some (db', ts) \<and> reply ts \<and> wf_db db' \<and> evolves g db db')"

lemma served_read: "wf_db db \<Longrightarrow> reply ts \<Longrightarrow> served db (Some (db, ts))"
  unfolding served_def using evolves_refl by blast

lemma served_changed: "changed k v n db db' \<Longrightarrow> 0 < n \<Longrightarrow> reply ts \<Longrightarrow> served db (Some (db', ts))"
  unfolding served_def by (metis changed_evolves changed_wf)

lemma served_evolves: "wf_db db' \<Longrightarrow> evolves g db db' \<Longrightarrow> reply ts \<Longrightarrow> served db (Some (db', ts))"
  unfolding served_def by blast

lemma served_spec: "\<exists>db' n. res = Some (db', ts) \<and> 0 < n \<and> changed k v n db db' \<Longrightarrow> reply ts \<Longrightarrow> served db res"
  using served_changed by blast

lemma served_spec1: "\<exists>db'. res = Some (db', ts) \<and> changed k v (Suc n) db db' \<Longrightarrow> reply ts \<Longrightarrow> served db res"
  using served_changed by blast

lemma served_one: "\<exists>db'. res = Some (db', ts) \<and> changed k v 1 db db' \<Longrightarrow> reply ts \<Longrightarrow> served db res"
  using served_changed by fastforce

definition served_r :: "RedisDB \<Rightarrow> (RedisDB \<times> rng \<times> token list) option \<Rightarrow> bool" where
  "served_r db res \<longleftrightarrow>
     (\<exists>db' r ts g. res = Some (db', r, ts) \<and> reply ts \<and> wf_db db' \<and> evolves g db db')"

lemma served_det: "served db (f db) \<Longrightarrow> served_r db (det f r db)"
  by (auto simp: served_def served_r_def det_def)

lemma served_r_read: "wf_db db \<Longrightarrow> reply ts \<Longrightarrow> served_r db (Some (db, r, ts))"
  unfolding served_r_def using evolves_refl by blast

lemma served_r_evolves: "wf_db db' \<Longrightarrow> evolves g db db' \<Longrightarrow> reply ts \<Longrightarrow> served_r db (Some (db', r, ts))"
  unfolding served_r_def by blast

lemma watched_command_rnd:
  assumes "\<And>r db. wf_db db \<Longrightarrow> f r db = None \<or> served_r db (f r db)"
  shows "watched_command f"
proof
  fix r db db' r' ts
  assume wf: "wf_db db" and f: "f r db = Some (db', r', ts)"
  then obtain g where "reply ts" "wf_db db'" "evolves g db db'"
    using assms [OF wf, of r] unfolding served_r_def by auto
  then show "reply ts" "wf_db db' \<and> db_id db' = db_id db" "\<exists>g. evolves g db db'"
    by (auto simp: evolves_def)
qed

lemma total_command_rnd:
  assumes "\<And>r db. wf_db db \<Longrightarrow> served_r db (f r db)"
  shows "total_command f"
proof (intro total_command.intro total_command_axioms.intro watched_command_rnd)
  show "\<And>r db. wf_db db \<Longrightarrow> f r db = None \<or> served_r db (f r db)" using assms by blast
  show "\<And>db r. wf_db db \<Longrightarrow> f r db \<noteq> None" using assms unfolding served_r_def by fastforce
qed

lemma total_command_det:
  assumes "\<And>db. wf_db db \<Longrightarrow> served db (f db)"
  shows "total_command (det f)"
  by (rule total_command_rnd) (intro served_det assms)

lemma watched_command_det:
  assumes "\<And>db. wf_db db \<Longrightarrow> f db = None \<or> served db (f db)"
  shows "watched_command (det f)"
proof (rule watched_command_rnd)
  fix r db
  assume "wf_db db"
  from assms [OF this] show "det f r db = None \<or> served_r db (det f r db)"
    using served_det by (auto simp: det_def)
qed

context watched_command
begin

lemma is_watched_callback: "watched_callback (on_db f)"
  by (rule watched_callback_axioms)

end

lemma on_db_None_iff: "on_db f m c = None \<longleftrightarrow> f (rand m) (the_db m (selectedDB (ctx c))) = None"
  by (auto simp: on_db_def Let_def case_prod_unfold split: option.split)

lemma det_None_iff [simp]: "det f r db = None \<longleftrightarrow> f db = None"
  by (simp add: det_def)

end
