(* ===== verification/Lists.thy ===== *)
theory Lists
  imports Command
begin

text \<open>
  The bodies of the list commands (\<open>cmd_list.go\<close>) and \<open>redisRange\<close> (\<open>redis.go\<close>): what each
  callback does to the database of its connection and what it writes. The argument checks
  before the callback are in theory Handlers. Each body is shown to keep the contract
  \<open>total_command\<close>, and to compute the intended function of the list.
\<close>

subsection \<open>Bodies\<close>

text \<open>
  Go offsets for a range with inclusive, possibly negative ends; the increment of the end is
  the one operation here that can overflow.
\<close>

definition redisRange :: "int \<Rightarrow> int \<Rightarrow> int \<Rightarrow> bool \<Rightarrow> int \<times> int" where
  "redisRange l start stop stringSymantics =
     (let start = (if start < 0 then (let start = l + start in if start < 0 then 0 else start) else start);
          start = (if start > l then l else start);
          stop = (if stop < 0
                  then (let stop = l + stop in
                          if stop < 0 then (if stringSymantics then 0 else -1) else stop)
                  else stop);
          stop = i64 (stop + 1);
          stop = (if stop > l then l else stop)
      in if stop < start then (0, 0) else (start, stop))"

definition slice :: "int \<Rightarrow> int \<Rightarrow> 'a list \<Rightarrow> 'a list" where
  "slice i j xs = take (nat j - nat i) (drop (nat i) xs)"

definition lindex_body :: "string \<Rightarrow> int \<Rightarrow> RedisDB \<Rightarrow> (RedisDB \<times> token list) option" where
  "lindex_body key offset db =
     (case fmlookup (keys db) key of
        None \<Rightarrow> Some (db, [TNull])
      | Some ty \<Rightarrow>
          if ty \<noteq> ''list'' then Some (db, [TError msgWrongType])
          else
            let l = list_at key db;
                offset = (if offset < 0 then int (length l) + offset else offset)
            in if offset < 0 \<or> offset > int (length l) - 1 then Some (db, [TNull])
               else Some (db, [TBulk (l ! nat offset)]))"

definition insert_at :: "int \<Rightarrow> nat \<Rightarrow> string \<Rightarrow> listKey \<Rightarrow> listKey" where
  "insert_at whr i value l =
     (if whr < 0 then take i l @ (value # drop i l)
      else if i = length l - 1 then l @ [value]
      else take (i + 1) l @ (value # drop (i + 1) l))"

definition linsert_body :: "string \<Rightarrow> int \<Rightarrow> string \<Rightarrow> string \<Rightarrow> RedisDB \<Rightarrow> (RedisDB \<times> token list) option" where
  "linsert_body key whr pivot value db =
     (case fmlookup (keys db) key of
        None \<Rightarrow> Some (db, [TInt 0])
      | Some ty \<Rightarrow>
          if ty \<noteq> ''list'' then Some (db, [TError msgWrongType])
          else
            let l = list_at key db
            in (case find (\<lambda>i. l ! i = pivot) [0..<length l] of
                  None \<Rightarrow> Some (db, [TInt (-1)])
                | Some i \<Rightarrow>
                    let l = insert_at whr i value l
                    in Some (bump key (put_list key l db), [TInt (int (length l))])))"

definition llen_body :: "string \<Rightarrow> RedisDB \<Rightarrow> (RedisDB \<times> token list) option" where
  "llen_body key db =
     (case fmlookup (keys db) key of
        None \<Rightarrow> Some (db, [TInt 0])
      | Some ty \<Rightarrow>
          if ty \<noteq> ''list'' then Some (db, [TError msgWrongType])
          else Some (db, [TInt (int (length (list_at key db)))]))"

definition pop :: "leftright \<Rightarrow> string \<Rightarrow> RedisDB \<Rightarrow> (string \<times> RedisDB) option" where
  "pop lr key db = (case lr of Left \<Rightarrow> listLpop key db | Right \<Rightarrow> listPop key db)"

definition xpop_body :: "string \<Rightarrow> leftright \<Rightarrow> RedisDB \<Rightarrow> (RedisDB \<times> token list) option" where
  "xpop_body key lr db =
     (if \<not> db_exists key db then Some (db, [TNull])
      else if db_t key db \<noteq> ''list'' then Some (db, [TError msgWrongType])
      else do { (elem, db) \<leftarrow> pop lr key db; Some (db, [TBulk elem]) })"

fun push_loop :: "leftright \<Rightarrow> string \<Rightarrow> string list \<Rightarrow> int \<Rightarrow> RedisDB \<Rightarrow> int \<times> RedisDB" where
  "push_loop lr key [] newLen db = (newLen, db)"
| "push_loop lr key (value # vs) newLen db =
     (let (newLen, db) = (case lr of Left \<Rightarrow> listLpush key value db | Right \<Rightarrow> listPush key [value] db)
      in push_loop lr key vs newLen db)"

definition xpush_body :: "string \<Rightarrow> string list \<Rightarrow> leftright \<Rightarrow> RedisDB \<Rightarrow> (RedisDB \<times> token list) option" where
  "xpush_body key vs lr db =
     (if db_exists key db \<and> db_t key db \<noteq> ''list'' then Some (db, [TError msgWrongType])
      else let (newLen, db) = push_loop lr key vs 0 db in Some (db, [TInt newLen]))"

definition xpushx_body :: "string \<Rightarrow> string list \<Rightarrow> leftright \<Rightarrow> RedisDB \<Rightarrow> (RedisDB \<times> token list) option" where
  "xpushx_body key vs lr db =
     (if \<not> db_exists key db then Some (db, [TInt 0])
      else if db_t key db \<noteq> ''list'' then Some (db, [TError msgWrongType])
      else let (newLen, db) = push_loop lr key vs 0 db in Some (db, [TInt newLen]))"

definition lrange_body :: "string \<Rightarrow> int \<Rightarrow> int \<Rightarrow> RedisDB \<Rightarrow> (RedisDB \<times> token list) option" where
  "lrange_body key start stop db =
     (if fmlookup (keys db) key \<noteq> None \<and> fmlookup (keys db) key \<noteq> Some ''list''
      then Some (db, [TError msgWrongType])
      else
        let l = list_at key db
        in if length l = 0 then Some (db, [TLen 0])
           else let (rs, re) = redisRange (int (length l)) start stop False
                in Some (db, TLen (re - rs) # map TBulk (slice rs re l)))"

fun lrem_loop :: "string \<Rightarrow> listKey \<Rightarrow> int \<Rightarrow> int \<Rightarrow> listKey \<Rightarrow> int \<times> listKey" where
  "lrem_loop value [] toDelete deleted newL = (deleted, newL)"
| "lrem_loop value (el # l) toDelete deleted newL =
     (if el = value \<and> toDelete > 0 then lrem_loop value l (toDelete - 1) (deleted + 1) newL
      else lrem_loop value l toDelete deleted (newL @ [el]))"

definition lrem_body :: "string \<Rightarrow> int \<Rightarrow> string \<Rightarrow> RedisDB \<Rightarrow> (RedisDB \<times> token list) option" where
  "lrem_body key cnt value db =
     (if \<not> db_exists key db then Some (db, [TInt 0])
      else if db_t key db \<noteq> ''list'' then Some (db, [TError msgWrongType])
      else
        let l = list_at key db;
            l = (if cnt < 0 then reverseSlice l else l);
            toDelete = int (length l);
            toDelete = (if cnt < 0 then i64 (- cnt) else toDelete);
            toDelete = (if cnt > 0 then cnt else toDelete);
            (deleted, newL) = lrem_loop value l toDelete 0 [];
            newL = (if cnt < 0 then reverseSlice newL else newL)
        in do {
          db \<leftarrow> (if length newL = 0 then db_del key db else Some (bump key (put_list key newL db)));
          Some (db, [TInt deleted])
        })"

definition lset_body :: "string \<Rightarrow> int \<Rightarrow> string \<Rightarrow> RedisDB \<Rightarrow> (RedisDB \<times> token list) option" where
  "lset_body key index value db =
     (if \<not> db_exists key db then Some (db, [TError msgKeyNotFound])
      else if db_t key db \<noteq> ''list'' then Some (db, [TError msgWrongType])
      else
        let l = list_at key db;
            index = (if index < 0 then int (length l) + index else index)
        in if index < 0 \<or> index > int (length l) - 1 then Some (db, [TError msgOutOfRange])
           else Some (bump key (put_list key (l[nat index := value]) db), [TInline ''OK'']))"

definition ltrim_body :: "string \<Rightarrow> int \<Rightarrow> int \<Rightarrow> RedisDB \<Rightarrow> (RedisDB \<times> token list) option" where
  "ltrim_body key start stop db =
     (case fmlookup (keys db) key of
        None \<Rightarrow> Some (db, [TInline ''OK''])
      | Some ty \<Rightarrow>
          if ty \<noteq> ''list'' then Some (db, [TError msgWrongType])
          else
            let l = list_at key db;
                (rs, re) = redisRange (int (length l)) start stop False;
                l = slice rs re l
            in do {
              db \<leftarrow> (if length l = 0 then db_del key db else Some (bump key (put_list key l db)));
              Some (db, [TInline ''OK''])
            })"

definition rpoplpush_body :: "string \<Rightarrow> string \<Rightarrow> RedisDB \<Rightarrow> (RedisDB \<times> token list) option" where
  "rpoplpush_body src dst db =
     (if \<not> db_exists src db then Some (db, [TNull])
      else if db_t src db \<noteq> ''list'' \<or> (db_exists dst db \<and> db_t dst db \<noteq> ''list'')
      then Some (db, [TError msgWrongType])
      else do {
        (elem, db) \<leftarrow> listPop src db;
        let (n, db) = listLpush dst elem db;
        Some (db, [TBulk elem])
      })"

text \<open>
  The retried bodies of the blocking commands: whether the command is done, and as above.
\<close>

fun bxpop_body :: "string list \<Rightarrow> leftright \<Rightarrow> RedisDB \<Rightarrow> (bool \<times> RedisDB \<times> token list) option" where
  "bxpop_body [] lr db = Some (False, db, [])"
| "bxpop_body (key # ks) lr db =
     (if \<not> db_exists key db then bxpop_body ks lr db
      else if db_t key db \<noteq> ''list'' then Some (True, db, [TError msgWrongType])
      else if length (list_at key db) = 0 then bxpop_body ks lr db
      else do { (v, db) \<leftarrow> pop lr key db; Some (True, db, [TLen 2, TBulk key, TBulk v]) })"

definition brpoplpush_body :: "string \<Rightarrow> string \<Rightarrow> RedisDB \<Rightarrow> (bool \<times> RedisDB \<times> token list) option" where
  "brpoplpush_body src dst db =
     (if \<not> db_exists src db then Some (False, db, [])
      else if db_t src db \<noteq> ''list'' \<or> (db_exists dst db \<and> db_t dst db \<noteq> ''list'')
      then Some (True, db, [TError msgWrongType])
      else if length (list_at src db) = 0 then Some (False, db, [])
      else do {
        (elem, db) \<leftarrow> listPop src db;
        let (n, db) = listLpush dst elem db;
        Some (True, db, [TBulk elem])
      })"

lemmas list_body_defs [cmd_defs] = lindex_body_def linsert_body_def llen_body_def xpop_body_def
  xpush_body_def xpushx_body_def lrange_body_def lrem_body_def lset_body_def ltrim_body_def
  rpoplpush_body_def

subsection \<open>Ranges\<close>

text \<open>
  The range the protocol documents: a negative end counts from the end of the list, and
  everything between the two ends, inclusive, is in the range.
\<close>

definition norm_index :: "nat \<Rightarrow> int \<Rightarrow> int" where
  "norm_index n i = (if i < 0 then int n + i else i)"

definition range_ref :: "int \<Rightarrow> int \<Rightarrow> 'a list \<Rightarrow> 'a list" where
  "range_ref start stop xs =
     map (nth xs) (filter (\<lambda>i. norm_index (length xs) start \<le> int i \<and> int i \<le> norm_index (length xs) stop)
       [0..<length xs])"

lemma filter_upt_range: "filter (\<lambda>i. a \<le> i \<and> i < b) [0..<n] = [a..<min b n]"
  by (induction n) (auto simp: min_def not_less le_Suc_eq)

lemma map_nth_upt: "b \<le> length xs \<Longrightarrow> map (nth xs) [a..<b] = take (b - a) (drop a xs)"
  by (rule nth_equalityI) auto

lemma redisRange_bounds:
  assumes "0 \<le> l"
  shows "0 \<le> fst (redisRange l start stop b) \<and>
    fst (redisRange l start stop b) \<le> snd (redisRange l start stop b) \<and>
    snd (redisRange l start stop b) \<le> l"
  using assms by (auto simp: redisRange_def Let_def)

text \<open>Short of the one end that overflows, \<open>redisRange\<close> selects exactly the documented range.\<close>

lemma redisRange_slice:
  assumes "int (length xs) \<le> max_int" "in_int stop" "stop \<noteq> max_int"
  shows "(case redisRange (int (length xs)) start stop False of (rs, re) \<Rightarrow> slice rs re xs)
    = range_ref start stop xs"
proof -
  let ?n = "int (length xs)"
  let ?a = "norm_index (length xs) start" and ?b = "norm_index (length xs) stop"
  obtain rs re where r: "redisRange ?n start stop False = (rs, re)" by force
  have wrap: "i64 (x + 1) = x + 1" if "- 1 \<le> x" "x < max_int" for x
    using that by (simp add: int_bounds)
  have bounds: "0 \<le> rs" "rs \<le> re" "re \<le> ?n"
    using redisRange_bounds [of ?n start stop False] r by simp_all
  have upt: "[nat rs..<nat re] = [nat ?a..<min (nat (?b + 1)) (length xs)]"
  proof (cases "0 \<le> stop \<or> 0 \<le> ?n + stop")
    case True
    then have "- 1 \<le> ?b" "?b < max_int" using assms by (auto simp: norm_index_def int_bounds)
    from wrap [OF this] True show ?thesis
      using r by (auto simp: redisRange_def norm_index_def Let_def split: if_splits)
  next
    case False
    then have "rs = re" using r by (auto simp: redisRange_def Let_def i64_def split: if_splits)
    moreover have "nat (?b + 1) = 0" using False by (simp add: norm_index_def)
    ultimately show ?thesis by simp
  qed
  have "slice rs re xs = map (nth xs) [nat rs..<nat re]"
    using bounds by (simp add: slice_def map_nth_upt)
  also have "\<dots> = range_ref start stop xs"
    unfolding upt range_ref_def filter_upt_range [symmetric]
    by (intro arg_cong [where f = "map (nth xs)"] filter_cong refl) auto
  finally show ?thesis using r by simp
qed

lemma redisRange_max_int:
  "0 \<le> l \<Longrightarrow> redisRange l start max_int b = (0, 0)"
proof -
  assume l: "0 \<le> l"
  have "i64 (max_int + 1) = min_int" by (rule i64_max_int)
  with l show ?thesis by (simp add: redisRange_def Let_def int_bounds)
qed

lemma slice_length: "0 \<le> i \<Longrightarrow> i \<le> j \<Longrightarrow> j \<le> int (length xs) \<Longrightarrow> int (length (slice i j xs)) = j - i"
  by (simp add: slice_def)

subsection \<open>Removal\<close>

text \<open>The first \<open>n\<close> occurrences of an element removed.\<close>

fun remove_first :: "nat \<Rightarrow> 'a \<Rightarrow> 'a list \<Rightarrow> 'a list" where
  "remove_first n v [] = []"
| "remove_first 0 v xs = xs"
| "remove_first (Suc n) v (x # xs) =
     (if x = v then remove_first n v xs else x # remove_first (Suc n) v xs)"

lemma remove_first_0 [simp]: "remove_first 0 v xs = xs"
  by (cases xs) auto

lemma remove_first_all: "length xs \<le> n \<Longrightarrow> remove_first n v xs = filter (\<lambda>x. x \<noteq> v) xs"
proof (induction n v xs rule: remove_first.induct)
  case (3 n v x xs)
  then show ?case by (cases "length xs \<le> n") auto
qed auto

lemma length_remove_first:
  "length xs = length (remove_first n v xs) + min n (count_list xs v)"
  by (induction n v xs rule: remove_first.induct) auto

lemma lrem_loop_eq:
  "lrem_loop v l t d acc =
     (d + int (min (nat t) (count_list l v)), acc @ remove_first (nat t) v l)"
proof (induction v l t d acc rule: lrem_loop.induct)
  case (1 v t d acc)
  then show ?case by simp
next
  case (2 v el l t d acc)
  show ?case
  proof (cases "0 < t")
    case True
    then obtain n where n: "nat t = Suc n" "nat (t - 1) = n" by (cases "nat t") auto
    then show ?thesis using 2 True by (cases "el = v") auto
  next
    case False
    then show ?thesis using 2 by auto
  qed
qed

lemma swap_length [simp]: "length (swap i j xs) = length xs"
  by (simp add: swap_def)

lemma reverse_loop_nth:
  "i \<le> length xs div 2 \<Longrightarrow>
     length (reverse_loop i xs) = length xs \<and>
     (\<forall>j < length xs. reverse_loop i xs ! j =
        (if j < i \<or> length xs - 1 - j < i then xs ! (length xs - 1 - j) else xs ! j))"
proof (induction i)
  case 0
  then show ?case by simp
next
  case (Suc i)
  then have len: "length (reverse_loop i xs) = length xs"
    and nth: "\<forall>j < length xs. reverse_loop i xs ! j =
        (if j < i \<or> length xs - 1 - j < i then xs ! (length xs - 1 - j) else xs ! j)"
    by auto
  have i: "i < length xs" "length xs - 1 - i < length xs" "i < length xs - 1 - i"
    using Suc.prems by auto
  have "reverse_loop (Suc i) xs ! j =
      (if j < Suc i \<or> length xs - 1 - j < Suc i then xs ! (length xs - 1 - j) else xs ! j)"
    if j: "j < length xs" for j
  proof -
    consider "j = i" | "j = length xs - 1 - i" | "j \<noteq> i" "j \<noteq> length xs - 1 - i" by blast
    then show ?thesis
    proof cases
      case 1
      with i nth len show ?thesis by (simp add: Let_def swap_def nth_list_update)
    next
      case 2
      with i nth len show ?thesis by (simp add: Let_def swap_def nth_list_update)
    next
      case 3
      with j nth len show ?thesis by (auto simp: Let_def swap_def nth_list_update)
    qed
  qed
  with len show ?case by (simp add: Let_def)
qed

lemma reverseSlice_rev [simp]: "reverseSlice xs = rev xs"
proof (rule nth_equalityI)
  show "length (reverseSlice xs) = length (rev xs)"
    using reverse_loop_nth [of "length xs div 2" xs] by (simp add: reverseSlice_def)
  fix j
  assume "j < length (reverseSlice xs)"
  then have j: "j < length xs"
    using reverse_loop_nth [of "length xs div 2" xs] by (simp add: reverseSlice_def)
  show "reverseSlice xs ! j = rev xs ! j"
  proof (cases "j < length xs div 2 \<or> length xs - 1 - j < length xs div 2")
    case True
    with j reverse_loop_nth [of "length xs div 2" xs] show ?thesis
      by (simp add: reverseSlice_def rev_nth)
  next
    case False
    then have "length xs - 1 - j = j" using j by linarith
    with False j reverse_loop_nth [of "length xs div 2" xs] show ?thesis
      by (simp add: reverseSlice_def rev_nth)
  qed
qed

subsection \<open>Pushing and popping\<close>

definition pushed :: "leftright \<Rightarrow> string list \<Rightarrow> listKey \<Rightarrow> listKey" where
  "pushed lr vs l = (case lr of Left \<Rightarrow> rev vs @ l | Right \<Rightarrow> l @ vs)"

lemma pushed_simps [simp]:
  "length (pushed lr vs l) = length vs + length l"
  "pushed lr [] l = l"
  "pushed lr vs l = [] \<longleftrightarrow> vs = [] \<and> l = []"
  by (auto simp: pushed_def split: leftright.splits)

lemma pushed_Cons: "pushed lr (v # vs) l = pushed lr vs (pushed lr [v] l)"
  by (simp add: pushed_def split: leftright.splits)

lemma push_one_spec:
  assumes "wf_db db" "list_or_absent db key"
  shows "case (case lr of Left \<Rightarrow> listLpush key v db | Right \<Rightarrow> listPush key [v] db) of
    (n, db') \<Rightarrow> n = int (Suc (length (list_at key db))) \<and>
      changed key (Some (VList (pushed lr [v] (list_at key db)))) 1 db db'"
  using listLpush_spec [OF assms, of v] listPush_spec [OF assms, of "[v]"]
  by (auto simp: pushed_def split: leftright.splits prod.splits)

lemma changed_list_at:
  assumes "changed k (Some (VList l)) n db db'"
  shows "list_at k db' = l"
  using assms changed_wf [OF assms] by (intro list_at_simps(2)) (simp_all add: changed_def)

lemma push_loop_spec:
  assumes "wf_db db" "list_or_absent db key" "vs \<noteq> []"
  shows "case push_loop lr key vs n db of
    (n', db') \<Rightarrow> n' = int (length vs + length (list_at key db)) \<and>
      changed key (Some (VList (pushed lr vs (list_at key db)))) (length vs) db db'"
  using assms
proof (induction vs arbitrary: db n)
  case Nil
  then show ?case by simp
next
  case (Cons v vs)
  obtain n1 db1 where p: "(case lr of Left \<Rightarrow> listLpush key v db | Right \<Rightarrow> listPush key [v] db) = (n1, db1)"
    by force
  let ?l = "pushed lr [v] (list_at key db)"
  have n1: "n1 = int (Suc (length (list_at key db)))"
    and c1: "changed key (Some (VList ?l)) 1 db db1"
    using push_one_spec [OF Cons.prems(1,2), of lr v] p by auto
  have step: "push_loop lr key (v # vs) n db = push_loop lr key vs n1 db1"
    using p by simp
  show ?case
  proof (cases "vs = []")
    case True
    with step n1 c1 show ?thesis by simp
  next
    case False
    have wf1: "wf_db db1" by (rule changed_wf [OF c1])
    have "list_or_absent db1 key" using c1 by (auto simp: changed_def list_or_absent_def)
    from Cons.IH [OF wf1 this False, of n1] obtain n2 db2
      where r: "push_loop lr key vs n1 db1 = (n2, db2)"
        and n2: "n2 = int (length vs + length ?l)"
        and c2: "changed key (Some (VList (pushed lr vs ?l))) (length vs) db1 db2"
      using changed_list_at [OF c1] by (auto split: prod.splits)
    from changed_trans [OF c1 c2] step r n2 show ?thesis
      by (simp add: pushed_Cons [of lr v vs])
  qed
qed

text \<open>The element a pop takes and the list it leaves.\<close>

definition popped :: "leftright \<Rightarrow> listKey \<Rightarrow> string \<times> listKey" where
  "popped lr l = (case lr of Left \<Rightarrow> (hd l, tl l) | Right \<Rightarrow> (last l, butlast l))"

definition list_val :: "listKey \<Rightarrow> val option" where
  "list_val l = (if l = [] then None else Some (VList l))"

lemma pop_spec:
  assumes "wf_db db" "value_of db key = Some (VList l)"
  obtains db' n where "pop lr key db = Some (fst (popped lr l), db')" "0 < n"
    "changed key (list_val (snd (popped lr l))) n db db'"
proof (cases lr)
  case Left
  from value_of_VList [OF assms] obtain x xs where l: "l = x # xs" by (cases l) auto
  from listLpop_spec [OF assms(1) assms(2) [unfolded l]] obtain db' n
    where "listLpop key db = Some (x, db')" "0 < n" "changed key (if xs = [] then None else Some (VList xs)) n db db'" .
  then show ?thesis by (intro that [of db' n]) (auto simp: pop_def popped_def Left l list_val_def)
next
  case Right
  from listPop_spec [OF assms] obtain db'
    where "listPop key db = Some (last l, db')"
      "changed key (if butlast l = [] then None else Some (VList (butlast l))) 1 db db'" .
  then show ?thesis by (intro that [of db' 1]) (auto simp: pop_def popped_def Right list_val_def)
qed

text \<open>RPOPLPUSH on a list and a list-or-nothing.\<close>

definition rotated :: "string \<Rightarrow> string \<Rightarrow> RedisDB \<Rightarrow> listKey \<Rightarrow> string \<Rightarrow> val option" where
  "rotated src dst db l =
     (if src = dst then (value_of db)(src := Some (VList (last l # butlast l)))
      else (value_of db)(src := list_val (butlast l), dst := Some (VList (last l # list_at dst db))))"

lemma rpoplpush_spec:
  assumes "wf_db db" "value_of db src = Some (VList l)" "list_or_absent db dst"
  obtains db1 n db2 g where "listPop src db = Some (last l, db1)" "listLpush dst (last l) db1 = (n, db2)"
    "wf_db db2" "evolves g db db2" "value_of db2 = rotated src dst db l"
proof -
  obtain db1 where p: "listPop src db = Some (last l, db1)"
    and c1: "changed src (list_val (butlast l)) 1 db db1"
    using listPop_spec [OF assms(1,2)] by (auto simp: list_val_def)
  note wf1 = changed_wf [OF c1]
  have d1: "list_or_absent db1 dst"
    using assms(3) c1 by (auto simp: list_or_absent_def changed_def list_val_def)
  obtain n db2 where q: "listLpush dst (last l) db1 = (n, db2)" by force
  with listLpush_spec [OF wf1 d1, of "last l"]
  have c2: "changed dst (Some (VList (last l # list_at dst db1))) 1 db1 db2" by simp
  have at1: "list_at dst db1 = (if src = dst then butlast l else list_at dst db)"
  proof (cases "src = dst")
    case True
    show ?thesis
      using True c1 list_at_simps(1,2) [OF wf1] by (auto simp: changed_def list_val_def split: if_splits)
  next
    case False
    then have v: "value_of db1 dst = value_of db dst" using c1 by (simp add: changed_def)
    with assms(3) show ?thesis
      using False list_at_simps [OF wf1, of dst] list_at_simps [OF assms(1), of dst]
      by (auto simp: list_or_absent_def)
  qed
  have ev: "evolves (\<lambda>k. ((\<lambda>_. 0)(src := 1)) k + ((\<lambda>_. 0)(dst := 1)) k) db db2"
    by (rule evolves_trans [OF changed_evolves [OF c1] changed_evolves [OF c2]]) simp_all
  have "value_of db2 = rotated src dst db l"
    using c1 c2 at1 by (auto simp: changed_def rotated_def)
  with p q changed_wf [OF c2] ev show ?thesis by (rule that)
qed

subsection \<open>What each body computes\<close>

lemma lindex_spec:
  assumes "wf_db db"
  shows "lindex_body key i db = Some (db,
    [case value_of db key of
       None \<Rightarrow> TNull
     | Some (VSet _) \<Rightarrow> TError msgWrongType
     | Some (VList l) \<Rightarrow>
         let j = norm_index (length l) i in if 0 \<le> j \<and> j < int (length l) then TBulk (l ! nat j) else TNull])"
  by (cases rule: key_cases [of db key])
    (use key_facts [OF assms, of key] in \<open>auto simp: lindex_body_def Let_def norm_index_def\<close>)

lemma llen_spec:
  assumes "wf_db db"
  shows "llen_body key db = Some (db,
    [case value_of db key of
       None \<Rightarrow> TInt 0
     | Some (VSet _) \<Rightarrow> TError msgWrongType
     | Some (VList l) \<Rightarrow> TInt (int (length l))])"
  by (cases rule: key_cases [of db key])
    (use key_facts [OF assms, of key] in \<open>auto simp: llen_body_def\<close>)

lemma lrange_spec:
  assumes "wf_db db" "in_int stop" "stop \<noteq> max_int"
    and "\<And>l. value_of db key = Some (VList l) \<Longrightarrow> int (length l) \<le> max_int"
  shows "lrange_body key start stop db = Some (db,
    (case value_of db key of
       None \<Rightarrow> [TLen 0]
     | Some (VSet _) \<Rightarrow> [TError msgWrongType]
     | Some (VList l) \<Rightarrow>
         TLen (int (length (range_ref start stop l))) # map TBulk (range_ref start stop l)))"
proof (cases rule: key_cases [of db key])
  case absent
  then show ?thesis using key_facts(1) [OF assms(1)] by (simp add: lrange_body_def)
next
  case (set s)
  then show ?thesis using key_facts(3) [OF assms(1) set] by (simp add: lrange_body_def)
next
  case (list l)
  obtain rs re where r: "redisRange (int (length l)) start stop False = (rs, re)" by force
  then have b: "0 \<le> rs" "rs \<le> re" "re \<le> int (length l)"
    using redisRange_bounds [of "int (length l)" start stop False] by simp_all
  have "slice rs re l = range_ref start stop l"
    using redisRange_slice [OF assms(4) [OF list] assms(2,3), of start] r by simp
  with r b list show ?thesis
    using key_facts(2) [OF assms(1) list] slice_length [of rs re l] by (simp add: lrange_body_def)
qed

lemma xpop_spec:
  assumes "wf_db db"
  shows "value_of db key = None \<Longrightarrow> xpop_body key lr db = Some (db, [TNull])"
    and "value_of db key = Some (VSet s) \<Longrightarrow> xpop_body key lr db = Some (db, [TError msgWrongType])"
    and "value_of db key = Some (VList l) \<Longrightarrow>
      \<exists>db' n. xpop_body key lr db = Some (db', [TBulk (fst (popped lr l))]) \<and> 0 < n \<and>
        changed key (list_val (snd (popped lr l))) n db db'"
proof -
  show "value_of db key = None \<Longrightarrow> xpop_body key lr db = Some (db, [TNull])"
    using key_facts(1) [OF assms] by (simp add: xpop_body_def)
  show "value_of db key = Some (VSet s) \<Longrightarrow> xpop_body key lr db = Some (db, [TError msgWrongType])"
    using key_facts(3) [OF assms] by (simp add: xpop_body_def)
  assume l: "value_of db key = Some (VList l)"
  from pop_spec [OF assms l] obtain db' n where "pop lr key db = Some (fst (popped lr l), db')" "0 < n"
    "changed key (list_val (snd (popped lr l))) n db db'" .
  then show "\<exists>db' n. xpop_body key lr db = Some (db', [TBulk (fst (popped lr l))]) \<and> 0 < n \<and>
      changed key (list_val (snd (popped lr l))) n db db'"
    using key_facts(2) [OF assms l] by (auto simp: xpop_body_def)
qed

lemma push_loop_ne:
  assumes "wf_db db" "list_or_absent db key" "vs \<noteq> []"
  obtains db' where "push_loop lr key vs n db = (int (length vs + length (list_at key db)), db')"
    "changed key (Some (VList (pushed lr vs (list_at key db)))) (length vs) db db'"
  using push_loop_spec [OF assms, of lr n] by (auto split: prod.splits)

lemma xpush_spec:
  assumes "wf_db db" "vs \<noteq> []"
  shows "value_of db key = Some (VSet s) \<Longrightarrow> xpush_body key vs lr db = Some (db, [TError msgWrongType])"
    and "list_or_absent db key \<Longrightarrow>
      \<exists>db'. xpush_body key vs lr db = Some (db', [TInt (int (length vs + length (list_at key db)))]) \<and>
        changed key (Some (VList (pushed lr vs (list_at key db)))) (length vs) db db'"
proof -
  show "value_of db key = Some (VSet s) \<Longrightarrow> xpush_body key vs lr db = Some (db, [TError msgWrongType])"
    using key_facts(3) [OF assms(1)] by (simp add: xpush_body_def)
  assume l: "list_or_absent db key"
  then have "\<not> (db_exists key db \<and> db_t key db \<noteq> ''list'')"
    using key_facts(1,2) [OF assms(1)] by (auto simp: list_or_absent_def)
  moreover obtain db' where "push_loop lr key vs 0 db = (int (length vs + length (list_at key db)), db')"
    "changed key (Some (VList (pushed lr vs (list_at key db)))) (length vs) db db'"
    using push_loop_ne [OF assms(1) l assms(2)] .
  ultimately show "\<exists>db'. xpush_body key vs lr db = Some (db', [TInt (int (length vs + length (list_at key db)))]) \<and>
        changed key (Some (VList (pushed lr vs (list_at key db)))) (length vs) db db'"
    by (auto simp: xpush_body_def)
qed

lemma xpushx_spec:
  assumes "wf_db db"
  shows "xpushx_body key vs lr db =
    (if value_of db key = None then Some (db, [TInt 0]) else xpush_body key vs lr db)"
  using key_facts(1) [OF assms]
  by (cases rule: key_cases [of db key]) (auto simp: xpushx_body_def xpush_body_def db_exists_iff)

text \<open>The reply to LREM and the list it leaves.\<close>

definition lrem_ref :: "int \<Rightarrow> string \<Rightarrow> listKey \<Rightarrow> listKey" where
  "lrem_ref cnt value l =
     (if cnt = 0 then filter (\<lambda>x. x \<noteq> value) l
      else if cnt > 0 then remove_first (nat cnt) value l
      else rev (remove_first (nat (- cnt)) value (rev l)))"

lemma count_list_rev [simp]: "count_list (rev xs) x = count_list xs x"
  by (induction xs) auto

lemma lrem_spec:
  assumes "wf_db db" "in_int cnt" "cnt \<noteq> min_int" "value_of db key = Some (VList l)"
  shows "\<exists>db' n. lrem_body key cnt value db =
      Some (db', [TInt (int (length l) - int (length (lrem_ref cnt value l)))]) \<and> 0 < n \<and>
      changed key (list_val (lrem_ref cnt value l)) n db db'"
proof -
  note e = key_facts(2) [OF assms(1,4)]
  let ?n = "nat (if cnt = 0 then int (length l) else if cnt > 0 then cnt else - cnt)"
  let ?l = "if cnt < 0 then rev l else l"
  let ?new = "lrem_ref cnt value l"
  have neg: "cnt < 0 \<Longrightarrow> i64 (- cnt) = - cnt" using assms(2,3) by (simp add: int_bounds)
  have ref: "?new = (if cnt < 0 then rev (remove_first ?n value ?l) else remove_first ?n value ?l)"
    by (auto simp: lrem_ref_def remove_first_all)
  have gone: "int (min ?n (count_list l value)) = int (length l) - int (length ?new)"
    using length_remove_first [of ?l ?n "value"] by (auto simp: ref)
  have body: "lrem_body key cnt value db =
      Option.bind (if length ?new = 0 then db_del key db else Some (bump key (put_list key ?new db)))
        (\<lambda>db. Some (db, [TInt (int (min ?n (count_list l value)))]))"
    using e neg by (auto simp: lrem_body_def lrem_loop_eq Let_def ref)
  show ?thesis
  proof (cases "?new = []")
    case True
    obtain db' where "db_del key db = Some db'" "changed key None 1 db db'"
      using assms(1,4) by (auto intro: db_del_present)
    then show ?thesis unfolding body gone using True
      by (intro exI [of _ db'] exI [of _ "1 :: nat"]) (simp add: list_val_def)
  next
    case False
    from put_list_changed' [OF assms(1,4) False] False show ?thesis unfolding body gone
      by (intro exI [of _ "bump key (put_list key ?new db)"] exI [of _ "1 :: nat"]) (simp add: list_val_def)
  qed
qed

lemma insert_at_ne [simp]: "insert_at w i v l \<noteq> []"
  by (simp add: insert_at_def)

lemma insert_at_eq:
  "i < length l \<Longrightarrow> insert_at w i v l =
     (if w < 0 then take i l @ v # drop i l else take (Suc i) l @ v # drop (Suc i) l)"
  by (auto simp: insert_at_def)

lemma linsert_spec:
  assumes "wf_db db"
  shows "value_of db key = None \<Longrightarrow> linsert_body key w pivot v db = Some (db, [TInt 0])"
    and "value_of db key = Some (VSet s) \<Longrightarrow> linsert_body key w pivot v db = Some (db, [TError msgWrongType])"
    and "value_of db key = Some (VList l) \<Longrightarrow> pivot \<notin> set l \<Longrightarrow>
      linsert_body key w pivot v db = Some (db, [TInt (-1)])"
    and "value_of db key = Some (VList (xs @ pivot # ys)) \<Longrightarrow> pivot \<notin> set xs \<Longrightarrow>
      \<exists>db'. linsert_body key w pivot v db = Some (db', [TInt (int (length xs + length ys + 2))]) \<and>
        changed key (Some (VList (if w < 0 then xs @ v # pivot # ys else xs @ pivot # v # ys))) 1 db db'"
proof -
  show "value_of db key = None \<Longrightarrow> linsert_body key w pivot v db = Some (db, [TInt 0])"
    using key_facts(1) [OF assms] by (simp add: linsert_body_def)
  show "value_of db key = Some (VSet s) \<Longrightarrow> linsert_body key w pivot v db = Some (db, [TError msgWrongType])"
    using key_facts(3) [OF assms] by (simp add: linsert_body_def)
  show "linsert_body key w pivot v db = Some (db, [TInt (-1)])"
    if l: "value_of db key = Some (VList l)" "pivot \<notin> set l"
  proof -
    have "find (\<lambda>i. l ! i = pivot) [0..<length l] = None"
      using l(2) by (auto simp: find_None_iff in_set_conv_nth)
    with key_facts(2) [OF assms l(1)] show ?thesis by (simp add: linsert_body_def)
  qed
  assume l: "value_of db key = Some (VList (xs @ pivot # ys))" and p: "pivot \<notin> set xs"
  let ?l = "xs @ pivot # ys"
  have "\<forall>i < length xs. ?l ! i \<noteq> pivot" using p by (auto simp: nth_append)
  then have f: "find (\<lambda>i. ?l ! i = pivot) [0..<length ?l] = Some (length xs)"
    by (auto simp: find_Some_iff intro!: exI [of _ "length xs"] simp: nth_append)
  have ins: "insert_at w (length xs) v ?l = (if w < 0 then xs @ v # pivot # ys else xs @ pivot # v # ys)"
    by (simp add: insert_at_eq)
  from put_list_changed' [OF assms l insert_at_ne, of w "length xs" v ?l]
  show "\<exists>db'. linsert_body key w pivot v db = Some (db', [TInt (int (length xs + length ys + 2))]) \<and>
        changed key (Some (VList (if w < 0 then xs @ v # pivot # ys else xs @ pivot # v # ys))) 1 db db'"
    using key_facts(2) [OF assms l] f unfolding ins by (simp add: linsert_body_def Let_def ins)
qed

lemma lset_spec:
  assumes "wf_db db" "value_of db key = Some (VList l)"
  shows "let j = norm_index (length l) i in
    (if 0 \<le> j \<and> j < int (length l)
     then \<exists>db'. lset_body key i v db = Some (db', [TInline ''OK'']) \<and>
       changed key (Some (VList (l[nat j := v]))) 1 db db'
     else lset_body key i v db = Some (db, [TError msgOutOfRange]))"
proof -
  note e = key_facts(2) [OF assms]
  have "l[nat j := v] \<noteq> []" for j using e by simp
  note c = put_list_changed' [OF assms this]
  show ?thesis using e c by (auto simp: lset_body_def norm_index_def Let_def)
qed

lemma ltrim_general:
  assumes "wf_db db" "value_of db key = Some (VList l)"
    and "redisRange (int (length l)) start stop False = (rs, re)"
  shows "\<exists>db'. ltrim_body key start stop db = Some (db', [TInline ''OK'']) \<and>
    changed key (list_val (slice rs re l)) 1 db db'"
proof (cases "slice rs re l = []")
  case True
  obtain db' where "db_del key db = Some db'" "changed key None 1 db db'"
    using assms(1,2) by (auto intro: db_del_present)
  with True show ?thesis
    using key_facts(2) [OF assms(1,2)] assms(3) by (simp add: ltrim_body_def list_val_def)
next
  case False
  with put_list_changed' [OF assms(1,2) False] show ?thesis
    using key_facts(2) [OF assms(1,2)] assms(3) by (simp add: ltrim_body_def list_val_def)
qed

lemma ltrim_spec:
  assumes "wf_db db" "value_of db key = Some (VList l)"
    and "int (length l) \<le> max_int" "in_int stop" "stop \<noteq> max_int"
  shows "\<exists>db'. ltrim_body key start stop db = Some (db', [TInline ''OK'']) \<and>
    changed key (list_val (range_ref start stop l)) 1 db db'"
proof -
  obtain rs re where r: "redisRange (int (length l)) start stop False = (rs, re)" by force
  then have "slice rs re l = range_ref start stop l"
    using redisRange_slice [OF assms(3-5), of start] by simp
  with ltrim_general [OF assms(1,2) r] show ?thesis by simp
qed

lemma rpoplpush_body_spec:
  assumes "wf_db db"
  shows "value_of db src = None \<Longrightarrow> rpoplpush_body src dst db = Some (db, [TNull])"
    and "value_of db src = Some (VSet s) \<Longrightarrow> rpoplpush_body src dst db = Some (db, [TError msgWrongType])"
    and "value_of db src = Some (VList l) \<Longrightarrow> value_of db dst = Some (VSet s) \<Longrightarrow>
      rpoplpush_body src dst db = Some (db, [TError msgWrongType])"
    and "value_of db src = Some (VList l) \<Longrightarrow> list_or_absent db dst \<Longrightarrow>
      \<exists>db' g. rpoplpush_body src dst db = Some (db', [TBulk (last l)]) \<and> wf_db db' \<and> evolves g db db' \<and>
        value_of db' = rotated src dst db l"
proof -
  show "value_of db src = None \<Longrightarrow> rpoplpush_body src dst db = Some (db, [TNull])"
    using key_facts(1) [OF assms] by (simp add: rpoplpush_body_def)
  show "value_of db src = Some (VSet s) \<Longrightarrow> rpoplpush_body src dst db = Some (db, [TError msgWrongType])"
    using key_facts(3) [OF assms] by (simp add: rpoplpush_body_def)
  show "value_of db src = Some (VList l) \<Longrightarrow> value_of db dst = Some (VSet s) \<Longrightarrow>
      rpoplpush_body src dst db = Some (db, [TError msgWrongType])"
    using key_facts(2,3) [OF assms] by (simp add: rpoplpush_body_def)
  assume l: "value_of db src = Some (VList l)" and d: "list_or_absent db dst"
  from rpoplpush_spec [OF assms l d] obtain db1 n db2 g
    where "listPop src db = Some (last l, db1)" "listLpush dst (last l) db1 = (n, db2)"
      "wf_db db2" "evolves g db db2" "value_of db2 = rotated src dst db l" .
  moreover have "\<not> (db_exists dst db \<and> db_t dst db \<noteq> ''list'')"
    using d key_facts(1,2) [OF assms, of dst] by (auto simp: list_or_absent_def)
  ultimately show "\<exists>db' g. rpoplpush_body src dst db = Some (db', [TBulk (last l)]) \<and> wf_db db' \<and>
      evolves g db db' \<and> value_of db' = rotated src dst db l"
    using key_facts(2) [OF assms l] by (auto simp: rpoplpush_body_def)
qed

text \<open>
  A blocking body either is not done and changes and writes nothing, or is done and has the
  effect of the command that does not block.
\<close>

definition serves :: "RedisDB \<Rightarrow> (bool \<times> RedisDB \<times> token list) option \<Rightarrow> bool" where
  "serves db res \<longleftrightarrow>
     res = Some (False, db, []) \<or>
     (\<exists>db' ts g. res = Some (True, db', ts) \<and> reply ts \<and> wf_db db' \<and> evolves g db db')"

lemma brpoplpush_eq:
  assumes "wf_db db"
  shows "brpoplpush_body src dst db =
    (if value_of db src = None then Some (False, db, [])
     else map_option (\<lambda>(db', ts). (True, db', ts)) (rpoplpush_body src dst db))"
  using key_facts [OF assms, of src]
  by (cases rule: key_cases [of db src]; cases "listPop src db")
    (auto simp: brpoplpush_body_def rpoplpush_body_def db_exists_iff Let_def split: option.splits prod.splits)

lemma bxpop_eq:
  assumes "wf_db db"
  shows "bxpop_body ks lr db =
    (case find (\<lambda>k. value_of db k \<noteq> None) ks of
       None \<Rightarrow> Some (False, db, [])
     | Some key \<Rightarrow>
         if \<exists>s. value_of db key = Some (VSet s) then Some (True, db, [TError msgWrongType])
         else do { (v, db) \<leftarrow> pop lr key db; Some (True, db, [TLen 2, TBulk key, TBulk v]) })"
proof (induction ks)
  case Nil
  then show ?case by simp
next
  case (Cons key ks)
  then show ?case
    using key_facts [OF assms, of key] by (cases rule: key_cases [of db key]) auto
qed

subsection \<open>Contracts\<close>

interpretation lindex: total_command "det (lindex_body key i)" for key i
  by (rule total_command_det, subst lindex_spec)
    (auto intro!: served_read simp: Let_def split: option.split val.split)

interpretation llen: total_command "det (llen_body key)" for key
  by (rule total_command_det, subst llen_spec) (auto intro!: served_read split: option.split val.split)

lemma served_linsert: "wf_db db \<Longrightarrow> served db (linsert_body key w pivot v db)"
proof (cases rule: key_cases [of db key])
  case (list l)
  assume wf: "wf_db db"
  show ?thesis
  proof (cases "pivot \<in> set l")
    case True
    then obtain xs ys where l: "l = xs @ pivot # ys" "pivot \<notin> set xs" by (metis split_list_first)
    from linsert_spec(4) [OF wf list [unfolded l] l(2), of w v] show ?thesis
      by (rule served_one) simp
  next
    case False
    from linsert_spec(3) [OF wf list False] show ?thesis by (simp add: served_read [OF wf])
  qed
qed (simp_all add: linsert_spec served_read)

interpretation linsert: total_command "det (linsert_body key w pivot v)" for key w pivot v
  by (rule total_command_det) (rule served_linsert)

lemma served_xpop: "wf_db db \<Longrightarrow> served db (xpop_body key lr db)"
proof (cases rule: key_cases [of db key])
  case (list l)
  assume wf: "wf_db db"
  from xpop_spec(3) [OF wf list, of lr] show ?thesis by (rule served_spec) simp
qed (simp_all add: xpop_spec served_read)

interpretation xpop: total_command "det (xpop_body key lr)" for key lr
  by (rule total_command_det) (rule served_xpop)

lemma push_loop_Nil: "xpush_body key [] lr db =
    Some (db, [if db_exists key db \<and> db_t key db \<noteq> ''list'' then TError msgWrongType else TInt 0])"
  by (simp add: xpush_body_def)

lemma served_xpush: "wf_db db \<Longrightarrow> served db (xpush_body key vs lr db)"
proof (cases "vs = []")
  case True
  assume "wf_db db"
  then show ?thesis by (simp add: True push_loop_Nil served_read)
next
  case False
  assume wf: "wf_db db"
  then obtain n where n: "length vs = Suc n" using False by (cases vs) auto
  show ?thesis
  proof (cases "list_or_absent db key")
    case True
    from xpush_spec(2) [OF wf False True, of lr] show ?thesis unfolding n
      by (rule served_spec1) simp
  next
    case False
    then obtain s where "value_of db key = Some (VSet s)"
      by (cases rule: key_cases [of db key]) (auto simp: list_or_absent_def)
    with xpush_spec(1) [OF wf \<open>vs \<noteq> []\<close>] show ?thesis by (simp add: served_read [OF wf])
  qed
qed

interpretation xpush: total_command "det (xpush_body key vs lr)" for key vs lr
  by (rule total_command_det) (rule served_xpush)

interpretation xpushx: total_command "det (xpushx_body key vs lr)" for key vs lr
  by (rule total_command_det) (simp add: xpushx_spec served_xpush served_read)

lemma served_lrange:
  assumes "wf_db db"
  shows "served db (lrange_body key start stop db)"
proof -
  let ?l = "list_at key db"
  obtain rs re where r: "redisRange (int (length ?l)) start stop False = (rs, re)" by force
  then have "0 \<le> rs" "rs \<le> re" "re \<le> int (length ?l)"
    using redisRange_bounds [of "int (length ?l)" start stop False] by simp_all
  from slice_length [OF this] have "reply (TLen (re - rs) # map TBulk (slice rs re ?l))"
    by (intro reply_bulks) simp
  with r show ?thesis by (auto simp: lrange_body_def Let_def intro!: served_read [OF assms(1)])
qed

interpretation lrange: total_command "det (lrange_body key start stop)" for key start stop
  by (rule total_command_det) (rule served_lrange)

lemma served_ltrim: "wf_db db \<Longrightarrow> served db (ltrim_body key start stop db)"
proof (cases rule: key_cases [of db key])
  case (list l)
  assume wf: "wf_db db"
  obtain rs re where r: "redisRange (int (length l)) start stop False = (rs, re)" by force
  from ltrim_general [OF wf list r] show ?thesis by (rule served_one) simp
qed (auto simp: ltrim_body_def key_facts intro!: served_read)

interpretation ltrim: total_command "det (ltrim_body key start stop)" for key start stop
  by (rule total_command_det) (rule served_ltrim)

lemma served_lrem: "wf_db db \<Longrightarrow> served db (lrem_body key cnt v db)"
proof (cases rule: key_cases [of db key])
  case (list l)
  assume wf: "wf_db db"
  note e = key_facts(2) [OF wf list]
  obtain n l' where b: "lrem_body key cnt v db =
      Option.bind (if l' = [] then db_del key db else Some (bump key (put_list key l' db)))
        (\<lambda>db. Some (db, [TInt n]))"
    using e by (simp add: lrem_body_def Let_def case_prod_unfold)
  show ?thesis
  proof (cases "l' = []")
    case True
    obtain db' where "db_del key db = Some db'" "changed key None 1 db db'"
      using wf list by (auto intro: db_del_present)
    with True b show ?thesis by (auto intro: served_changed)
  next
    case False
    from put_list_changed' [OF wf list False] False b show ?thesis by (auto intro: served_changed)
  qed
qed (auto simp: lrem_body_def key_facts intro!: served_read)

interpretation lrem: total_command "det (lrem_body key cnt v)" for key cnt v
  by (rule total_command_det) (rule served_lrem)

lemma served_lset: "wf_db db \<Longrightarrow> served db (lset_body key i v db)"
proof (cases rule: key_cases [of db key])
  case (list l)
  assume wf: "wf_db db"
  from lset_spec [OF wf list, of i v] show ?thesis
    by (auto simp: Let_def served_read [OF wf] split: if_splits dest!: served_changed)
qed (auto simp: lset_body_def key_facts intro!: served_read)

interpretation lset: total_command "det (lset_body key i v)" for key i v
  by (rule total_command_det) (rule served_lset)

lemma served_rpoplpush: "wf_db db \<Longrightarrow> served db (rpoplpush_body src dst db)"
proof (cases rule: key_cases [of db src])
  case (list l)
  assume wf: "wf_db db"
  show ?thesis
  proof (cases "list_or_absent db dst")
    case True
    from rpoplpush_body_spec(4) [OF wf list True] show ?thesis by (fastforce intro: served_evolves)
  next
    case False
    then obtain s where "value_of db dst = Some (VSet s)"
      by (cases rule: key_cases [of db dst]) (auto simp: list_or_absent_def)
    with rpoplpush_body_spec(3) [OF wf list] show ?thesis by (simp add: served_read [OF wf])
  qed
qed (simp_all add: rpoplpush_body_spec served_read)

interpretation rpoplpush: total_command "det (rpoplpush_body src dst)" for src dst
  by (rule total_command_det) (rule served_rpoplpush)

lemma serves_brpoplpush: "wf_db db \<Longrightarrow> serves db (brpoplpush_body src dst db)"
  using served_rpoplpush [of db src dst] by (auto simp: brpoplpush_eq serves_def served_def)

lemma serves_bxpop: "wf_db db \<Longrightarrow> serves db (bxpop_body ks lr db)"
proof -
  assume wf: "wf_db db"
  show ?thesis
  proof (cases "find (\<lambda>k. value_of db k \<noteq> None) ks")
    case None
    then show ?thesis by (simp add: bxpop_eq [OF wf] serves_def)
  next
    case (Some key)
    then have "value_of db key \<noteq> None" by (auto simp: find_Some_iff)
    then show ?thesis
    proof (cases rule: key_cases [of db key])
      case (list l)
      from pop_spec [OF wf list] obtain db' n where p: "pop lr key db = Some (fst (popped lr l), db')"
        "0 < n" "changed key (list_val (snd (popped lr l))) n db db'" .
      have "reply [TLen 2, TBulk key, TBulk (fst (popped lr l))]"
        using reply_pair [OF reply.bulk reply.bulk] by simp
      with p changed_evolves [OF p(3,2)] changed_wf [OF p(3)] Some list show ?thesis
        by (auto simp: bxpop_eq [OF wf] serves_def)
    next
      case (set s)
      with Some show ?thesis by (auto simp: bxpop_eq [OF wf] serves_def wf)
    qed simp
  qed
qed

end
