(* ===== verification/Keys.thy ===== *)
theory Keys
  imports Prelude
begin

text \<open>
  \<open>keys.go\<close> and \<open>matchKeys\<close> of \<open>redis.go\<close>: the translation of a KEYS pattern into a regular
  expression of Go's \<open>regexp\<close> package, and the filter built on it.

  The package itself is a parameter \<open>compile\<close>: \<open>compile rx\<close> is \<open>None\<close> where
  \<open>MustCompile\<close> panics, and otherwise the \<open>MatchString\<close> of the compiled expression. What the
  theorems use of it is the hypothesis \<open>conforms\<close>, the documented meaning of the syntax
  \<open>patternRE\<close> emits for patterns without character classes, on ASCII text.
\<close>

subsection \<open>The translation\<close>

abbreviation backslash :: char where
  "backslash \<equiv> CHR 0x5C"

text \<open>
  The loop over a character class: \<open>None\<close> for a pattern that ends in a backslash, else the
  class and what follows its closing bracket.
\<close>

fun class_loop :: "string \<Rightarrow> string \<Rightarrow> (string \<times> string) option" where
  "class_loop charClass [] = Some (charClass, [])"
| "class_loop charClass (c # k) =
     (if c = CHR '']'' then Some (charClass, k)
      else if c = backslash then
        (case k of [] \<Rightarrow> None | d # k \<Rightarrow> class_loop (charClass @ [c, d]) k)
      else class_loop (charClass @ [c]) k)"

lemma class_loop_length: "class_loop acc k = Some (cls, rest) \<Longrightarrow> length rest \<le> length k"
  by (induction acc k rule: class_loop.induct) (auto split: if_splits list.splits)

function pattern_loop :: "string \<Rightarrow> string \<Rightarrow> string option" where
  "pattern_loop re [] = Some (re @ [backslash, CHR ''E'', CHR ''$''])"
| "pattern_loop re (p # k) =
     (if p = CHR ''*'' then pattern_loop (re @ [backslash, CHR ''E'', CHR ''.'', CHR ''*'', backslash, CHR ''Q'']) k
      else if p = CHR ''?'' then pattern_loop (re @ [backslash, CHR ''E'', CHR ''.'', backslash, CHR ''Q'']) k
      else if p = CHR ''['' then
        (case class_loop [] k of
           None \<Rightarrow> None
         | Some (charClass, k') \<Rightarrow>
             if charClass = [] then None
             else pattern_loop (re @ [backslash, CHR ''E'', CHR ''['' ] @ charClass @ [CHR '']'', backslash, CHR ''Q'']) k')
      else if p = backslash then
        (case k of [] \<Rightarrow> None | c # k' \<Rightarrow> pattern_loop (re @ [c]) k')
      else pattern_loop (re @ [p]) k)"
  by pat_completeness auto
termination
  by (relation "measure (\<lambda>(re, k). length k)") (auto dest: class_loop_length)

definition pattern_regexp :: "string \<Rightarrow> string option" where
  "pattern_regexp k = pattern_loop [CHR ''^'', backslash, CHR ''Q''] k"

text \<open>
  \<open>patternRE\<close>: \<open>None\<close> for a panic of \<open>MustCompile\<close>, \<open>Some None\<close> for the nil result of a
  pattern that matches nothing.
\<close>

definition patternRE :: "(string \<Rightarrow> (string \<Rightarrow> bool) option) \<Rightarrow> string \<Rightarrow> (string \<Rightarrow> bool) option option" where
  "patternRE compile k =
     (case pattern_regexp k of
        None \<Rightarrow> Some None
      | Some re \<Rightarrow> (case compile re of None \<Rightarrow> None | Some f \<Rightarrow> Some (Some f)))"

definition matchKeys :: "(string \<Rightarrow> (string \<Rightarrow> bool) option) \<Rightarrow> string list \<Rightarrow> string \<Rightarrow> string list option" where
  "matchKeys compile ks match = do {
     re \<leftarrow> patternRE compile match;
     Some (case re of None \<Rightarrow> [] | Some f \<Rightarrow> filter f ks)
   }"

lemma matchKeys_subset: "matchKeys compile ks p = Some ks' \<Longrightarrow> set ks' \<subseteq> set ks"
  by (auto simp: matchKeys_def split: option.splits)

subsection \<open>What the emitted expressions mean\<close>

text \<open>
  The syntax the translation emits when there is no character class: literal characters, a
  dot (any character but a newline) and a starred dot. \<open>parse_re\<close> reads such an expression
  after its anchor, inside or outside of a quotation \<open>\Q...\E\<close>.
\<close>

datatype re_item = Lit char | Dot | DotStar

fun parse_re :: "bool \<Rightarrow> string \<Rightarrow> re_item list option" where
  "parse_re True (a # b # s) =
     (if a = backslash \<and> b = CHR ''E'' then parse_re False s
      else map_option (Cons (Lit a)) (parse_re True (b # s)))"
| "parse_re False [a] = (if a = CHR ''$'' then Some [] else None)"
| "parse_re False (a # b # s) =
     (if a = backslash \<and> b = CHR ''Q'' then parse_re True s
      else if a = CHR ''.'' \<and> b = CHR ''*'' then map_option (Cons DotStar) (parse_re False s)
      else if a = CHR ''.'' then map_option (Cons Dot) (parse_re False (b # s))
      else None)"
| "parse_re _ _ = None"

fun match_items :: "re_item list \<Rightarrow> string \<Rightarrow> bool" where
  "match_items [] s = (s = [])"
| "match_items (Lit a # r) s = (case s of [] \<Rightarrow> False | c # s' \<Rightarrow> c = a \<and> match_items r s')"
| "match_items (Dot # r) s = (case s of [] \<Rightarrow> False | c # s' \<Rightarrow> c \<noteq> CHR 0x0A \<and> match_items r s')"
| "match_items (DotStar # r) s =
     (match_items r s \<or> (case s of [] \<Rightarrow> False | c # s' \<Rightarrow> c \<noteq> CHR 0x0A \<and> match_items (DotStar # r) s'))"

definition ascii :: "string \<Rightarrow> bool" where
  "ascii s \<longleftrightarrow> (\<forall>c \<in> set s. c < CHR 0x80)"

definition conforms :: "(string \<Rightarrow> (string \<Rightarrow> bool) option) \<Rightarrow> bool" where
  "conforms compile \<longleftrightarrow>
     (\<forall>rx items. ascii rx \<longrightarrow> parse_re False rx = Some items \<longrightarrow>
        (\<exists>f. compile (CHR ''^'' # rx) = Some f \<and> (\<forall>s. ascii s \<longrightarrow> f s = match_items items s)))"

text \<open>The glob patterns without classes and escapes, and what they match.\<close>

definition plain_glob :: "string \<Rightarrow> bool" where
  "plain_glob p \<longleftrightarrow> CHR ''['' \<notin> set p \<and> backslash \<notin> set p"

fun glob :: "string \<Rightarrow> string \<Rightarrow> bool" where
  "glob [] s = (s = [])"
| "glob (p # ps) s =
     (if p = CHR ''*'' then glob ps s \<or> (case s of [] \<Rightarrow> False | _ # s' \<Rightarrow> glob (p # ps) s')
      else (case s of [] \<Rightarrow> False | c # s' \<Rightarrow> (p = CHR ''?'' \<or> c = p) \<and> glob ps s'))"

fun glob_items :: "string \<Rightarrow> re_item list" where
  "glob_items [] = []"
| "glob_items (p # ps) =
     (if p = CHR ''*'' then DotStar # glob_items ps
      else if p = CHR ''?'' then Dot # glob_items ps
      else Lit p # glob_items ps)"

text \<open>The text \<open>pattern_loop\<close> appends, for a plain pattern.\<close>

fun emitted :: "string \<Rightarrow> string" where
  "emitted [] = [backslash, CHR ''E'', CHR ''$'']"
| "emitted (p # ps) =
     (if p = CHR ''*'' then [backslash, CHR ''E'', CHR ''.'', CHR ''*'', backslash, CHR ''Q''] @ emitted ps
      else if p = CHR ''?'' then [backslash, CHR ''E'', CHR ''.'', backslash, CHR ''Q''] @ emitted ps
      else p # emitted ps)"

lemma pattern_loop_plain: "plain_glob k \<Longrightarrow> pattern_loop re k = Some (re @ emitted k)"
proof (induction re k rule: pattern_loop.induct)
  case (1 re)
  then show ?case by simp
next
  case (2 re p k)
  then have "plain_glob k" "p \<noteq> CHR ''[''" "p \<noteq> backslash" by (auto simp: plain_glob_def)
  then show ?case using 2 by auto
qed

lemma emitted_Cons: "\<exists>a b s. emitted k = a # b # s"
  by (cases k rule: emitted.cases) (auto, metis emitted.elims list.distinct(1) append_Cons)

lemma parse_emitted: "plain_glob k \<Longrightarrow> parse_re True (emitted k) = Some (glob_items k)"
proof (induction k)
  case Nil
  then show ?case by simp
next
  case (Cons p k)
  then have k: "plain_glob k" "p \<noteq> backslash" by (auto simp: plain_glob_def)
  obtain a b s where e: "emitted k = a # b # s" using emitted_Cons by blast
  show ?case using Cons.IH [OF k(1)] k(2) by (auto simp: e)
qed

lemma glob_items_match:
  "CHR 0x0A \<notin> set s \<Longrightarrow> match_items (glob_items k) s = glob k s"
proof (induction k s rule: glob.induct)
  case (1 s)
  then show ?case by simp
next
  case (2 p ps s)
  show ?case
  proof (cases s)
    case Nil
    with 2 show ?thesis by auto
  next
    case (Cons c s')
    with 2 show ?thesis by (auto split: if_splits)
  qed
qed

lemma ascii_emitted: "ascii k \<Longrightarrow> ascii (emitted k)"
  by (induction k) (auto simp: ascii_def less_char_def)

lemma patternRE_plain:
  assumes "conforms compile" "plain_glob k" "ascii k"
  obtains f where "patternRE compile k = Some (Some f)"
    "\<And>s. ascii s \<Longrightarrow> f s = match_items (glob_items k) s"
proof -
  let ?rx = "[backslash, CHR ''Q''] @ emitted k"
  have "ascii ?rx" using ascii_emitted [OF assms(3)] by (simp add: ascii_def less_char_def)
  moreover have "parse_re False ?rx = Some (glob_items k)" using parse_emitted [OF assms(2)] by simp
  ultimately obtain f where "compile (CHR ''^'' # ?rx) = Some f" "\<forall>s. ascii s \<longrightarrow> f s = match_items (glob_items k) s"
    using assms(1) unfolding conforms_def by blast
  moreover have "pattern_regexp k = Some (CHR ''^'' # ?rx)"
    by (simp add: pattern_regexp_def pattern_loop_plain [OF assms(2)])
  ultimately show ?thesis by (intro that [of f]) (auto simp: patternRE_def)
qed

text \<open>A \<open>compile\<close> that accepts exactly this syntax conforms.\<close>

definition go_fragment :: "string \<Rightarrow> (string \<Rightarrow> bool) option" where
  "go_fragment rx =
     (case rx of [] \<Rightarrow> None | c # r \<Rightarrow> if c = CHR ''^'' then map_option match_items (parse_re False r) else None)"

lemma conforms_go_fragment [simp]: "conforms go_fragment"
  by (simp add: conforms_def go_fragment_def)

lemma matchKeys_glob:
  assumes "conforms compile" "plain_glob p" "ascii p"
    and "\<And>k. k \<in> set ks \<Longrightarrow> ascii k \<and> CHR 0x0A \<notin> set k"
  shows "matchKeys compile ks p = Some (filter (glob p) ks)"
proof -
  from assms(1-3) obtain f where f: "patternRE compile p = Some (Some f)"
    "\<And>s. ascii s \<Longrightarrow> f s = match_items (glob_items p) s" by (rule patternRE_plain) blast
  have "filter f ks = filter (glob p) ks"
    using assms(4) f(2) glob_items_match by (intro filter_cong) auto
  with f(1) show ?thesis by (simp add: matchKeys_def)
qed

end
