(* ===== verification/Sets.thy ===== *)
theory Sets
  imports Command Keys
begin

text \<open>
  The bodies of the set commands (\<open>cmd_set.go\<close>): what each callback does to the database of
  its connection and what it writes, with their contracts and the sets they compute. The
  order in which SDIFF, SINTER and SUNION list a set is Go's map order, read from the random
  source like the outcomes of \<open>rand.Intn\<close>.
\<close>

subsection \<open>Bodies\<close>

definition sadd_body :: "string \<Rightarrow> string list \<Rightarrow> RedisDB \<Rightarrow> (RedisDB \<times> token list) option" where
  "sadd_body key elems db =
     (if db_exists key db \<and> db_t key db \<noteq> ''set'' then Some (db, [TError msgWrongType])
      else let (added, db) = setAdd key elems db in Some (db, [TInt added]))"

definition scard_body :: "string \<Rightarrow> RedisDB \<Rightarrow> (RedisDB \<times> token list) option" where
  "scard_body key db =
     (if \<not> db_exists key db then Some (db, [TInt 0])
      else if db_t key db \<noteq> ''set'' then Some (db, [TError msgWrongType])
      else let members = setMembers key db in Some (db, [TInt (int (length members))]))"

text \<open>The shared shape of SDIFF, SINTER and SUNION, and of their storing variants.\<close>

definition list_set :: "(string list \<Rightarrow> RedisDB \<Rightarrow> (string + setKey) option) \<Rightarrow> string list \<Rightarrow> dbcmd" where
  "list_set setop ks r db = do {
     res \<leftarrow> setop ks db;
     case res of
       Inl err \<Rightarrow> Some (db, r, [TError err])
     | Inr s \<Rightarrow>
         let (order, r) = range_order r (sorted_list_of_fset s)
         in Some (db, r, TLen (int (fcard s)) # map TBulk order)
   }"

definition store_set :: "(string list \<Rightarrow> RedisDB \<Rightarrow> (string + setKey) option) \<Rightarrow> string \<Rightarrow> string list \<Rightarrow>
    RedisDB \<Rightarrow> (RedisDB \<times> token list) option" where
  "store_set setop dest ks db = do {
     res \<leftarrow> setop ks db;
     case res of
       Inl err \<Rightarrow> Some (db, [TError err])
     | Inr s \<Rightarrow> do {
         db \<leftarrow> db_del dest db;
         let db = setSet dest s db;
         Some (db, [TInt (int (fcard s))])
       }
   }"

definition sdiff_body :: "string list \<Rightarrow> dbcmd" where
  "sdiff_body = list_set setDiff"

definition sdiffstore_body :: "string \<Rightarrow> string list \<Rightarrow> RedisDB \<Rightarrow> (RedisDB \<times> token list) option" where
  "sdiffstore_body = store_set setDiff"

definition sinter_body :: "string list \<Rightarrow> dbcmd" where
  "sinter_body = list_set setInter"

definition sinterstore_body :: "string \<Rightarrow> string list \<Rightarrow> RedisDB \<Rightarrow> (RedisDB \<times> token list) option" where
  "sinterstore_body = store_set setInter"

definition sunion_body :: "string list \<Rightarrow> dbcmd" where
  "sunion_body = list_set setUnion"

definition sunionstore_body :: "string \<Rightarrow> string list \<Rightarrow> RedisDB \<Rightarrow> (RedisDB \<times> token list) option" where
  "sunionstore_body = store_set setUnion"

definition sismember_body :: "string \<Rightarrow> string \<Rightarrow> RedisDB \<Rightarrow> (RedisDB \<times> token list) option" where
  "sismember_body key v db =
     (if \<not> db_exists key db then Some (db, [TInt 0])
      else if db_t key db \<noteq> ''set'' then Some (db, [TError msgWrongType])
      else if setIsMember key v db then Some (db, [TInt 1])
      else Some (db, [TInt 0]))"

definition smembers_body :: "string \<Rightarrow> RedisDB \<Rightarrow> (RedisDB \<times> token list) option" where
  "smembers_body key db =
     (if \<not> db_exists key db then Some (db, [TLen 0])
      else if db_t key db \<noteq> ''set'' then Some (db, [TError msgWrongType])
      else let members = setMembers key db
           in Some (db, TLen (int (length members)) # map TBulk members))"

definition smove_body :: "string \<Rightarrow> string \<Rightarrow> string \<Rightarrow> RedisDB \<Rightarrow> (RedisDB \<times> token list) option" where
  "smove_body src dst member db =
     (if \<not> db_exists src db then Some (db, [TInt 0])
      else if db_t src db \<noteq> ''set'' then Some (db, [TError msgWrongType])
      else if db_exists dst db \<and> db_t dst db \<noteq> ''set'' then Some (db, [TError msgWrongType])
      else if \<not> setIsMember src member db then Some (db, [TInt 0])
      else do {
        (n, db) \<leftarrow> setRem src [member] db;
        let (n, db) = setAdd dst [member] db;
        Some (db, [TInt 1])
      })"

text \<open>The popping loop of SPOP, \<open>i\<close> rounds from the end.\<close>

fun spop_loop :: "nat \<Rightarrow> string \<Rightarrow> rng \<Rightarrow> RedisDB \<Rightarrow> string list \<Rightarrow> (RedisDB \<times> rng \<times> string list) option" where
  "spop_loop 0 key r db deleted = Some (db, r, deleted)"
| "spop_loop (Suc i) key r db deleted =
     (let members = setMembers key db
      in if length members = 0 then Some (db, r, deleted)
         else do {
           (j, r) \<leftarrow> Intn (int (length members)) r;
           let member = members ! j;
           (n, db) \<leftarrow> setRem key [member] db;
           spop_loop i key r db (deleted @ [member])
         })"

definition spop_body :: "string \<Rightarrow> int \<Rightarrow> bool \<Rightarrow> dbcmd" where
  "spop_body key cnt withCount r db =
     (if \<not> db_exists key db then
        (if \<not> withCount then Some (db, r, [TNull]) else Some (db, r, [TLen 0]))
      else if db_t key db \<noteq> ''set'' then Some (db, r, [TError msgWrongType])
      else do {
        (db, r, deleted) \<leftarrow> spop_loop (nat cnt) key r db [];
        Some (db, r,
          (if \<not> withCount then (case deleted of [] \<Rightarrow> [TNull] | d # _ \<Rightarrow> [TBulk d])
           else TLen (int (length deleted)) # map TBulk deleted))
      })"

text \<open>\<open>members[rand.Intn(len(members))]\<close>, \<open>i\<close> times.\<close>

fun pick_loop :: "nat \<Rightarrow> string list \<Rightarrow> rng \<Rightarrow> (string list \<times> rng) option" where
  "pick_loop 0 members r = Some ([], r)"
| "pick_loop (Suc i) members r = do {
     (j, r) \<leftarrow> Intn (int (length members)) r;
     (picked, r) \<leftarrow> pick_loop i members r;
     Some (members ! j # picked, r)
   }"

fun shuffle_loop :: "nat \<Rightarrow> string list \<Rightarrow> rng \<Rightarrow> (string list \<times> rng) option" where
  "shuffle_loop 0 m r = Some (m, r)"
| "shuffle_loop (Suc n) m r = do {
     (i, r) \<leftarrow> Intn (int (length m)) r;
     (j, r) \<leftarrow> Intn (int (length m)) r;
     shuffle_loop n (swap i j m) r
   }"

definition shuffle :: "string list \<Rightarrow> rng \<Rightarrow> (string list \<times> rng) option" where
  "shuffle m r = shuffle_loop (length m) m r"

definition srandmember_body :: "string \<Rightarrow> int \<Rightarrow> bool \<Rightarrow> dbcmd" where
  "srandmember_body key cnt withCount r db =
     (if \<not> db_exists key db then Some (db, r, [TNull])
      else if db_t key db \<noteq> ''set'' then Some (db, r, [TError msgWrongType])
      else
        let members = setMembers key db
        in if cnt < 0 then do {
             (picked, r) \<leftarrow> pick_loop (nat (- cnt)) members r;
             Some (db, r, TLen (i64 (- cnt)) # map TBulk picked)
           }
           else do {
             (members, r) \<leftarrow> shuffle members r;
             let cnt = (if cnt > int (length members) then int (length members) else cnt);
             (if \<not> withCount then (case members of [] \<Rightarrow> None | e # _ \<Rightarrow> Some (db, r, [TBulk e]))
              else Some (db, r, TLen cnt # map TBulk (take (nat cnt) members)))
           })"

definition srem_body :: "string \<Rightarrow> string list \<Rightarrow> RedisDB \<Rightarrow> (RedisDB \<times> token list) option" where
  "srem_body key fs db =
     (if \<not> db_exists key db then Some (db, [TInt 0])
      else if db_t key db \<noteq> ''set'' then Some (db, [TError msgWrongType])
      else do { (n, db) \<leftarrow> setRem key fs db; Some (db, [TInt n]) })"

text \<open>SSCAN: every element in one page; \<open>match\<close> is the MATCH option when given.\<close>

definition sscan_body :: "(string \<Rightarrow> (string \<Rightarrow> bool) option) \<Rightarrow> string \<Rightarrow> int \<Rightarrow> string option \<Rightarrow>
    RedisDB \<Rightarrow> (RedisDB \<times> token list) option" where
  "sscan_body compile key cursor match db =
     (if cursor \<noteq> 0 then Some (db, [TLen 2, TBulk ''0'', TLen 0])
      else if db_exists key db \<and> db_t key db \<noteq> ''set'' then Some (db, [TError msgWrongType])
      else do {
        let members = setMembers key db;
        members \<leftarrow> (case match of None \<Rightarrow> Some members | Some p \<Rightarrow> matchKeys compile members p);
        Some (db, [TLen 2, TBulk ''0'', TLen (int (length members))] @ map TBulk members)
      })"

text \<open>
  The whole callback of SPOP: it reads its count only when it runs, so its errors are written
  there and mark the transaction dirty there.
\<close>

definition spop_cb :: "string \<Rightarrow> string list \<Rightarrow> RediQueue \<Rightarrow> peer \<Rightarrow> (RediQueue \<times> peer) option" where
  "spop_cb key args m c =
     (case args of
        [] \<Rightarrow> on_db (spop_body key 1 False) m c
      | a # args \<Rightarrow>
          (let (db, m') = m_db (selectedDB (ctx c)) m in
           case Atoi a of
             None \<Rightarrow> Some (m', WriteError msgInvalidInt (setDirty c))
           | Some v \<Rightarrow>
               if length args > 0 then Some (m', WriteError msgInvalidInt (setDirty c))
               else on_db (spop_body key v True) m c))"

lemmas set_body_defs [cmd_defs] = sadd_body_def scard_body_def list_set_def store_set_def
  sdiff_body_def sdiffstore_body_def sinter_body_def sinterstore_body_def sunion_body_def
  sunionstore_body_def sismember_body_def smembers_body_def smove_body_def spop_body_def
  srandmember_body_def srem_body_def sscan_body_def

subsection \<open>The set algebra\<close>

text \<open>
  A set operation whose keys all hold sets or nothing computes the set; one that meets a list
  fails. \<open>holds_list\<close> is the test of the source.
\<close>

definition holds_list :: "RedisDB \<Rightarrow> string \<Rightarrow> bool" where
  "holds_list db k \<longleftrightarrow> (\<exists>l. value_of db k = Some (VList l))"

lemma not_set_iff:
  "wf_db db \<Longrightarrow> (db_exists k db \<and> db_t k db \<noteq> ''set'') = holds_list db k"
  by (cases rule: key_cases [of db k]) (auto simp: holds_list_def lookup_simps)

lemma set_at_absent: "wf_db db \<Longrightarrow> \<not> db_exists k db \<Longrightarrow> set_at k db = {||}"
  by (simp add: lookup_simps)

lemma holds_list_absent: "\<not> db_exists k db \<Longrightarrow> \<not> holds_list db k"
  by (auto simp: holds_list_def db_exists_iff)

lemma diff_loop_eq:
  assumes "wf_db db"
  shows "diff_loop db ks s =
    (if \<exists>k \<in> set ks. holds_list db k then Inl msgWrongType
     else Inr (ffilter (\<lambda>e. \<forall>k \<in> set ks. e |\<notin>| set_at k db) s))"
proof (induction ks arbitrary: s)
  case Nil
  have "ffilter (\<lambda>_. True) s = s" by auto
  then show ?case by simp
next
  case (Cons k ks)
  have "ffilter (\<lambda>e. \<forall>k \<in> set ks. e |\<notin>| set_at k db) (s |-| set_at k db)
      = ffilter (\<lambda>e. \<forall>k \<in> set (k # ks). e |\<notin>| set_at k db) s" by auto
  then show ?case
    using Cons not_set_iff [OF assms, of k] set_at_absent [OF assms, of k] holds_list_absent [of k db]
    by (cases "db_exists k db") auto
qed

lemma union_loop_eq:
  assumes "wf_db db"
  shows "union_loop db ks s =
    (if \<exists>k \<in> set ks. holds_list db k then Inl msgWrongType
     else Inr (s |\<union>| ffUnion (fset_of_list (map (\<lambda>k. set_at k db) ks))))"
proof (induction ks arbitrary: s)
  case Nil
  then show ?case by simp
next
  case (Cons k ks)
  then show ?case
    using not_set_iff [OF assms, of k] set_at_absent [OF assms, of k] holds_list_absent [of k db]
    by (cases "db_exists k db") (auto simp: sup_assoc)
qed

text \<open>An intersection skips every key that is absent or holds a list.\<close>

lemma inter_loop_eq:
  assumes "wf_db db"
  shows "inter_loop db ks s =
    Inr (ffilter (\<lambda>e. \<forall>k \<in> set ks. \<forall>t. value_of db k = Some (VSet t) \<longrightarrow> e |\<in>| t) s)"
proof (induction ks arbitrary: s)
  case Nil
  have "ffilter (\<lambda>_. True) s = s" by auto
  then show ?case by simp
next
  case (Cons k ks)
  show ?case
  proof (cases rule: key_cases [of db k])
    case absent
    then show ?thesis using Cons by (simp add: db_exists_iff)
  next
    case (list l)
    then show ?thesis using Cons by (simp add: lookup_simps assms)
  next
    case (set t)
    have "ffilter (\<lambda>e. \<forall>k \<in> set ks. \<forall>t. value_of db k = Some (VSet t) \<longrightarrow> e |\<in>| t) (ffilter (\<lambda>e. e |\<in>| t) s)
       = ffilter (\<lambda>e. \<forall>k \<in> set (k # ks). \<forall>t. value_of db k = Some (VSet t) \<longrightarrow> e |\<in>| t) s"
      using set by auto
    then show ?thesis using Cons set by (simp add: lookup_simps assms)
  qed
qed

lemma setDiff_spec:
  assumes "wf_db db"
  shows "setDiff (k # ks) db = Some
    (if \<exists>j \<in> set (k # ks). holds_list db j then Inl msgWrongType
     else Inr (ffilter (\<lambda>e. \<forall>j \<in> set ks. e |\<notin>| set_at j db) (set_at k db)))"
  using not_set_iff [OF assms, of k] by (auto simp: setDiff_def diff_loop_eq [OF assms])

lemma setUnion_spec:
  assumes "wf_db db"
  shows "setUnion (k # ks) db = Some
    (if \<exists>j \<in> set (k # ks). holds_list db j then Inl msgWrongType
     else Inr (set_at k db |\<union>| ffUnion (fset_of_list (map (\<lambda>j. set_at j db) ks))))"
  using not_set_iff [OF assms, of k] by (auto simp: setUnion_def union_loop_eq [OF assms])

lemma setInter_spec:
  assumes "wf_db db"
  shows "setInter (k # ks) db = Some
    (if holds_list db k then Inl msgWrongType
     else Inr (ffilter (\<lambda>e. \<forall>j \<in> set ks. \<forall>t. value_of db j = Some (VSet t) \<longrightarrow> e |\<in>| t) (set_at k db)))"
  using not_set_iff [OF assms, of k] by (auto simp: setInter_def inter_loop_eq [OF assms])

subsection \<open>Contracts of the commands built on a set operation\<close>

text \<open>
  SDIFF, SINTER and SUNION and their storing variants use their set operation only through
  this interface: on at least one key it does not panic.
\<close>

locale set_operation =
  fixes setop :: "string list \<Rightarrow> RedisDB \<Rightarrow> (string + setKey) option"
  assumes setop_returns: "wf_db db \<Longrightarrow> setop (k # ks) db \<noteq> None"
    and setop_no_keys: "setop [] db = None"
begin

lemma list_set_served: "wf_db db \<Longrightarrow> served_r db (list_set setop (k # ks) r db)"
proof -
  assume wf: "wf_db db"
  from setop_returns [OF wf] obtain res where res: "setop (k # ks) db = Some res" by blast
  show ?thesis
  proof (cases res)
    case (Inl err)
    with res show ?thesis by (simp add: list_set_def served_r_read [OF wf])
  next
    case (Inr s)
    obtain order r' where o: "range_order r (sorted_list_of_fset s) = (order, r')" by force
    then have "length order = fcard s"
      by (metis fst_conv length_range_order sorted_list_of_fset.rep_eq length_sorted_list_of_set fcard.rep_eq)
    then have "reply (TLen (int (fcard s)) # map TBulk order)" by (intro reply_bulks) simp
    with res Inr o show ?thesis by (simp add: list_set_def served_r_read [OF wf])
  qed
qed

lemma list_set_watched: "watched_command (list_set setop ks)"
proof (rule watched_command_rnd)
  fix r db
  assume "wf_db db"
  then show "list_set setop ks r db = None \<or> served_r db (list_set setop ks r db)"
    using list_set_served setop_no_keys by (cases ks) (auto simp: list_set_def)
qed

text \<open>A stored result replaces whatever the destination held, and is stored even when empty.\<close>

lemma store_set_spec:
  assumes "wf_db db" "setop (k # ks) db = Some (Inr s)"
  shows "\<exists>db' n. store_set setop dest (k # ks) db = Some (db', [TInt (int (fcard s))]) \<and> 0 < n \<and>
    changed dest (Some (VSet s)) n db db'"
proof -
  obtain db1 n where d: "db_del dest db = Some db1" "changed dest None n db db1"
    using db_del_spec [OF assms(1)] by blast
  have "set_or_absent db1 dest" using d(2) by (simp add: changed_def set_or_absent_def)
  from changed_trans [OF d(2) setSet_spec [OF changed_wf [OF d(2)] this]]
  have "changed dest (Some (VSet s)) (n + 1) db (setSet dest s db1)" .
  with assms(2) d(1) show ?thesis by (intro exI conjI) (auto simp: store_set_def)
qed

lemma store_set_served: "wf_db db \<Longrightarrow> served db (store_set setop dest (k # ks) db)"
proof -
  assume wf: "wf_db db"
  from setop_returns [OF wf] obtain res where res: "setop (k # ks) db = Some res" by blast
  show ?thesis
  proof (cases res)
    case (Inl err)
    with res show ?thesis by (simp add: store_set_def served_read [OF wf])
  next
    case (Inr s)
    from store_set_spec [OF wf res [unfolded Inr], of dest] show ?thesis
      using served_changed by fastforce
  qed
qed

lemma store_set_watched: "watched_command (det (store_set setop dest ks))"
proof (rule watched_command_det)
  fix db
  assume "wf_db db"
  then show "store_set setop dest ks db = None \<or> served db (store_set setop dest ks db)"
    using store_set_served setop_no_keys by (cases ks) (auto simp: store_set_def)
qed

end

interpretation diff: set_operation setDiff
  by standard (simp_all add: setDiff_def)

interpretation inter: set_operation setInter
  by standard (simp_all add: setInter_def)

interpretation union: set_operation setUnion
  by standard (simp_all add: setUnion_def)

interpretation sdiff: watched_command "sdiff_body ks" for ks
  unfolding sdiff_body_def by (rule diff.list_set_watched)

interpretation sinter: watched_command "sinter_body ks" for ks
  unfolding sinter_body_def by (rule inter.list_set_watched)

interpretation sunion: watched_command "sunion_body ks" for ks
  unfolding sunion_body_def by (rule union.list_set_watched)

interpretation sdiffstore: watched_command "det (sdiffstore_body dest ks)" for dest ks
  unfolding sdiffstore_body_def by (rule diff.store_set_watched)

interpretation sinterstore: watched_command "det (sinterstore_body dest ks)" for dest ks
  unfolding sinterstore_body_def by (rule inter.store_set_watched)

interpretation sunionstore: watched_command "det (sunionstore_body dest ks)" for dest ks
  unfolding sunionstore_body_def by (rule union.store_set_watched)

interpretation sdiff1: total_command "sdiff_body (k # ks)" for k ks
  unfolding sdiff_body_def by (rule total_command_rnd) (rule diff.list_set_served)

interpretation sinter1: total_command "sinter_body (k # ks)" for k ks
  unfolding sinter_body_def by (rule total_command_rnd) (rule inter.list_set_served)

interpretation sunion1: total_command "sunion_body (k # ks)" for k ks
  unfolding sunion_body_def by (rule total_command_rnd) (rule union.list_set_served)

interpretation sdiffstore1: total_command "det (sdiffstore_body dest (k # ks))" for dest k ks
  unfolding sdiffstore_body_def by (rule total_command_det) (rule diff.store_set_served)

interpretation sinterstore1: total_command "det (sinterstore_body dest (k # ks))" for dest k ks
  unfolding sinterstore_body_def by (rule total_command_det) (rule inter.store_set_served)

interpretation sunionstore1: total_command "det (sunionstore_body dest (k # ks))" for dest k ks
  unfolding sunionstore_body_def by (rule total_command_det) (rule union.store_set_served)

subsection \<open>What the other bodies compute\<close>

lemma sadd_spec:
  assumes "wf_db db"
  shows "holds_list db key \<Longrightarrow> sadd_body key es db = Some (db, [TError msgWrongType])"
    and "set_or_absent db key \<Longrightarrow>
      \<exists>db'. sadd_body key es db = Some (db', [TInt (int (fcard (fset_of_list es |-| set_at key db)))]) \<and>
        changed key (Some (VSet (set_at key db |\<union>| fset_of_list es))) 1 db db'"
proof -
  show "holds_list db key \<Longrightarrow> sadd_body key es db = Some (db, [TError msgWrongType])"
    using not_set_iff [OF assms, of key] by (simp add: sadd_body_def)
  assume s: "set_or_absent db key"
  then have "\<not> holds_list db key" by (auto simp: set_or_absent_def holds_list_def)
  with setAdd_spec [OF assms s, of es] not_set_iff [OF assms, of key]
  show "\<exists>db'. sadd_body key es db = Some (db', [TInt (int (fcard (fset_of_list es |-| set_at key db)))]) \<and>
        changed key (Some (VSet (set_at key db |\<union>| fset_of_list es))) 1 db db'"
    by (cases "setAdd key es db") (auto simp: sadd_body_def)
qed

lemma scard_spec:
  assumes "wf_db db"
  shows "scard_body key db = Some (db,
    [if holds_list db key then TError msgWrongType else TInt (int (fcard (set_at key db)))])"
  using key_facts [OF assms, of key]
  by (cases rule: key_cases [of db key]) (auto simp: scard_body_def holds_list_def)

lemma sismember_spec:
  assumes "wf_db db"
  shows "sismember_body key v db = Some (db,
    [if holds_list db key then TError msgWrongType else TInt (if v |\<in>| set_at key db then 1 else 0)])"
  using key_facts [OF assms, of key]
  by (cases rule: key_cases [of db key]) (auto simp: sismember_body_def holds_list_def setIsMember_iff)

lemma setMembers_simps: "set_at k db = s \<Longrightarrow> setMembers k db = sorted_list_of_fset s"
  by (simp add: setMembers_def)

lemma sorted_list_of_fempty [simp]: "sorted_list_of_fset {||} = []"
  by (simp add: sorted_list_of_fset.rep_eq bot_fset.rep_eq)

lemma smembers_spec:
  assumes "wf_db db"
  shows "smembers_body key db = Some (db,
    (if holds_list db key then [TError msgWrongType]
     else TLen (int (fcard (set_at key db))) # map TBulk (sorted_list_of_fset (set_at key db))))"
proof (cases rule: key_cases [of db key])
  case absent
  with key_facts(1) [OF assms absent] show ?thesis by (simp add: smembers_body_def holds_list_def)
next
  case (list l)
  with key_facts(2) [OF assms list] show ?thesis by (simp add: smembers_body_def holds_list_def)
next
  case (set s)
  with key_facts(3) [OF assms set] show ?thesis
    by (simp add: smembers_body_def holds_list_def setMembers_simps Let_def)
      (simp add: sorted_list_of_fset.rep_eq fcard.rep_eq)
qed

lemma srem_spec:
  assumes "wf_db db" "value_of db key = Some (VSet s)"
  shows "\<exists>db' n. srem_body key fs db = Some (db', [TInt (int (fcard (s |\<inter>| fset_of_list fs)))]) \<and> 0 < n \<and>
    changed key (set_val (s |-| fset_of_list fs)) n db db'"
proof -
  from setRem_spec [OF assms, of fs] obtain db' n
    where "setRem key fs db = Some (int (fcard (s |\<inter>| fset_of_list fs)), db')" "0 < n"
      "changed key (set_val (s |-| fset_of_list fs)) n db db'" .
  then show ?thesis using key_facts(3) [OF assms] by (auto simp: srem_body_def)
qed

lemma changed_set_at:
  assumes "changed k (set_val s) n db db'"
  shows "set_at k db' = s"
  using assms changed_wf [OF assms] set_at_simps(1,3) [OF changed_wf [OF assms], of k]
  by (auto simp: changed_def set_val_def split: if_splits)

text \<open>What SMOVE leaves: the member in the destination, and not in a different source.\<close>

definition moved :: "string \<Rightarrow> string \<Rightarrow> string \<Rightarrow> RedisDB \<Rightarrow> setKey \<Rightarrow> string \<Rightarrow> val option" where
  "moved src dst member db s =
     (if src = dst then value_of db
      else (value_of db)(src := set_val (s |-| {|member|}),
                         dst := Some (VSet (finsert member (set_at dst db)))))"

lemma smove_spec:
  assumes "wf_db db" "value_of db src = Some (VSet s)" "member |\<in>| s" "set_or_absent db dst"
  shows "\<exists>db' g. smove_body src dst member db = Some (db', [TInt 1]) \<and> wf_db db' \<and> evolves g db db' \<and>
    value_of db' = moved src dst member db s"
proof -
  obtain db1 n where r: "setRem src [member] db = Some (int (fcard (s |\<inter>| {|member|})), db1)" "0 < n"
    and c1: "changed src (set_val (s |-| {|member|})) n db db1"
    using setRem_spec [OF assms(1,2), of "[member]"] by auto
  note wf1 = changed_wf [OF c1]
  have d1: "set_or_absent db1 dst"
    using assms(4) c1 by (auto simp: set_or_absent_def changed_def set_val_def)
  obtain k db2 where a: "setAdd dst [member] db1 = (k, db2)" by force
  with setAdd_spec [OF wf1 d1, of "[member]"]
  have c2: "changed dst (Some (VSet (set_at dst db1 |\<union>| {|member|}))) 1 db1 db2" by simp
  have at1: "set_at dst db1 = (if src = dst then s |-| {|member|} else set_at dst db)"
  proof (cases "src = dst")
    case True
    with changed_set_at [OF c1] show ?thesis by simp
  next
    case False
    then have v: "value_of db1 dst = value_of db dst" using c1 by (simp add: changed_def)
    with assms(4) False show ?thesis
      using set_at_simps [OF wf1, of dst] set_at_simps [OF assms(1), of dst]
      by (auto simp: set_or_absent_def)
  qed
  have "s |-| {|member|} |\<union>| {|member|} = s" using assms(3) by auto
  then have "value_of db2 = moved src dst member db s"
    using c1 c2 at1 assms(2) by (auto simp: changed_def moved_def)
  moreover have "evolves (\<lambda>k. ((\<lambda>_. 0)(src := n)) k + ((\<lambda>_. 0)(dst := 1)) k) db db2"
    by (rule evolves_trans [OF changed_evolves [OF c1 r(2)] changed_evolves [OF c2]]) simp
  moreover have "smove_body src dst member db = Some (db2, [TInt 1])"
  proof -
    have "\<not> (db_exists dst db \<and> db_t dst db \<noteq> ''set'')"
      using assms(4) not_set_iff [OF assms(1)] by (auto simp: set_or_absent_def holds_list_def)
    with key_facts(3) [OF assms(1,2)] r(1) a assms(3) show ?thesis
      by (auto simp: smove_body_def setIsMember_iff)
  qed
  ultimately show ?thesis using changed_wf [OF c2] by blast
qed

lemma smove_noop:
  assumes "wf_db db"
  shows "value_of db src = None \<Longrightarrow> smove_body src dst m db = Some (db, [TInt 0])"
    and "holds_list db src \<Longrightarrow> smove_body src dst m db = Some (db, [TError msgWrongType])"
    and "value_of db src = Some (VSet s) \<Longrightarrow> holds_list db dst \<Longrightarrow>
      smove_body src dst m db = Some (db, [TError msgWrongType])"
    and "value_of db src = Some (VSet s) \<Longrightarrow> set_or_absent db dst \<Longrightarrow> m |\<notin>| s \<Longrightarrow>
      smove_body src dst m db = Some (db, [TInt 0])"
proof -
  show "value_of db src = None \<Longrightarrow> smove_body src dst m db = Some (db, [TInt 0])"
    using key_facts(1) [OF assms] by (simp add: smove_body_def)
  show "holds_list db src \<Longrightarrow> smove_body src dst m db = Some (db, [TError msgWrongType])"
    using key_facts(2) [OF assms] by (auto simp: smove_body_def holds_list_def)
  show "value_of db src = Some (VSet s) \<Longrightarrow> holds_list db dst \<Longrightarrow>
      smove_body src dst m db = Some (db, [TError msgWrongType])"
    using key_facts(2) [OF assms, of dst] key_facts(3) [OF assms, of src] by (auto simp: smove_body_def holds_list_def)
  assume s: "value_of db src = Some (VSet s)" "set_or_absent db dst" "m |\<notin>| s"
  have "\<not> (db_exists dst db \<and> db_t dst db \<noteq> ''set'')"
    using s(2) not_set_iff [OF assms] by (auto simp: set_or_absent_def holds_list_def)
  with key_facts(3) [OF assms s(1)] s(3)
  show "smove_body src dst m db = Some (db, [TInt 0])" by (auto simp: smove_body_def setIsMember_iff)
qed

lemma set_or_absent_iff: "set_or_absent db k \<longleftrightarrow> \<not> holds_list db k"
  by (cases rule: key_cases [of db k]) (auto simp: set_or_absent_def holds_list_def)

interpretation sadd: total_command "det (sadd_body key es)" for key es
proof (rule total_command_det)
  fix db
  assume wf: "wf_db db"
  show "served db (sadd_body key es db)"
  proof (cases "holds_list db key")
    case True
    with sadd_spec(1) [OF wf] show ?thesis by (simp add: served_read [OF wf])
  next
    case False
    with sadd_spec(2) [OF wf, of key es] set_or_absent_iff [of db key] show ?thesis
      by (blast intro: served_one reply.integer)
  qed
qed

interpretation scard: total_command "det (scard_body key)" for key
  by (rule total_command_det) (simp add: scard_spec served_read)

interpretation sismember: total_command "det (sismember_body key v)" for key v
  by (rule total_command_det) (simp add: sismember_spec served_read)

interpretation smembers: total_command "det (smembers_body key)" for key
  by (rule total_command_det)
    (simp add: smembers_spec served_read reply_bulks sorted_list_of_fset.rep_eq fcard.rep_eq)

interpretation smove: total_command "det (smove_body src dst member)" for src dst member
proof (rule total_command_det)
  fix db
  assume wf: "wf_db db"
  show "served db (smove_body src dst member db)"
  proof (cases rule: key_cases [of db src])
    case (set s)
    show ?thesis
    proof (cases "holds_list db dst")
      case True
      with smove_noop(3) [OF wf set] show ?thesis by (simp add: served_read [OF wf])
    next
      case False
      then have d: "set_or_absent db dst" by (simp add: set_or_absent_iff)
      show ?thesis
      proof (cases "member |\<in>| s")
        case True
        from smove_spec [OF wf set True d] show ?thesis by (fastforce intro: served_evolves)
      next
        case False
        with smove_noop(4) [OF wf set d] show ?thesis by (simp add: served_read [OF wf])
      qed
    qed
  qed (auto simp: smove_noop [OF wf] holds_list_def intro!: served_read [OF wf])
qed

interpretation srem: total_command "det (srem_body key fs)" for key fs
proof (rule total_command_det)
  fix db
  assume wf: "wf_db db"
  show "served db (srem_body key fs db)"
  proof (cases rule: key_cases [of db key])
    case (set s)
    from srem_spec [OF wf set, of fs] show ?thesis by (rule served_spec) simp
  qed (use key_facts [OF wf, of key] in \<open>auto simp: srem_body_def intro!: served_read [OF wf]\<close>)
qed

subsection \<open>The random commands\<close>

text \<open>
  SPOP takes as many distinct elements as it was asked for and the set has, and nothing else;
  the key goes with its last element.
\<close>

lemma spop_loop_spec:
  assumes "wf_db db" "set_or_absent db key"
  shows "\<exists>db' r' ds n. spop_loop i key r db del = Some (db', r', del @ ds) \<and>
    distinct ds \<and> set ds \<subseteq> fset (set_at key db) \<and> length ds = min i (fcard (set_at key db)) \<and>
    (if ds = [] then db' = db
     else 0 < n \<and> changed key (set_val (set_at key db |-| fset_of_list ds)) n db db')"
  using assms
proof (induction i arbitrary: r db del)
  case 0
  then show ?case by (intro exI [of _ db] exI [of _ r] exI [of _ "[]"]) simp
next
  case (Suc i)
  let ?s = "set_at key db"
  show ?case
  proof (cases "?s = {||}")
    case True
    then have "length (setMembers key db) = 0" by simp
    then show ?thesis using True
      by (intro exI [of _ db] exI [of _ r] exI [of _ "[]"]) (simp add: Let_def fcard_fempty)
  next
    case False
    with Suc.prems have v: "value_of db key = Some (VSet ?s)"
      using set_at_simps [OF Suc.prems(1), of key] by (auto simp: set_or_absent_def)
    let ?ms = "setMembers key db"
    have ne: "?ms \<noteq> []" using False by simp
    let ?j = "r 0 mod length ?ms"
    obtain x where x: "?ms ! ?j = x" by blast
    have "?j < length ?ms" using ne by (simp del: length_setMembers)
    then have "?ms ! ?j \<in> set ?ms" by (rule nth_mem)
    then have m: "x |\<in>| ?s" using x by simp
    obtain n1 db1 where r1: "setRem key [x] db = Some (int (fcard (?s |\<inter>| fset_of_list [x])), db1)"
      and n1: "0 < n1" and c1': "changed key (set_val (?s |-| fset_of_list [x])) n1 db db1"
      by (rule setRem_spec [OF Suc.prems(1) v, of "[x]"])
    from c1' have c1: "changed key (set_val (?s |-| {|x|})) n1 db db1" by simp
    note wf1 = changed_wf [OF c1] and at1 = changed_set_at [OF c1]
    have d1: "set_or_absent db1 key" using c1 by (auto simp: changed_def set_or_absent_def set_val_def)
    obtain db2 r2 ds n2 where l: "spop_loop i key (rng_next r) db1 (del @ [x]) = Some (db2, r2, (del @ [x]) @ ds)"
      and ds: "distinct ds" "set ds \<subseteq> fset (?s |-| {|x|})" "length ds = min i (fcard (?s |-| {|x|}))"
      and c2: "if ds = [] then db2 = db1
        else 0 < n2 \<and> changed key (set_val (?s |-| {|x|} |-| fset_of_list ds)) n2 db1 db2"
      using Suc.IH [OF wf1 d1, of "rng_next r" "del @ [x]"] unfolding at1 by blast
    have "spop_loop (Suc i) key r db del = Some (db2, r2, del @ (x # ds))"
      using ne r1 l x by (simp add: Intn_length Let_def del: length_setMembers)
    moreover have "length (x # ds) = min (Suc i) (fcard ?s)"
    proof -
      have "fcard ?s = Suc (fcard (?s |-| {|x|}))" using m by (rule fcard_Suc_fminus1 [symmetric])
      with ds(3) show ?thesis by simp
    qed
    moreover have "?s |-| fset_of_list (x # ds) = ?s |-| {|x|} |-| fset_of_list ds" by auto
    then have "\<exists>n > 0. changed key (set_val (?s |-| fset_of_list (x # ds))) n db db2"
      using c1 c2 n1 changed_trans [OF c1] by (cases "ds = []") (auto intro: exI [of _ "n1 + n2"])
    moreover have "distinct (x # ds)" "set (x # ds) \<subseteq> fset ?s" using ds m by auto
    ultimately show ?thesis by (intro exI [of _ db2] exI [of _ r2] exI [of _ "x # ds"]) auto
  qed
qed

lemma pick_loop_spec:
  "members \<noteq> [] \<Longrightarrow> \<exists>xs r'. pick_loop i members r = Some (xs, r') \<and> length xs = i \<and> set xs \<subseteq> set members"
proof (induction i arbitrary: r)
  case 0
  then show ?case by simp
next
  case (Suc i)
  let ?j = "r 0 mod length members"
  have "?j < length members" using Suc.prems by simp
  then have "members ! ?j \<in> set members" by (rule nth_mem)
  moreover obtain xs r' where "pick_loop i members (rng_next r) = Some (xs, r')" "length xs = i" "set xs \<subseteq> set members"
    using Suc by blast
  ultimately show ?case using Suc.prems
    by (intro exI [of _ "members ! ?j # xs"] exI [of _ r']) (simp add: Intn_length)
qed

lemma pick_loop_empty: "0 < i \<Longrightarrow> pick_loop i [] r = None"
  by (cases i) (simp_all add: Intn_def)

lemma mset_swap: "i < length xs \<Longrightarrow> j < length xs \<Longrightarrow> mset (swap i j xs) = mset xs"
  by (simp add: swap_def mset_swap)

lemma shuffle_loop_spec:
  "n = 0 \<or> m \<noteq> [] \<Longrightarrow> \<exists>m' r'. shuffle_loop n m r = Some (m', r') \<and> mset m' = mset m"
proof (induction n arbitrary: m r)
  case 0
  then show ?case by simp
next
  case (Suc n)
  then have ne: "m \<noteq> []" by simp
  let ?i = "r 0 mod length m" and ?j = "rng_next r 0 mod length m"
  have ms: "mset (swap ?i ?j m) = mset m" using ne by (intro Sets.mset_swap) simp_all
  then have "swap ?i ?j m \<noteq> []" using ne by (metis mset_zero_iff)
  then obtain m' r' where "shuffle_loop n (swap ?i ?j m) (rng_next (rng_next r)) = Some (m', r')"
    "mset m' = mset (swap ?i ?j m)" using Suc.IH by blast
  with ne ms show ?case by (intro exI [of _ m'] exI [of _ r']) (simp add: Intn_length)
qed

lemma shuffle_spec: "\<exists>m' r'. shuffle m r = Some (m', r') \<and> mset m' = mset m"
  unfolding shuffle_def by (rule shuffle_loop_spec) simp

text \<open>
  SRANDMEMBER on a non-empty set: one element; with a count, that many distinct elements or
  all of them; with a negative count, exactly that many with repetition.
\<close>

lemma srandmember_spec:
  assumes "wf_db db" "value_of db key = Some (VSet s)" "s \<noteq> {||}" "in_int cnt" "cnt \<noteq> min_int"
    and "\<not> withCount \<Longrightarrow> 0 \<le> cnt"
  shows "\<exists>r' xs. srandmember_body key cnt withCount r db =
      Some (db, r', if withCount then TLen (int (length xs)) # map TBulk xs else [TBulk (hd xs)]) \<and>
    set xs \<subseteq> fset s \<and> (\<not> withCount \<longrightarrow> xs \<noteq> []) \<and>
    (withCount \<and> cnt < 0 \<longrightarrow> length xs = nat (- cnt)) \<and>
    (withCount \<and> 0 \<le> cnt \<longrightarrow> distinct xs \<and> length xs = min (nat cnt) (fcard s))"
proof -
  note e = key_facts(3) [OF assms(1,2)]
  let ?ms = "setMembers key db"
  have ms: "set ?ms = fset s" "length ?ms = fcard s" "?ms \<noteq> []" "distinct ?ms"
    using e assms(3) by simp_all (simp add: setMembers_def sorted_list_of_fset.rep_eq)
  show ?thesis
  proof (cases "cnt < 0")
    case True
    then have wc: withCount using assms(6) by auto
    have neg: "i64 (- cnt) = - cnt" using assms(4,5) True by (simp add: int_bounds)
    from pick_loop_spec [OF ms(3), of "nat (- cnt)" r] obtain xs r'
      where p: "pick_loop (nat (- cnt)) ?ms r = Some (xs, r')" "length xs = nat (- cnt)" "set xs \<subseteq> set ?ms"
      by blast
    then show ?thesis using e True wc neg ms(1)
      by (intro exI [of _ r'] exI [of _ xs]) (simp add: srandmember_body_def Let_def)
  next
    case False
    obtain m' r' where sh: "shuffle ?ms r = Some (m', r')" and ms': "mset m' = mset ?ms"
      using shuffle_spec by blast
    have m': "set m' = fset s" "length m' = fcard s" "distinct m'"
      using ms ms' by (metis set_mset_mset, metis size_mset, metis distinct_count_atmost_1 mset_eq_setD)
    then have ne: "m' \<noteq> []" using ms by auto
    let ?n = "if cnt > int (length m') then int (length m') else cnt"
    show ?thesis
    proof (cases withCount)
      case True
      have "int (length (take (nat ?n) m')) = ?n" using False by auto
      moreover have "length (take (nat ?n) m') = min (nat cnt) (fcard s)" using False m'(2) by auto
      moreover have "srandmember_body key cnt withCount r db = Some (db, r', TLen ?n # map TBulk (take (nat ?n) m'))"
        using e False True sh by (simp add: srandmember_body_def Let_def)
      moreover have "set (take (nat ?n) m') \<subseteq> fset s" using m'(1) set_take_subset by fastforce
      ultimately show ?thesis using False True m'(3)
        by (intro exI [of _ r'] exI [of _ "take (nat ?n) m'"]) simp
    next
      case nc: False
      obtain x xs where m: "m' = x # xs" using ne by (cases m') auto
      have "srandmember_body key cnt withCount r db = Some (db, r', [TBulk x])"
        using e False nc sh m by (simp add: srandmember_body_def Let_def)
      then show ?thesis using m nc m'(1)
        by (intro exI [of _ r'] exI [of _ "[x]"]) auto
    qed
  qed
qed

text \<open>On a stored empty set, the plain form and the negative count panic.\<close>

lemma srandmember_empty:
  assumes "wf_db db" "value_of db key = Some (VSet {||})"
  shows "srandmember_body key cnt withCount r db =
    (if cnt < 0 \<or> \<not> withCount then None else Some (db, r, [TLen 0]))"
proof -
  note e = key_facts(3) [OF assms]
  have ms: "setMembers key db = []" using e by simp
  show ?thesis
    by (simp add: srandmember_body_def e ms pick_loop_empty shuffle_def del: setMembers_Nil length_setMembers)
qed

lemma srandmember_watched:
  assumes "in_int cnt" "cnt \<noteq> min_int" "\<not> withCount \<Longrightarrow> 0 \<le> cnt"
  shows "watched_command (srandmember_body key cnt withCount)"
proof (rule watched_command_rnd)
  fix r db
  assume wf: "wf_db db"
  show "srandmember_body key cnt withCount r db = None \<or> served_r db (srandmember_body key cnt withCount r db)"
  proof (cases rule: key_cases [of db key])
    case (set s)
    show ?thesis
    proof (cases "s = {||}")
      case True
      with srandmember_empty [OF wf set [unfolded True]] show ?thesis
        by (simp add: served_r_read [OF wf])
    next
      case False
      from srandmember_spec [OF wf set this assms, where r = r] obtain r' xs
        where run: "srandmember_body key cnt withCount r db =
          Some (db, r', if withCount then TLen (int (length xs)) # map TBulk xs else [TBulk (hd xs)])"
        by blast
      have "reply (if withCount then TLen (int (length xs)) # map TBulk xs else [TBulk (hd xs)])"
        by (simp add: reply_bulks)
      from served_r_read [OF wf this] run show ?thesis by simp
    qed
  qed (use key_facts [OF wf, of key] in \<open>auto simp: srandmember_body_def intro!: served_r_read [OF wf]\<close>)
qed

interpretation spop: total_command "spop_body key cnt withCount" for key cnt withCount
proof (rule total_command_rnd)
  fix r db
  assume wf: "wf_db db"
  show "served_r db (spop_body key cnt withCount r db)"
  proof (cases rule: key_cases [of db key])
    case (set s)
    then have "set_or_absent db key" by (simp add: set_or_absent_def)
    then obtain db' r' ds n where l: "spop_loop (nat cnt) key r db [] = Some (db', r', [] @ ds)"
      and c: "if ds = [] then db' = db
        else 0 < n \<and> changed key (set_val (set_at key db |-| fset_of_list ds)) n db db'"
      using spop_loop_spec [OF wf] by blast
    have "\<exists>g. wf_db db' \<and> evolves g db db'"
      using c wf changed_wf changed_evolves by (cases "ds = []") (auto, blast)
    moreover have "reply (if \<not> withCount then (case ds of [] \<Rightarrow> [TNull] | d # _ \<Rightarrow> [TBulk d])
        else TLen (int (length ds)) # map TBulk ds)"
      by (simp add: reply_bulks split: list.split)
    ultimately show ?thesis
      using l key_facts(3) [OF wf set] by (auto simp: spop_body_def intro: served_r_evolves)
  qed (use key_facts [OF wf, of key] in \<open>auto simp: spop_body_def intro!: served_r_read [OF wf]\<close>)
qed

lemma spop_cb_cases:
  "spop_cb key args m c = Some (m', c') \<Longrightarrow>
     (\<exists>cnt wc. on_db (spop_body key cnt wc) m c = Some (m', c')) \<or>
     (m' = snd (m_db (selectedDB (ctx c)) m) \<and> c' = WriteError msgInvalidInt (setDirty c))"
  by (cases args) (auto simp: spop_cb_def case_prod_unfold Let_def simp del: bind_Some_iff
      split: option.split_asm if_split_asm)

interpretation spop_cb: watched_callback "spop_cb key args" for key args
proof
  fix m c m' c'
  assume wf: "wf_m m" and run: "spop_cb key args m c = Some (m', c')"
  let ?i = "selectedDB (ctx c)"
  consider (body) cnt wc where "on_db (spop_body key cnt wc) m c = Some (m', c')"
    | (error) "m' = snd (m_db ?i m)" "c' = WriteError msgInvalidInt (setDirty c)"
    using spop_cb_cases [OF run] by blast
  then have "wf_m m' \<and> same_env m m' \<and> (\<exists>ts. reply ts \<and> wrote ts c c') \<and> m_evolves m m'"
  proof cases
    case body
    from spop.cb_wf [OF wf body] spop.cb_env [OF wf body] spop.cb_reply [OF wf body]
      spop.cb_evolves [OF wf body] show ?thesis by blast
  next
    case error
    have "wrote ([] @ [TError msgInvalidInt]) c c'"
      unfolding error(2) WriteError_def by (rule wrote_trans [OF wrote_setDirty wrote_emit])
    then have "\<exists>ts. reply ts \<and> wrote ts c c'" by (intro exI [of _ "[TError msgInvalidInt]"]) simp
    moreover have "m_evolves m m'" unfolding error(1) m_evolves_def using evolves_refl by auto
    moreover have "same_env m m'" unfolding error(1) by (simp add: same_env_def)
    ultimately show ?thesis using wf error(1) by auto
  qed
  then show "wf_m m'" "same_env m m'" "\<exists>ts. reply ts \<and> wrote ts c c'" "m_evolves m m'" by blast+
qed

interpretation sscan: watched_command "det (sscan_body compile key cursor match)" for compile key cursor match
proof (rule watched_command_det)
  fix db
  assume wf: "wf_db db"
  have r: "reply ([TLen 2, TBulk ''0'', TLen (int (length xs))] @ map TBulk xs)" for xs
    using reply_pair [OF reply.bulk reply_bulks [OF refl], of "''0''" xs] by simp
  let ?page = "case match of None \<Rightarrow> Some (setMembers key db) | Some p \<Rightarrow> matchKeys compile (setMembers key db) p"
  consider "cursor \<noteq> 0" | "cursor = 0" "holds_list db key"
    | "cursor = 0" "\<not> holds_list db key" "?page = None"
    | xs where "cursor = 0" "\<not> holds_list db key" "?page = Some xs" by blast
  then show "sscan_body compile key cursor match db = None \<or> served db (sscan_body compile key cursor match db)"
  proof cases
    case 1
    then show ?thesis using served_read [OF wf r [of "[]"]] by (simp add: sscan_body_def)
  next
    case 2
    then show ?thesis using not_set_iff [OF wf, of key] by (simp add: sscan_body_def served_read [OF wf])
  next
    case 3
    then show ?thesis using not_set_iff [OF wf, of key] by (auto simp: sscan_body_def)
  next
    case 4
    then show ?thesis using not_set_iff [OF wf, of key] served_read [OF wf r [of xs]]
      by (auto simp: sscan_body_def)
  qed
qed

end
