(* ===== verification/Generic.thy ===== *)
theory Generic
  imports Command Keys
begin

text \<open>
  The bodies of the generic commands (\<open>cmd_generic.go\<close>) and of the server commands
  (\<open>cmd_server.go\<close>), with their contracts and what they do to the keyspace. MOVE works on two
  databases and FLUSHALL on all, so they are whole callbacks. FLUSHDB and FLUSHALL keep the
  contract of a callback but not of a watched one: a flush moves no version.
\<close>

subsection \<open>Bodies\<close>

fun del_loop :: "string list \<Rightarrow> int \<Rightarrow> RedisDB \<Rightarrow> (int \<times> RedisDB) option" where
  "del_loop [] n db = Some (n, db)"
| "del_loop (key # ks) n db =
     (let n = (if db_exists key db then n + 1 else n)
      in do { db \<leftarrow> db_del key db; del_loop ks n db })"

definition del_body :: "string list \<Rightarrow> RedisDB \<Rightarrow> (RedisDB \<times> token list) option" where
  "del_body args db = do { (n, db) \<leftarrow> del_loop args 0 db; Some (db, [TInt n]) }"

definition type_body :: "string \<Rightarrow> RedisDB \<Rightarrow> (RedisDB \<times> token list) option" where
  "type_body key db =
     (case fmlookup (keys db) key of
        None \<Rightarrow> Some (db, [TInline ''none''])
      | Some ty \<Rightarrow> Some (db, [TInline ty]))"

fun exists_loop :: "string list \<Rightarrow> int \<Rightarrow> RedisDB \<Rightarrow> int" where
  "exists_loop [] found db = found"
| "exists_loop (k # ks) found db = exists_loop ks (if db_exists k db then found + 1 else found) db"

definition exists_body :: "string list \<Rightarrow> RedisDB \<Rightarrow> (RedisDB \<times> token list) option" where
  "exists_body args db = Some (db, [TInt (exists_loop args 0 db)])"

definition move_cb :: "string \<Rightarrow> int \<Rightarrow> RediQueue \<Rightarrow> peer \<Rightarrow> (RediQueue \<times> peer) option" where
  "move_cb key targetDB m c =
     (if selectedDB (ctx c) = targetDB
      then Some (m, WriteError ''ERR source and destination objects are the same'' c)
      else
        let (db, m) = m_db (selectedDB (ctx c)) m;
            (to, m) = m_db targetDB m
        in do {
          (moved, db, to) \<leftarrow> db_move key db to;
          let m = put_db targetDB to (put_db (selectedDB (ctx c)) db m);
          Some (m, WriteInt (if \<not> moved then 0 else 1) c)
        })"

definition keys_body :: "(string \<Rightarrow> (string \<Rightarrow> bool) option) \<Rightarrow> string \<Rightarrow> RedisDB \<Rightarrow> (RedisDB \<times> token list) option" where
  "keys_body compile key db = do {
     ks \<leftarrow> matchKeys compile (allKeys db) key;
     Some (db, TLen (int (length ks)) # map TBulk ks)
   }"

definition randomkey_body :: dbcmd where
  "randomkey_body r db =
     (if fcard (fmdom (keys db)) = 0 then Some (db, r, [TNull])
      else do {
        (nr, r) \<leftarrow> Intn (int (fcard (fmdom (keys db)))) r;
        let (order, r) = range_order r (allKeys db);
        Some (db, r, [TBulk (order ! nr)])
      })"

definition rename_body :: "string \<Rightarrow> string \<Rightarrow> RedisDB \<Rightarrow> (RedisDB \<times> token list) option" where
  "rename_body from to db =
     (if \<not> db_exists from db then Some (db, [TError msgKeyNotFound])
      else do { db \<leftarrow> db_rename from to db; Some (db, [TInline ''OK'']) })"

definition renamenx_body :: "string \<Rightarrow> string \<Rightarrow> RedisDB \<Rightarrow> (RedisDB \<times> token list) option" where
  "renamenx_body from to db =
     (if \<not> db_exists from db then Some (db, [TError msgKeyNotFound])
      else if db_exists to db then Some (db, [TInt 0])
      else do { db \<leftarrow> db_rename from to db; Some (db, [TInt 1]) })"

definition scan_body :: "(string \<Rightarrow> (string \<Rightarrow> bool) option) \<Rightarrow> int \<Rightarrow> string option \<Rightarrow>
    RedisDB \<Rightarrow> (RedisDB \<times> token list) option" where
  "scan_body compile cursor match db =
     (if cursor \<noteq> 0 then Some (db, [TLen 2, TBulk ''0'', TLen 0])
      else do {
        let ks = allKeys db;
        ks \<leftarrow> (case match of None \<Rightarrow> Some ks | Some p \<Rightarrow> matchKeys compile ks p);
        Some (db, [TLen 2, TBulk ''0'', TLen (int (length ks))] @ map TBulk ks)
      })"

definition dbsize_body :: "RedisDB \<Rightarrow> (RedisDB \<times> token list) option" where
  "dbsize_body db = Some (db, [TInt (int (fcard (fmdom (keys db))))])"

definition flushdb_body :: "RedisDB \<Rightarrow> (RedisDB \<times> token list) option" where
  "flushdb_body db = Some (flush db, [TInline ''OK''])"

definition flushAll :: "RediQueue \<Rightarrow> RediQueue" where
  "flushAll m = m\<lparr>dbs := fmmap flush (dbs m)\<rparr>"

definition flushall_cb :: "RediQueue \<Rightarrow> peer \<Rightarrow> (RediQueue \<times> peer) option" where
  "flushall_cb m c = Some (flushAll m, WriteOK c)"

lemmas generic_body_defs [cmd_defs] = del_body_def type_body_def exists_body_def move_cb_def
  keys_body_def randomkey_body_def rename_body_def renamenx_body_def scan_body_def
  dbsize_body_def flushdb_body_def flushAll_def flushall_cb_def

subsection \<open>What they compute\<close>

text \<open>DEL removes its keys, counts each present one once, and moves the version of just those.\<close>

lemma del_loop_spec:
  assumes "wf_db db"
  shows "\<exists>db'. del_loop ks n db = Some (n + int (card {k \<in> set ks. value_of db k \<noteq> None}), db') \<and>
    wf_db db' \<and> value_of db' = (\<lambda>k. if k \<in> set ks then None else value_of db k) \<and>
    evolves (\<lambda>k. if k \<in> set ks \<and> value_of db k \<noteq> None then 1 else 0) db db'"
  using assms
proof (induction ks arbitrary: n db)
  case Nil
  then show ?case by auto
next
  case (Cons key ks)
  obtain db1 j where d: "db_del key db = Some db1" "changed key None j db db1"
    and j: "j = (if value_of db key = None then 0 else 1)"
    using db_del_spec [OF Cons.prems] by blast
  note wf1 = changed_wf [OF d(2)]
  let ?n = "if db_exists key db then n + 1 else n"
  obtain db2 where l: "del_loop ks ?n db1 = Some (?n + int (card {k \<in> set ks. value_of db1 k \<noteq> None}), db2)"
    and wf2: "wf_db db2" and v2: "value_of db2 = (\<lambda>k. if k \<in> set ks then None else value_of db1 k)"
    and e2: "evolves (\<lambda>k. if k \<in> set ks \<and> value_of db1 k \<noteq> None then 1 else 0) db1 db2"
    using Cons.IH [OF wf1, of ?n] by blast
  have v1: "value_of db1 = (value_of db)(key := None)" using d(2) by (simp add: changed_def)
  have e1: "evolves ((\<lambda>_. 0)(key := j)) db db1"
    using d(2) j by (auto simp: changed_def evolves_def)
  have sets: "{k \<in> set (key # ks). value_of db k \<noteq> None} =
      (if value_of db key \<noteq> None then insert key {k \<in> set ks. value_of db1 k \<noteq> None}
       else {k \<in> set ks. value_of db1 k \<noteq> None})"
    by (auto simp: v1)
  have "key \<notin> {k \<in> set ks. value_of db1 k \<noteq> None}" by (simp add: v1)
  then have "?n + int (card {k \<in> set ks. value_of db1 k \<noteq> None}) =
      n + int (card {k \<in> set (key # ks). value_of db k \<noteq> None})"
    unfolding sets by (simp add: db_exists_iff)
  moreover have "(\<lambda>k. ((\<lambda>_. 0)(key := j)) k + (if k \<in> set ks \<and> value_of db1 k \<noteq> None then 1 else 0)) =
      (\<lambda>k. if k \<in> set (key # ks) \<and> value_of db k \<noteq> None then 1 else 0)"
    by (auto simp: fun_eq_iff v1 j)
  with evolves_trans [OF e1 e2]
  have "evolves (\<lambda>k. if k \<in> set (key # ks) \<and> value_of db k \<noteq> None then 1 else 0) db db2" by simp
  ultimately show ?case using d(1) l wf2
    by (intro exI [of _ db2]) (auto simp: v2 v1 fun_eq_iff)
qed

lemma exists_loop_eq:
  "exists_loop ks n db = n + int (length (filter (\<lambda>k. value_of db k \<noteq> None) ks))"
  by (induction ks n db rule: exists_loop.induct) (auto simp: db_exists_iff)

lemma rename_spec:
  assumes "wf_db db" "value_of db from = Some v"
  shows "from \<noteq> to \<Longrightarrow>
      \<exists>db'. rename_body from to db = Some (db', [TInline ''OK'']) \<and> wf_db db' \<and> (\<exists>g. evolves g db db') \<and>
        value_of db' = (value_of db)(to := Some v, from := None)"
    and "rename_body from from db = None"
proof -
  show "rename_body from from db = None"
    using assms by (simp add: rename_body_def db_exists_iff db_rename_same)
  assume ne: "from \<noteq> to"
  from db_rename_spec [OF assms ne] obtain db' where r: "db_rename from to db = Some db'" "wf_db db'" "db_id db' = db_id db"
    "value_of db' = (value_of db)(to := Some v, from := None)"
    "keyVer db' = (keyVer db)(from := keyVer db from + 1, to := keyVer db to + (if value_of db to = None then 1 else 2))" .
  have "evolves ((\<lambda>_. 0)(from := 1, to := (if value_of db to = None then 1 else 2))) db db'"
    using r(3-5) ne by (auto simp: evolves_def)
  with r(1,2,4) assms show "\<exists>db'. rename_body from to db = Some (db', [TInline ''OK'']) \<and> wf_db db' \<and>
      (\<exists>g. evolves g db db') \<and> value_of db' = (value_of db)(to := Some v, from := None)"
    by (auto simp: rename_body_def db_exists_iff)
qed

lemma renamenx_eq:
  "wf_db db \<Longrightarrow> renamenx_body from to db =
    (if value_of db from \<noteq> None \<and> value_of db to \<noteq> None then Some (db, [TInt 0])
     else map_option (\<lambda>(db', ts). (db', if value_of db from = None then ts else [TInt 1])) (rename_body from to db))"
  by (cases "db_rename from to db") (auto simp: renamenx_body_def rename_body_def db_exists_iff)

lemma length_allKeys: "length (allKeys db) = fcard (fmdom (keys db))"
  by (simp add: allKeys_def sorted_list_of_fset.rep_eq fcard.rep_eq)

lemma randomkey_spec:
  "\<exists>r' ts. randomkey_body r db = Some (db, r', ts) \<and>
     (if value_of db = Map.empty then ts = [TNull] else \<exists>k. value_of db k \<noteq> None \<and> ts = [TBulk k])"
proof (cases "fcard (fmdom (keys db)) = 0")
  case True
  then have "value_of db = Map.empty"
    using fmdom_keys [of _ db] by (auto simp: fun_eq_iff)
  with True show ?thesis by (simp add: randomkey_body_def)
next
  case False
  let ?n = "length (allKeys db)"
  have n: "?n \<noteq> 0" using False by (simp add: length_allKeys)
  obtain order r' where o: "range_order (rng_next r) (allKeys db) = (order, r')" by force
  then have ord: "set order = set (allKeys db)" "length order = ?n"
    by (metis fst_conv set_range_order, metis fst_conv length_range_order)
  have "r 0 mod ?n < length order" using n ord by simp
  then have "order ! (r 0 mod ?n) \<in> set (allKeys db)" using ord nth_mem by metis
  then have k: "value_of db (order ! (r 0 mod ?n)) \<noteq> None" by (simp add: set_allKeys)
  moreover have "randomkey_body r db = Some (db, r', [TBulk (order ! (r 0 mod ?n))])"
    using False o by (simp add: randomkey_body_def Intn_def length_allKeys)
  moreover from k have "value_of db \<noteq> Map.empty" by auto
  ultimately show ?thesis by auto
qed

subsection \<open>Contracts\<close>

interpretation del: total_command "det (del_body ks)" for ks
proof (rule total_command_det)
  fix db
  assume "wf_db db"
  from del_loop_spec [OF this, of ks 0] show "served db (del_body ks db)"
    by (fastforce simp: del_body_def intro: served_evolves)
qed

interpretation type: total_command "det (type_body key)" for key
  by (rule total_command_det) (simp add: type_body_def served_read split: option.split)

interpretation exists: total_command "det (exists_body ks)" for ks
  by (rule total_command_det) (simp add: exists_body_def served_read)

interpretation dbsize: total_command "det dbsize_body"
  by (rule total_command_det) (simp add: dbsize_body_def served_read)

interpretation randomkey: total_command randomkey_body
proof (rule total_command_rnd)
  fix r db
  assume wf: "wf_db db"
  obtain r' ts where r: "randomkey_body r db = Some (db, r', ts)"
    and ts: "if value_of db = Map.empty then ts = [TNull] else \<exists>k. value_of db k \<noteq> None \<and> ts = [TBulk k]"
    using randomkey_spec by blast
  from ts have "reply ts" by (auto split: if_splits)
  with r show "served_r db (randomkey_body r db)" by (simp add: served_r_read [OF wf])
qed

interpretation keys: watched_command "det (keys_body compile key)" for compile key
proof (rule watched_command_det)
  fix db
  assume "wf_db db"
  then show "keys_body compile key db = None \<or> served db (keys_body compile key db)"
    by (cases "matchKeys compile (allKeys db) key") (simp_all add: keys_body_def served_read reply_bulks)
qed

lemma served_rename: "wf_db db \<Longrightarrow> rename_body from to db = None \<or> served db (rename_body from to db)"
proof (cases "value_of db from")
  case None
  assume "wf_db db"
  with None show ?thesis by (simp add: rename_body_def db_exists_iff served_read)
next
  case (Some v)
  assume wf: "wf_db db"
  show ?thesis
  proof (cases "from = to")
    case True
    with rename_spec(2) [OF wf Some] show ?thesis by simp
  next
    case False
    from rename_spec(1) [OF wf Some False] show ?thesis by (fastforce intro: served_evolves)
  qed
qed

interpretation rename: watched_command "det (rename_body from to)" for "from" to
  by (rule watched_command_det) (rule served_rename)

interpretation renamenx: total_command "det (renamenx_body from to)" for "from" to
proof (rule total_command_det)
  fix db
  assume wf: "wf_db db"
  consider "value_of db from = None" | "value_of db from \<noteq> None" "value_of db to \<noteq> None"
    | v where "value_of db from = Some v" "value_of db to = None" by blast
  then show "served db (renamenx_body from to db)"
  proof cases
    case 3
    then have "from \<noteq> to" by auto
    from rename_spec(1) [OF wf 3(1) this] 3 show ?thesis
      by (fastforce simp: renamenx_eq [OF wf] intro: served_evolves)
  qed (simp_all add: renamenx_body_def db_exists_iff served_read [OF wf])
qed

interpretation scan: watched_command "det (scan_body compile cursor match)" for compile cursor match
proof (rule watched_command_det)
  fix db
  assume wf: "wf_db db"
  have r: "reply ([TLen 2, TBulk ''0'', TLen (int (length xs))] @ map TBulk xs)" for xs
    using reply_pair [OF reply.bulk reply_bulks [OF refl], of "''0''" xs] by simp
  let ?page = "case match of None \<Rightarrow> Some (allKeys db) | Some p \<Rightarrow> matchKeys compile (allKeys db) p"
  consider "cursor \<noteq> 0" | "cursor = 0" "?page = None" | xs where "cursor = 0" "?page = Some xs" by blast
  then show "scan_body compile cursor match db = None \<or> served db (scan_body compile cursor match db)"
  proof cases
    case 1
    then show ?thesis using served_read [OF wf r [of "[]"]] by (simp add: scan_body_def)
  next
    case 2
    then show ?thesis by (simp add: scan_body_def)
  next
    case 3
    then show ?thesis using served_read [OF wf r [of xs]] by (simp add: scan_body_def)
  qed
qed

interpretation flushdb: db_command "det flushdb_body"
proof
  fix r r' and db db' :: RedisDB and ts
  assume "det flushdb_body r db = Some (db', r', ts)"
  then show "wf_db db' \<and> db_id db' = db_id db" "reply ts"
    by (auto simp: det_def flushdb_body_def) (simp add: flush_def)
qed

lemma db_id_simps [simp]: "db_id (flush db) = db_id db" "db_id (newRedisDB i) = i"
  by (simp_all add: flush_def newRedisDB_def)

lemma the_db_flushAll:
  "the_db (flushAll m) i = (if fmlookup (dbs m) i = None then newRedisDB i else flush (the_db m i))"
  by (auto simp: the_db_def flushAll_def split: option.split)

interpretation flushall: total_callback flushall_cb
proof
  fix m m' and c c' :: peer
  assume wf: "wf_m m" and "flushall_cb m c = Some (m', c')"
  then have eq: "m' = flushAll m" "c' = WriteOK c" by (auto simp: flushall_cb_def)
  show "wf_m m'"
    using wf unfolding eq wf_m_def the_db_flushAll by (auto simp: db_id_simps)
  show "same_env m m'" by (simp add: eq same_env_def flushAll_def)
  show "\<exists>ts. reply ts \<and> wrote ts c c'" unfolding eq
    by (intro exI [of _ "[TInline ''OK'']"]) (simp add: write_defs)
next
  fix m and c :: peer
  show "flushall_cb m c \<noteq> None" by (simp add: flushall_cb_def)
qed

text \<open>MOVE either answers and changes nothing, or takes the key from one database to the other.\<close>

lemma move_cb_spec:
  assumes "wf_m m" "selectedDB (ctx c) \<noteq> target"
  shows "\<exists>b m'. move_cb key target m c = Some (m', WriteInt (if b then 1 else 0) c) \<and> same_env m m' \<and>
    (b \<longleftrightarrow> value_of (the_db m (selectedDB (ctx c))) key \<noteq> None \<and> value_of (the_db m target) key = None) \<and>
    (if b then
       changed key None 1 (the_db m (selectedDB (ctx c))) (the_db m' (selectedDB (ctx c))) \<and>
       changed key (value_of (the_db m (selectedDB (ctx c))) key) 1 (the_db m target) (the_db m' target) \<and>
       (\<forall>i. i \<noteq> selectedDB (ctx c) \<longrightarrow> i \<noteq> target \<longrightarrow> the_db m' i = the_db m i)
     else \<forall>i. the_db m' i = the_db m i)"
proof -
  let ?i = "selectedDB (ctx c)"
  let ?db = "the_db m ?i" and ?to = "the_db m target"
  let ?m1 = "snd (m_db ?i m)"
  let ?m2 = "snd (m_db target ?m1)"
  have "wf_db ?db" "wf_db ?to" using assms(1) by auto
  then obtain b db' to' where mv: "db_move key ?db ?to = Some (b, db', to')"
    and b: "b \<longleftrightarrow> value_of ?db key \<noteq> None \<and> value_of ?to key = None"
    and c1: "b \<Longrightarrow> changed key None 1 ?db db'" and c2: "b \<Longrightarrow> changed key (value_of ?db key) 1 ?to to'"
    and nb: "\<not> b \<Longrightarrow> db' = ?db \<and> to' = ?to"
    using db_move_spec by metis
  let ?m' = "put_db target to' (put_db ?i db' ?m2)"
  have "move_cb key target m c = Some (?m', WriteInt (if b then 1 else 0) c)"
    using assms(2) mv by (simp add: move_cb_def case_prod_unfold Let_def)
  moreover have "same_env m ?m'" by (simp add: same_env_def)
  ultimately show ?thesis using b c1 c2 nb assms(2)
    by (intro exI [of _ b] exI [of _ ?m']) auto
qed

interpretation move: watched_callback "move_cb key target" for key target
proof
  fix m c m' c'
  assume wf: "wf_m m" and run: "move_cb key target m c = Some (m', c')"
  have "wf_m m' \<and> same_env m m' \<and> (\<exists>ts. reply ts \<and> wrote ts c c') \<and> m_evolves m m'"
  proof (cases "selectedDB (ctx c) = target")
    case True
    with run have eq: "m' = m" "c' = WriteError ''ERR source and destination objects are the same'' c"
      by (auto simp: move_cb_def)
    have "\<exists>ts. reply ts \<and> wrote ts c c'" unfolding eq WriteError_def
      using wrote_emit reply.error by blast
    with eq wf show ?thesis by simp
  next
    case False
    let ?i = "selectedDB (ctx c)"
    obtain b where c': "c' = WriteInt (if b then 1 else 0) c" and env: "same_env m m'"
      and d: "if b then
       changed key None 1 (the_db m ?i) (the_db m' ?i) \<and>
       changed key (value_of (the_db m ?i) key) 1 (the_db m target) (the_db m' target) \<and>
       (\<forall>i. i \<noteq> ?i \<longrightarrow> i \<noteq> target \<longrightarrow> the_db m' i = the_db m i)
     else \<forall>i. the_db m' i = the_db m i"
      using move_cb_spec [OF wf False, of key] run by auto
    have one: "wf_db (the_db m' j) \<and> db_id (the_db m' j) = j \<and> (\<exists>g. evolves g (the_db m j) (the_db m' j))" for j
    proof (cases "b \<and> (j = ?i \<or> j = target)")
      case True
      then obtain v where "changed key v 1 (the_db m j) (the_db m' j)" using d by auto
      with wf changed_evolves [OF this] show ?thesis by (auto simp: changed_def)
    next
      case False
      then have "the_db m' j = the_db m j" using d by (auto split: if_splits)
      with wf show ?thesis using evolves_refl by auto
    qed
    moreover have "\<exists>ts. reply ts \<and> wrote ts c c'" unfolding c' WriteInt_def
      using wrote_emit reply.integer by blast
    ultimately show ?thesis using env by (simp add: wf_m_def m_evolves_def)
  qed
  then show "wf_m m'" "same_env m m'" "\<exists>ts. reply ts \<and> wrote ts c c'" "m_evolves m m'" by blast+
qed

lemma move_total: "wf_m m \<Longrightarrow> move_cb key target m c \<noteq> None"
  using move_cb_spec [of m c target key] by (cases "selectedDB (ctx c) = target") (auto simp: move_cb_def)

end
