(* ===== verification/Tx.thy ===== *)
theory Tx
  imports Lists Sets Generic
begin

text \<open>
  Running a command, now or later: \<open>withTx\<close> and \<open>blocking\<close> of \<open>redis.go\<close> and the transaction
  commands of \<open>cmd_transactions.go\<close>.

  \<open>run_txCmd\<close> says what each closure does when it is called. Outside of a transaction a handler
  calls its closure at once and broadcasts; inside, the closure is queued and EXEC runs the
  queue, unless a watched key moved. A blocking command that cannot be served outside of a
  transaction leaves its handler in \<open>Waiting\<close>: the loop of \<open>blocking\<close> around it is in theory World.
\<close>

subsection \<open>Calling a closure\<close>

fun block_body :: "blockCmd \<Rightarrow> RedisDB \<Rightarrow> (bool \<times> RedisDB \<times> token list) option" where
  "block_body (BXpop ks lr) db = bxpop_body ks lr db"
| "block_body (BRpoplpush src dst) db = brpoplpush_body src dst db"

definition run_block :: "blockCmd \<Rightarrow> RediQueue \<Rightarrow> peer \<Rightarrow> (bool \<times> RediQueue \<times> peer) option" where
  "run_block b m c =
     (let i = selectedDB (ctx c); (db, m) = m_db i m in
        case block_body b db of
          None \<Rightarrow> None
        | Some (fin, db, ts) \<Rightarrow> Some (fin, put_db i db m, emit ts c))"

text \<open>What both blocking commands do when they time out.\<close>

definition onTimeout :: "peer \<Rightarrow> peer" where
  "onTimeout c = WriteNull c"

text \<open>The closure queued by \<open>blocking\<close> in a transaction: one attempt, then the timeout.\<close>

definition blocking_cb :: "blockCmd \<Rightarrow> RediQueue \<Rightarrow> peer \<Rightarrow> (RediQueue \<times> peer) option" where
  "blocking_cb b m c = do {
     (fin, m, c) \<leftarrow> run_block b m c;
     Some (m, if \<not> fin then onTimeout c else c)
   }"

text \<open>The closure of UNWATCH answers only.\<close>

definition unwatch_cb :: "RediQueue \<Rightarrow> peer \<Rightarrow> (RediQueue \<times> peer) option" where
  "unwatch_cb m c = Some (m, WriteOK c)"

fun run_txCmd :: "txCmd \<Rightarrow> RediQueue \<Rightarrow> peer \<Rightarrow> (RediQueue \<times> peer) option" where
  "run_txCmd (TxBlocking b) m c = blocking_cb b m c"
| "run_txCmd TxDbsize m c = on_db (det dbsize_body) m c"
| "run_txCmd TxFlushall m c = flushall_cb m c"
| "run_txCmd TxFlushdb m c = on_db (det flushdb_body) m c"
| "run_txCmd TxUnwatch m c = unwatch_cb m c"
| "run_txCmd (TxDel ks) m c = on_db (det (del_body ks)) m c"
| "run_txCmd (TxType key) m c = on_db (det (type_body key)) m c"
| "run_txCmd (TxExists ks) m c = on_db (det (exists_body ks)) m c"
| "run_txCmd (TxMove key target) m c = move_cb key target m c"
| "run_txCmd (TxKeys key) m c = on_db (det (keys_body (re_compile m) key)) m c"
| "run_txCmd TxRandomkey m c = on_db randomkey_body m c"
| "run_txCmd (TxRename from to) m c = on_db (det (rename_body from to)) m c"
| "run_txCmd (TxRenamenx from to) m c = on_db (det (renamenx_body from to)) m c"
| "run_txCmd (TxScan cursor match) m c = on_db (det (scan_body (re_compile m) cursor match)) m c"
| "run_txCmd (TxLindex key i) m c = on_db (det (lindex_body key i)) m c"
| "run_txCmd (TxLinsert key whr pivot v) m c = on_db (det (linsert_body key whr pivot v)) m c"
| "run_txCmd (TxLlen key) m c = on_db (det (llen_body key)) m c"
| "run_txCmd (TxXpop key lr) m c = on_db (det (xpop_body key lr)) m c"
| "run_txCmd (TxXpush key vs lr) m c = on_db (det (xpush_body key vs lr)) m c"
| "run_txCmd (TxXpushx key vs lr) m c = on_db (det (xpushx_body key vs lr)) m c"
| "run_txCmd (TxLrange key start stop) m c = on_db (det (lrange_body key start stop)) m c"
| "run_txCmd (TxLrem key cnt v) m c = on_db (det (lrem_body key cnt v)) m c"
| "run_txCmd (TxLset key i v) m c = on_db (det (lset_body key i v)) m c"
| "run_txCmd (TxLtrim key start stop) m c = on_db (det (ltrim_body key start stop)) m c"
| "run_txCmd (TxRpoplpush src dst) m c = on_db (det (rpoplpush_body src dst)) m c"
| "run_txCmd (TxSadd key es) m c = on_db (det (sadd_body key es)) m c"
| "run_txCmd (TxScard key) m c = on_db (det (scard_body key)) m c"
| "run_txCmd (TxSdiff ks) m c = on_db (sdiff_body ks) m c"
| "run_txCmd (TxSdiffstore dest ks) m c = on_db (det (sdiffstore_body dest ks)) m c"
| "run_txCmd (TxSinter ks) m c = on_db (sinter_body ks) m c"
| "run_txCmd (TxSinterstore dest ks) m c = on_db (det (sinterstore_body dest ks)) m c"
| "run_txCmd (TxSismember key v) m c = on_db (det (sismember_body key v)) m c"
| "run_txCmd (TxSmembers key) m c = on_db (det (smembers_body key)) m c"
| "run_txCmd (TxSmove src dst v) m c = on_db (det (smove_body src dst v)) m c"
| "run_txCmd (TxSpop key args) m c = spop_cb key args m c"
| "run_txCmd (TxSrandmember key cnt wc) m c = on_db (srandmember_body key cnt wc) m c"
| "run_txCmd (TxSrem key fs) m c = on_db (det (srem_body key fs)) m c"
| "run_txCmd (TxSunion ks) m c = on_db (sunion_body ks) m c"
| "run_txCmd (TxSunionstore dest ks) m c = on_db (det (sunionstore_body dest ks)) m c"
| "run_txCmd (TxSscan key cursor match) m c = on_db (det (sscan_body (re_compile m) key cursor match)) m c"

text \<open>
  The closures called one after another, for any way \<open>run\<close> of calling one; EXEC's loop is
  \<open>run_all run_txCmd\<close>.
\<close>

fun run_all :: "('t \<Rightarrow> RediQueue \<Rightarrow> peer \<Rightarrow> (RediQueue \<times> peer) option) \<Rightarrow> 't list \<Rightarrow>
    RediQueue \<Rightarrow> peer \<Rightarrow> (RediQueue \<times> peer) option" where
  "run_all run [] m c = Some (m, c)"
| "run_all run (cb # cbs) m c = do { (m, c) \<leftarrow> run cb m c; run_all run cbs m c }"

subsection \<open>Handlers that use closures\<close>

text \<open>
  How a handler returns: done, or (\<open>blocking\<close>) waiting to retry its body until a timeout
  given in nanoseconds, 0 for none.
\<close>

datatype hres =
    Finished RediQueue peer
  | Waiting RediQueue peer blockCmd int

definition withTx :: "RediQueue \<Rightarrow> peer \<Rightarrow> txCmd \<Rightarrow> hres option" where
  "withTx m c cb =
     (let c = getCtx c in
        if inTx c then Some (Finished m (WriteInline ''QUEUED'' (addTxCmd cb c)))
        else do {
          (m, c) \<leftarrow> run_txCmd cb m c;
          Some (Finished (Broadcast m) c)
        })"

text \<open>\<open>blocking\<close> up to its first wait. The timeout arrives in seconds; the product wraps.\<close>

definition blocking :: "RediQueue \<Rightarrow> peer \<Rightarrow> int \<Rightarrow> blockCmd \<Rightarrow> hres option" where
  "blocking m c timeout b =
     (let c = getCtx c in
        if inTx c then Some (Finished m (WriteInline ''QUEUED'' (addTxCmd (TxBlocking b) c)))
        else do {
          (fin, m, c) \<leftarrow> run_block b m c;
          if fin then Some (Finished m c)
          else Some (Waiting m c b (i64 (timeout * 1000000000)))
        })"

text \<open>The two early returns every handler has: a usage error, and no access.\<close>

definition usage :: "RediQueue \<Rightarrow> peer \<Rightarrow> string \<Rightarrow> hres option" where
  "usage m c msg = Some (Finished m (WriteError msg (setDirty c)))"

definition authed :: "RediQueue \<Rightarrow> peer \<Rightarrow> (peer \<Rightarrow> hres option) \<Rightarrow> hres option" where
  "authed m c k = (let (ok, c) = handleAuth m c in if \<not> ok then Some (Finished m c) else k c)"

subsection \<open>Transactions\<close>

definition cmdMulti :: "RediQueue \<Rightarrow> peer \<Rightarrow> string \<Rightarrow> string list \<Rightarrow> hres option" where
  "cmdMulti m c cmd args =
     (if length args \<noteq> 0 then Some (Finished m (WriteError (errWrongNumber cmd) c))
      else authed m c (\<lambda>c.
        let c = getCtx c in
        if inTx c then Some (Finished m (WriteError ''ERR MULTI calls can not be nested'' c))
        else Some (Finished m (WriteOK (startTx c)))))"

text \<open>The loop over the watched keys, up to the first whose version is above the recorded one.\<close>

fun watch_loop :: "(dbKey \<times> u64) list \<Rightarrow> RediQueue \<Rightarrow> bool \<times> RediQueue" where
  "watch_loop [] m = (False, m)"
| "watch_loop ((t, version) # ws) m =
     (let (db, m) = m_db (dk_db t) m
      in if keyVer db (dk_key t) > version then (True, m) else watch_loop ws m)"

definition watch_entries :: "(dbKey, u64) fmap option \<Rightarrow> (dbKey \<times> u64) list" where
  "watch_entries w =
     (case w of
        None \<Rightarrow> []
      | Some ws \<Rightarrow> map (\<lambda>k. (k, the (fmlookup ws k))) (sorted_list_of_fset (fmdom ws)))"

definition cmdExec :: "RediQueue \<Rightarrow> peer \<Rightarrow> string \<Rightarrow> string list \<Rightarrow> hres option" where
  "cmdExec m c cmd args =
     (if length args \<noteq> 0 then usage m c (errWrongNumber cmd)
      else authed m c (\<lambda>c.
        let c = getCtx c in
        if \<not> inTx c then Some (Finished m (WriteError ''ERR EXEC without MULTI'' c))
        else if dirtyTransaction (ctx c)
        then Some (Finished m (WriteError ''EXECABORT Transaction discarded because of previous errors.'' c))
        else
          let (order, r) = range_order (rand m) (watch_entries (watching (ctx c)));
              (abort, m) = watch_loop order (m\<lparr>rand := r\<rparr>)
          in if abort then Some (Finished m (WriteLen 0 (stopTx c)))
             else
               let cbs = the (transaction (ctx c));
                   c = WriteLen (int (length cbs)) c
               in do {
                 (m, c) \<leftarrow> run_all run_txCmd cbs m c;
                 Some (Finished (Broadcast m) (stopTx c))
               }))"

definition cmdDiscard :: "RediQueue \<Rightarrow> peer \<Rightarrow> string \<Rightarrow> string list \<Rightarrow> hres option" where
  "cmdDiscard m c cmd args =
     (if length args \<noteq> 0 then usage m c (errWrongNumber cmd)
      else authed m c (\<lambda>c.
        let c = getCtx c in
        if \<not> inTx c then Some (Finished m (WriteError ''ERR DISCARD without MULTI'' c))
        else Some (Finished m (WriteOK (stopTx c)))))"

definition cmdWatch :: "RediQueue \<Rightarrow> peer \<Rightarrow> string \<Rightarrow> string list \<Rightarrow> hres option" where
  "cmdWatch m c cmd args =
     (if length args = 0 then usage m c (errWrongNumber cmd)
      else authed m c (\<lambda>c.
        let c = getCtx c in
        if inTx c then Some (Finished m (WriteError ''ERR WATCH in MULTI'' c))
        else
          let (db, m) = m_db (selectedDB (ctx c)) m
          in Some (Finished m (WriteOK (fold (watch db) args c)))))"

definition cmdUnwatch :: "RediQueue \<Rightarrow> peer \<Rightarrow> string \<Rightarrow> string list \<Rightarrow> hres option" where
  "cmdUnwatch m c cmd args =
     (if length args \<noteq> 0 then usage m c (errWrongNumber cmd)
      else authed m c (\<lambda>c. withTx m (unwatch (getCtx c)) TxUnwatch))"

lemmas tx_handler_defs [handler_defs] = cmdMulti_def cmdExec_def cmdDiscard_def cmdWatch_def cmdUnwatch_def

subsection \<open>The contract of closures\<close>

text \<open>
  What the handlers guarantee of the captured variables: a set operation has a key to work on,
  and (with one exception, which is left out here) SRANDMEMBER has a count whose negation does
  not wrap, negative only when it was given. A closure is \<open>versioned\<close> unless it flushes.
\<close>

fun tx_ok :: "txCmd \<Rightarrow> bool" where
  "tx_ok (TxSrandmember key cnt wc) = (in_int cnt \<and> cnt \<noteq> min_int \<and> (\<not> wc \<longrightarrow> 0 \<le> cnt))"
| "tx_ok (TxSdiff ks) = (ks \<noteq> [])"
| "tx_ok (TxSinter ks) = (ks \<noteq> [])"
| "tx_ok (TxSunion ks) = (ks \<noteq> [])"
| "tx_ok (TxSdiffstore dest ks) = (ks \<noteq> [])"
| "tx_ok (TxSinterstore dest ks) = (ks \<noteq> [])"
| "tx_ok (TxSunionstore dest ks) = (ks \<noteq> [])"
| "tx_ok _ = True"

definition versioned :: "txCmd \<Rightarrow> bool" where
  "versioned cb \<longleftrightarrow> cb \<noteq> TxFlushall \<and> cb \<noteq> TxFlushdb"

lemma run_block_Some:
  assumes "wf_m m"
  obtains (waits) m' where "run_block b m c = Some (False, m', c)" "\<forall>i. the_db m' i = the_db m i" "same_env m m'"
  | (serves) m' ts where "run_block b m c = Some (True, m', emit ts c)" "reply ts" "wf_m m'"
      "m_evolves m m'" "same_env m m'"
proof -
  let ?i = "selectedDB (ctx c)"
  let ?m1 = "snd (m_db ?i m)"
  let ?res = "block_body b (the_db m ?i)"
  have wf: "wf_db (the_db m ?i)" using assms by auto
  then have "serves (the_db m ?i) ?res"
    by (cases b) (simp_all add: serves_bxpop serves_brpoplpush)
  then consider (no) "?res = Some (False, the_db m ?i, [])"
    | (yes) db' ts g where "?res = Some (True, db', ts)" "reply ts" "wf_db db'" "evolves g (the_db m ?i) db'"
    unfolding serves_def by blast
  then show thesis
  proof cases
    case no
    then have "run_block b m c = Some (False, put_db ?i (the_db m ?i) ?m1, c)"
      by (simp add: run_block_def case_prod_unfold Let_def)
    then show thesis by (rule waits) (simp_all add: same_env_def)
  next
    case yes
    then have run: "run_block b m c = Some (True, put_db ?i db' ?m1, emit ts c)"
      by (simp add: run_block_def case_prod_unfold Let_def)
    have "db_id db' = ?i" using yes(4) assms by (auto simp: evolves_def)
    then have wf': "wf_m (put_db ?i db' ?m1)" using assms yes(3) by auto
    have ev: "m_evolves m (put_db ?i db' ?m1)"
      using yes(4) evolves_refl by (auto simp: m_evolves_def)
    show thesis by (rule serves [OF run yes(2) wf' ev]) (simp add: same_env_def)
  qed
qed

interpretation block: total_callback "blocking_cb b" for b
proof
  fix m and c :: peer
  assume wf: "wf_m m"
  then show "blocking_cb b m c \<noteq> None"
    by (cases rule: run_block_Some [of m b c]) (simp_all add: blocking_cb_def)
next
  fix m m' and c c' :: peer
  assume wf: "wf_m m" and run: "blocking_cb b m c = Some (m', c')"
  from wf have "wf_m m' \<and> same_env m m' \<and> (\<exists>ts. reply ts \<and> wrote ts c c')"
  proof (cases rule: run_block_Some [of m b c])
    case (waits m1)
    with run have eq: "m' = m1" "c' = emit [TNull] c"
      by (auto simp: blocking_cb_def onTimeout_def WriteNull_def)
    moreover have "wf_m m1" using waits(2) wf by (simp add: wf_m_def)
    ultimately show ?thesis using waits(3) by (auto intro!: exI [of _ "[TNull]"])
  next
    case (serves m1 ts)
    with run show ?thesis by (auto simp: blocking_cb_def)
  qed
  then show "wf_m m'" "same_env m m'" "\<exists>ts. reply ts \<and> wrote ts c c'" by blast+
qed

lemma blocking_cb_evolves: "wf_m m \<Longrightarrow> blocking_cb b m c = Some (m', c') \<Longrightarrow> m_evolves m m'"
proof -
  assume wf: "wf_m m" and run: "blocking_cb b m c = Some (m', c')"
  from wf show ?thesis
  proof (cases rule: run_block_Some [of m b c])
    case (waits m1)
    with run have "m' = m1" by (auto simp: blocking_cb_def)
    with waits(2) show ?thesis using evolves_refl by (auto simp: m_evolves_def)
  next
    case (serves m1 ts)
    with run show ?thesis by (auto simp: blocking_cb_def)
  qed
qed

interpretation unwatch_cb: total_callback unwatch_cb
  by standard (auto simp: unwatch_cb_def write_defs intro!: exI [of _ "[TInline ''OK'']"])

text \<open>The bodies whose callbacks are watched, by their interpretations.\<close>

lemmas body_laws =
  dbsize.cb_watched del.cb_watched type.cb_watched exists.cb_watched move.cb_watched
  keys.cb_watched randomkey.cb_watched rename.cb_watched renamenx.cb_watched scan.cb_watched
  lindex.cb_watched linsert.cb_watched llen.cb_watched xpop.cb_watched xpush.cb_watched
  xpushx.cb_watched lrange.cb_watched lrem.cb_watched lset.cb_watched ltrim.cb_watched
  rpoplpush.cb_watched sadd.cb_watched scard.cb_watched sdiff.cb_watched sdiffstore.cb_watched
  sinter.cb_watched sinterstore.cb_watched sismember.cb_watched smembers.cb_watched
  smove.cb_watched spop_cb.cb_watched srem.cb_watched sunion.cb_watched sunionstore.cb_watched
  sscan.cb_watched

lemma txCmd_called:
  assumes "tx_ok cb" "wf_m m" "run_txCmd cb m c = Some (m', c')"
  shows "called m c m' c' \<and> (versioned cb \<longrightarrow> m_evolves m m')"
proof (cases cb)
  case (TxBlocking b)
  with assms(2,3) block.cb_called blocking_cb_evolves show ?thesis by simp
next
  case TxFlushall
  with assms(2,3) flushall.cb_called show ?thesis by (simp add: versioned_def)
next
  case TxFlushdb
  with assms(2,3) flushdb.cb_called show ?thesis by (simp add: versioned_def)
next
  case TxUnwatch
  with assms(2,3) unwatch_cb.cb_called show ?thesis by (auto simp: unwatch_cb_def)
next
  case (TxSrandmember key cnt wc)
  with assms(1) have "watched_command (srandmember_body key cnt wc)"
    by (intro srandmember_watched) auto
  note laws = watched_callback.cb_watched [OF watched_command.is_watched_callback [OF this]]
  from laws [OF assms(2)] assms(3) TxSrandmember show ?thesis by simp
qed (use assms(2,3) in \<open>simp; blast dest: body_laws\<close>)+

subsection \<open>Panics\<close>

text \<open>
  Exactly when calling a closure panics: a rename of a key to itself, a pattern whose regular
  expression does not compile, and a random element of a stored empty set.
\<close>

definition bad_pattern :: "RediQueue \<Rightarrow> string \<Rightarrow> bool" where
  "bad_pattern m p \<longleftrightarrow> patternRE (re_compile m) p = None"

fun panics_on :: "txCmd \<Rightarrow> RediQueue \<Rightarrow> RedisDB \<Rightarrow> bool" where
  "panics_on (TxKeys p) m db = bad_pattern m p"
| "panics_on (TxScan cursor (Some p)) m db = (cursor = 0 \<and> bad_pattern m p)"
| "panics_on (TxSscan key cursor (Some p)) m db = (cursor = 0 \<and> \<not> holds_list db key \<and> bad_pattern m p)"
| "panics_on (TxRename from to) m db = (from = to \<and> value_of db from \<noteq> None)"
| "panics_on (TxSrandmember key cnt wc) m db = (value_of db key = Some (VSet {||}) \<and> (cnt < 0 \<or> \<not> wc))"
| "panics_on _ m db = False"

lemma matchKeys_None: "matchKeys compile ks p = None \<longleftrightarrow> patternRE compile p = None"
  by (auto simp: matchKeys_def)

lemma srandmember_None:
  assumes "wf_db db" "in_int cnt" "cnt \<noteq> min_int" "\<not> wc \<longrightarrow> 0 \<le> cnt"
  shows "srandmember_body key cnt wc r db = None \<longleftrightarrow>
    value_of db key = Some (VSet {||}) \<and> (cnt < 0 \<or> \<not> wc)"
proof (cases rule: key_cases [of db key])
  case (set s)
  show ?thesis
  proof (cases "s = {||}")
    case True
    with srandmember_empty [OF assms(1) set [unfolded True]] set show ?thesis by simp
  next
    case False
    have "srandmember_body key cnt wc r db \<noteq> None"
      using srandmember_spec [OF assms(1) set False assms(2,3), of wc r] assms(4) by fastforce
    with set False show ?thesis by simp
  qed
qed (use key_facts [OF assms(1), of key] in \<open>auto simp: srandmember_body_def\<close>)

lemmas body_total =
  dbsize.cb_total del.cb_total type.cb_total exists.cb_total randomkey.cb_total renamenx.cb_total
  lindex.cb_total linsert.cb_total llen.cb_total xpop.cb_total xpush.cb_total xpushx.cb_total
  lrange.cb_total lrem.cb_total lset.cb_total ltrim.cb_total rpoplpush.cb_total sadd.cb_total
  scard.cb_total sismember.cb_total smembers.cb_total smove.cb_total srem.cb_total spop.cb_total
  flushall.cb_total unwatch_cb.cb_total block.cb_total

lemmas body_total1 = sdiff1.cb_total sinter1.cb_total sunion1.cb_total sdiffstore1.cb_total
  sinterstore1.cb_total sunionstore1.cb_total

lemma spop_cb_total: "wf_m m \<Longrightarrow> spop_cb key args m c \<noteq> None"
  using spop.cb_total by (cases args) (auto simp: spop_cb_def case_prod_unfold Let_def split: option.split)

lemma txCmd_None_iff:
  assumes "tx_ok cb" "wf_m m"
  shows "run_txCmd cb m c = None \<longleftrightarrow> panics_on cb m (the_db m (selectedDB (ctx c)))"
proof (cases cb)
  case (TxKeys p)
  then show ?thesis by (simp add: on_db_None_iff keys_body_def matchKeys_None bad_pattern_def)
next
  case (TxScan cursor match)
  then show ?thesis
    by (cases match) (auto simp: on_db_None_iff scan_body_def Let_def matchKeys_None bad_pattern_def)
next
  case (TxSscan key cursor match)
  have wf: "wf_db (the_db m (selectedDB (ctx c)))" using assms(2) by auto
  from TxSscan show ?thesis using not_set_iff [OF wf, of key]
    by (cases match) (auto simp: on_db_None_iff sscan_body_def matchKeys_None bad_pattern_def)
next
  case (TxRename "from" to)
  have wf: "wf_db (the_db m (selectedDB (ctx c)))" using assms(2) by auto
  from TxRename show ?thesis using rename_spec [OF wf, of "from"]
    by (cases "value_of (the_db m (selectedDB (ctx c))) from"; cases "from = to")
      (fastforce simp: on_db_None_iff rename_body_def db_exists_iff)+
next
  case (TxSrandmember key cnt wc)
  have wf: "wf_db (the_db m (selectedDB (ctx c)))" using assms(2) by auto
  from TxSrandmember srandmember_None [OF wf] assms(1) show ?thesis by (simp add: on_db_None_iff)
next
  case (TxSdiff ks)
  with body_total1 [OF assms(2)] assms(1) show ?thesis by (cases ks) simp_all
next
  case (TxSinter ks)
  with body_total1 [OF assms(2)] assms(1) show ?thesis by (cases ks) simp_all
next
  case (TxSunion ks)
  with body_total1 [OF assms(2)] assms(1) show ?thesis by (cases ks) simp_all
next
  case (TxSdiffstore dest ks)
  with body_total1 [OF assms(2)] assms(1) show ?thesis by (cases ks) simp_all
next
  case (TxSinterstore dest ks)
  with body_total1 [OF assms(2)] assms(1) show ?thesis by (cases ks) simp_all
next
  case (TxSunionstore dest ks)
  with body_total1 [OF assms(2)] assms(1) show ?thesis by (cases ks) simp_all
next
  case (TxMove key target)
  with move_total [OF assms(2)] show ?thesis by simp
next
  case (TxSpop key args)
  with spop_cb_total [OF assms(2)] show ?thesis by simp
next
  case TxFlushdb
  have "on_db (det flushdb_body) m c \<noteq> None" by (simp add: on_db_None_iff flushdb_body_def)
  with TxFlushdb show ?thesis by simp
qed (simp_all add: body_total [OF assms(2)])

subsection \<open>The loop of EXEC\<close>

text \<open>What EXEC relies on of the closures it calls.\<close>

locale tx_runner =
  fixes run :: "'t \<Rightarrow> RediQueue \<Rightarrow> peer \<Rightarrow> (RediQueue \<times> peer) option"
    and ok :: "'t \<Rightarrow> bool"
    and ver :: "'t \<Rightarrow> bool"
  assumes run_called: "ok t \<Longrightarrow> wf_m m \<Longrightarrow> run t m c = Some (m', c') \<Longrightarrow> called m c m' c'"
    and run_evolves: "ok t \<Longrightarrow> ver t \<Longrightarrow> wf_m m \<Longrightarrow> run t m c = Some (m', c') \<Longrightarrow> m_evolves m m'"
begin

lemma run_all_called:
  assumes "list_all ok ts" "wf_m m" "run_all run ts m c = Some (m', c')"
  shows "wf_m m' \<and> same_env m m' \<and> (list_all ver ts \<longrightarrow> m_evolves m m') \<and>
    (\<exists>rs. length rs = length ts \<and> (\<forall>r \<in> set rs. reply r) \<and> wrote (concat rs) c c')"
  using assms
proof (induction ts arbitrary: m c)
  case Nil
  then show ?case by (auto simp: wrote_def)
next
  case (Cons t ts)
  then obtain m1 c1 where r: "run t m c = Some (m1, c1)" "run_all run ts m1 c1 = Some (m', c')" by auto
  from Cons.prems run_called [OF _ Cons.prems(2) r(1)] obtain x
    where 1: "wf_m m1" "same_env m m1" "reply x" "wrote x c c1" by (auto simp: called_def)
  from Cons.IH [OF _ 1(1) r(2)] Cons.prems(1) obtain rs
    where 2: "wf_m m'" "same_env m1 m'" "list_all ver ts \<longrightarrow> m_evolves m1 m'" "length rs = length ts"
      "\<forall>r \<in> set rs. reply r" "wrote (concat rs) c1 c'" by auto
  have "list_all ver (t # ts) \<longrightarrow> m_evolves m m'"
    using Cons.prems(1) run_evolves [OF _ _ Cons.prems(2) r(1)] 2(3) m_evolves_trans by auto
  moreover have "wrote (concat (x # rs)) c c'" using wrote_trans [OF 1(4) 2(6)] by simp
  ultimately show ?case using 1 2 same_env_trans by (intro conjI exI [of _ "x # rs"]) auto
qed

end

interpretation tx: tx_runner run_txCmd tx_ok versioned
  by standard (use txCmd_called in blast)+

lemma watch_loop_spec:
  "\<exists>m'. watch_loop ws m = ((\<exists>(t, v) \<in> set ws. keyVer (the_db m (dk_db t)) (dk_key t) > v), m') \<and>
     (\<forall>i. the_db m' i = the_db m i) \<and> same_env m m' \<and> rand m' = rand m"
proof (induction ws arbitrary: m)
  case Nil
  then show ?case by simp
next
  case (Cons w ws)
  obtain t v where w: "w = (t, v)" by force
  let ?m1 = "snd (m_db (dk_db t) m)"
  have env: "same_env m ?m1" by (simp add: same_env_def)
  show ?case
  proof (cases "keyVer (the_db m (dk_db t)) (dk_key t) > v")
    case True
    then show ?thesis using env
      by (intro exI [of _ ?m1]) (simp add: w case_prod_unfold Let_def)
  next
    case False
    from Cons.IH [of ?m1] obtain m' where
      "watch_loop ws ?m1 = ((\<exists>(t, v) \<in> set ws. keyVer (the_db ?m1 (dk_db t)) (dk_key t) > v), m')"
      "\<forall>i. the_db m' i = the_db ?m1 i" "same_env ?m1 m'" "rand m' = rand ?m1" by blast
    then show ?thesis using env False same_env_trans
      by (intro exI [of _ m']) (auto simp: w case_prod_unfold Let_def)
  qed
qed

text \<open>The watched keys and their recorded versions, whatever order the map is iterated in.\<close>

definition stale :: "RediQueue \<Rightarrow> (dbKey, u64) fmap option \<Rightarrow> bool" where
  "stale m w \<longleftrightarrow>
     (\<exists>ws. w = Some ws \<and>
       (\<exists>t |\<in>| fmdom ws. keyVer (the_db m (dk_db t)) (dk_key t) > the (fmlookup ws t)))"

lemma watch_order:
  "set order = set (watch_entries w) \<Longrightarrow>
     (\<exists>(t, v) \<in> set order. keyVer (the_db m (dk_db t)) (dk_key t) > v) = stale m w"
  by (cases w) (auto simp: watch_entries_def stale_def)

lemma startTx_ctx [simp]:
  "ctx (stopTx c) = (ctx c)\<lparr>transaction := None, watching := None\<rparr>"
  "wbuf (stopTx c) = wbuf c" "closed (stopTx c) = closed c"
  "ctx (startTx c) = (ctx c)\<lparr>transaction := Some [], dirtyTransaction := False\<rparr>"
  "wbuf (startTx c) = wbuf c" "closed (startTx c) = closed c"
  by (simp_all add: stopTx_def startTx_def unwatch_def)

text \<open>A connection may use the server: no password, or it has authenticated.\<close>

definition may_use :: "RediQueue \<Rightarrow> peer \<Rightarrow> bool" where
  "may_use m c \<longleftrightarrow> password m = [] \<or> authenticated (ctx c)"

lemma authed_ok: "may_use m c \<Longrightarrow> authed m c k = k (if password m = [] then c else getCtx c)"
  by (cases "password m = []") (simp_all add: authed_def handleAuth_def may_use_def Let_def)

lemma authed_no:
  "\<not> may_use m c \<Longrightarrow>
     authed m c k = Some (Finished m (WriteError ''NOAUTH Authentication required.'' (getCtx c)))"
  by (simp add: authed_def handleAuth_def may_use_def Let_def)

lemma getCtx_idem [simp]: "getCtx (getCtx c) = getCtx c"
  by (auto simp: getCtx_def split: option.split)

lemma inTx_getCtx [simp]: "inTx (getCtx c) = inTx c"
  by (simp add: inTx_def)

lemma exec_cases:
  assumes "may_use m c" "transaction (ctx c) = Some cbs" "\<not> dirtyTransaction (ctx c)"
  obtains m1 where "\<forall>i. the_db m1 i = the_db m i" "same_env m m1"
    "cmdExec m c cmd [] =
      (if stale m (watching (ctx c)) then Some (Finished m1 (WriteLen 0 (stopTx (getCtx c))))
       else do {
         (m, c) \<leftarrow> run_all run_txCmd cbs m1 (WriteLen (int (length cbs)) (getCtx c));
         Some (Finished (Broadcast m) (stopTx c))
       })"
proof -
  obtain order r where o: "range_order (rand m) (watch_entries (watching (ctx c))) = (order, r)" by force
  then have so: "set order = set (watch_entries (watching (ctx c)))" by (metis fst_conv set_range_order)
  let ?m0 = "m\<lparr>rand := r\<rparr>"
  obtain m1 where w: "watch_loop order ?m0 =
      ((\<exists>(t, v) \<in> set order. keyVer (the_db ?m0 (dk_db t)) (dk_key t) > v), m1)"
    and db: "\<forall>i. the_db m1 i = the_db ?m0 i" and env: "same_env ?m0 m1"
    using watch_loop_spec by blast
  have st: "(\<exists>(t, v) \<in> set order. keyVer (the_db ?m0 (dk_db t)) (dk_key t) > v) = stale m (watching (ctx c))"
    using watch_order [OF so, of m] by simp
  have tx: "inTx c" using assms(2) by (simp add: inTx_def)
  show ?thesis
  proof (rule that)
    show "\<forall>i. the_db m1 i = the_db m i" using db by simp
    show "same_env m m1" using env by (simp add: same_env_def)
    show "cmdExec m c cmd [] =
      (if stale m (watching (ctx c)) then Some (Finished m1 (WriteLen 0 (stopTx (getCtx c))))
       else do {
         (m, c) \<leftarrow> run_all run_txCmd cbs m1 (WriteLen (int (length cbs)) (getCtx c));
         Some (Finished (Broadcast m) (stopTx c))
       })"
      using tx assms o w st by (simp add: cmdExec_def authed_ok Let_def)
  qed
qed

subsection \<open>What WATCH records\<close>

lemma watch_recorded:
  "key \<in> set ks \<Longrightarrow> \<exists>ws. watching (ctx (fold (watch db) ks c)) = Some ws \<and>
     fmlookup ws (DbKey (db_id db) key) = Some (keyVer db key)"
proof -
  define rec where "rec c \<longleftrightarrow> (\<exists>ws. watching (ctx c) = Some ws \<and>
     fmlookup ws (DbKey (db_id db) key) = Some (keyVer db key))" for c :: peer
  have one: "rec (watch db key c)" for c by (simp add: rec_def watch_def)
  have keep: "rec c \<Longrightarrow> rec (watch db k c)" for c k by (auto simp: rec_def watch_def)
  have keeps: "rec c \<Longrightarrow> rec (fold (watch db) ks c)" for c ks
    by (induction ks arbitrary: c) (simp_all add: keep)
  show "key \<in> set ks \<Longrightarrow> ?thesis"
    unfolding rec_def [symmetric] by (induction ks arbitrary: c) (auto simp: one keeps)
qed

lemma watch_stale:
  assumes "key \<in> set ks" "wf_m m0" "i = selectedDB (ctx c0)"
    and "evolves g (the_db m0 i) (the_db m i)"
    and "value_of (the_db m i) key \<noteq> value_of (the_db m0 i) key"
    and "unat (keyVer (the_db m0 i) key) + g key < 2 ^ 64"
  shows "stale m (watching (ctx (fold (watch (the_db m0 i)) ks c)))"
proof -
  have id: "db_id (the_db m0 i) = i" using assms(2) by auto
  obtain ws where ws: "watching (ctx (fold (watch (the_db m0 i)) ks c)) = Some ws"
    "fmlookup ws (DbKey i key) = Some (keyVer (the_db m0 i) key)"
    using watch_recorded [OF assms(1), of "the_db m0 i" c] id by auto
  have "0 < g key" "keyVer (the_db m i) key = keyVer (the_db m0 i) key + of_nat (g key)"
    using assms(4,5) by (auto simp: evolves_def)
  with of_nat_u64_less [of "g key" "keyVer (the_db m0 i) key"] assms(6)
  have "keyVer (the_db m0 i) key < keyVer (the_db m i) key" by simp
  moreover have "DbKey i key |\<in>| fmdom ws" using ws(2) by (rule fmdomI)
  ultimately show ?thesis using ws by (auto simp: stale_def intro!: bexI [of _ "DbKey i key"])
qed

lemma watched_abort:
  assumes "wf_m m0" "may_use m0 c0" "\<not> inTx c0" "key \<in> set ks"
    and "cmdWatch m0 c0 cmd0 ks = Some (Finished m1 c1)"
    and "evolves g (the_db m0 (selectedDB (ctx c0))) (the_db m (selectedDB (ctx c0)))"
    and "value_of (the_db m (selectedDB (ctx c0))) key \<noteq> value_of (the_db m0 (selectedDB (ctx c0))) key"
    and "unat (keyVer (the_db m0 (selectedDB (ctx c0))) key) + g key < 2 ^ 64"
    and "may_use m c" "transaction (ctx c) = Some cbs" "\<not> dirtyTransaction (ctx c)"
    and "watching (ctx c) = watching (ctx c1)"
  shows "\<exists>m'. cmdExec m c cmd [] = Some (Finished m' (WriteLen 0 (stopTx (getCtx c)))) \<and>
    (\<forall>i. the_db m' i = the_db m i)"
proof -
  have "ks \<noteq> []" using assms(4) by auto
  then have "c1 = WriteOK (fold (watch (the_db m0 (selectedDB (ctx c0)))) ks (getCtx c0))"
    using assms(2,3,5) by (auto simp: cmdWatch_def authed_ok Let_def case_prod_unfold split: if_splits)
  then have "watching (ctx c) = watching (ctx (fold (watch (the_db m0 (selectedDB (ctx c0)))) ks (getCtx c0)))"
    using assms(12) by (simp add: write_defs)
  then have "stale m (watching (ctx c))"
    using watch_stale [OF assms(4,1) refl assms(6,7,8)] by simp
  with exec_cases [OF assms(9,10,11), of cmd] show ?thesis by metis
qed

lemma exec_result:
  assumes "wf_m m" "list_all tx_ok cbs" "may_use m c" "transaction (ctx c) = Some cbs" "\<not> dirtyTransaction (ctx c)"
    and "cmdExec m c cmd [] = Some r"
  shows "\<exists>m' c'. r = Finished m' c' \<and> \<not> inTx c' \<and> watching (ctx c') = None \<and>
    (if stale m (watching (ctx c))
     then (\<forall>i. the_db m' i = the_db m i) \<and> wbuf c' = wbuf c @ [TLen 0]
     else signal m' = Suc (signal m) \<and>
       (\<exists>rs. length rs = length cbs \<and> (\<forall>r \<in> set rs. reply r) \<and>
         wbuf c' = wbuf c @ TLen (int (length cbs)) # concat rs))"
proof -
  from exec_cases [OF assms(3-5), of cmd] obtain m1 where
    m1: "\<forall>i. the_db m1 i = the_db m i" "same_env m m1" and
    ex: "cmdExec m c cmd [] =
      (if stale m (watching (ctx c)) then Some (Finished m1 (WriteLen 0 (stopTx (getCtx c))))
       else do {
         (m, c) \<leftarrow> run_all run_txCmd cbs m1 (WriteLen (int (length cbs)) (getCtx c));
         Some (Finished (Broadcast m) (stopTx c))
       })" by blast
  have wf1: "wf_m m1" using m1(1) assms(1) by (simp add: wf_m_def)
  show ?thesis
  proof (cases "stale m (watching (ctx c))")
    case True
    then have "r = Finished m1 (WriteLen 0 (stopTx (getCtx c)))" using ex assms(6) by simp
    with True m1(1) show ?thesis by (simp add: inTx_def write_defs)
  next
    case False
    then have "do { (m, c) \<leftarrow> run_all run_txCmd cbs m1 (WriteLen (int (length cbs)) (getCtx c));
         Some (Finished (Broadcast m) (stopTx c)) } = Some r" using ex assms(6) by simp
    then obtain m2 c2 where all: "run_all run_txCmd cbs m1 (WriteLen (int (length cbs)) (getCtx c)) = Some (m2, c2)"
      and r: "r = Finished (Broadcast m2) (stopTx c2)" by auto
    from tx.run_all_called [OF assms(2) wf1 all] obtain rs where
      2: "same_env m1 m2" "length rs = length cbs" "\<forall>r \<in> set rs. reply r"
        "wrote (concat rs) (WriteLen (int (length cbs)) (getCtx c)) c2" by auto
    have "signal (Broadcast m2) = Suc (signal m)" using m1(2) 2(1) by (simp add: same_env_def Broadcast_def)
    moreover have "wbuf (stopTx c2) = wbuf c @ TLen (int (length cbs)) # concat rs"
      using 2(4) by (simp add: wrote_def write_defs)
    ultimately show ?thesis using False 2(2,3) by (auto simp: r inTx_def)
  qed
qed

end
