(* ===== verification/Handlers.thy ===== *)
theory Handlers
  imports Tx
begin

text \<open>
  The command handlers: the argument checks of every \<open>cmd*\<close> function of \<open>cmd_connection.go\<close>,
  \<open>cmd_generic.go\<close>, \<open>cmd_server.go\<close>, \<open>cmd_list.go\<close> and \<open>cmd_set.go\<close>, up to the call of
  \<open>withTx\<close> or \<open>blocking\<close> with the closure of theory Tx. The contract of a handler is the
  locale \<open>handler\<close>: exactly one complete reply (or none and a wait), and the invariants of the
  server and of the connection kept.
\<close>

type_synonym cmd = "RediQueue \<Rightarrow> peer \<Rightarrow> string \<Rightarrow> string list \<Rightarrow> hres option"

subsection \<open>Connection\<close>

definition cmdPing :: cmd where
  "cmdPing m c cmd args = authed m c (\<lambda>c. Some (Finished m (WriteInline ''PONG'' c)))"

definition cmdAuth :: cmd where
  "cmdAuth m c cmd args =
     (case args of
        [pw] \<Rightarrow>
          if password m = [] then Some (Finished m (WriteError ''ERR Client sent AUTH, but no password is set'' c))
          else if password m \<noteq> pw then Some (Finished m (WriteError ''ERR invalid password'' c))
          else Some (Finished m (WriteOK (setAuthenticated c)))
      | _ \<Rightarrow> usage m c (errWrongNumber cmd))"

definition cmdEcho :: cmd where
  "cmdEcho m c cmd args =
     (case args of
        [msg] \<Rightarrow> authed m c (\<lambda>c. Some (Finished m (WriteBulk msg c)))
      | _ \<Rightarrow> usage m c (errWrongNumber cmd))"

definition cmdSelect :: cmd where
  "cmdSelect m c cmd args =
     (case args of
        [arg] \<Rightarrow> authed m c (\<lambda>c.
          let i = (case Atoi arg of None \<Rightarrow> 0 | Some i \<Rightarrow> i)
          in Some (Finished m (WriteOK (upd_ctx (\<lambda>x. x\<lparr>selectedDB := i\<rparr>) c))))
      | _ \<Rightarrow> usage m c (errWrongNumber cmd))"

definition cmdQuit :: cmd where
  "cmdQuit m c cmd args = Some (Finished m (Close (WriteOK c)))"

lemmas connection_defs [handler_defs] = cmdPing_def cmdAuth_def cmdEcho_def cmdSelect_def cmdQuit_def

subsection \<open>Server\<close>

definition cmdDbsize :: cmd where
  "cmdDbsize m c cmd args =
     (if args \<noteq> [] then usage m c (errWrongNumber cmd)
      else authed m c (\<lambda>c. withTx m c TxDbsize))"

text \<open>FLUSHALL and FLUSHDB drop an ASYNC argument; no other is allowed.\<close>

definition drop_async :: "string list \<Rightarrow> string list" where
  "drop_async args = (if args \<noteq> [] \<and> ToLower (hd args) = ''async'' then tl args else args)"

definition cmdFlushall :: cmd where
  "cmdFlushall m c cmd args =
     (if drop_async args \<noteq> [] then usage m c msgSyntaxError
      else authed m c (\<lambda>c. withTx m c TxFlushall))"

definition cmdFlushdb :: cmd where
  "cmdFlushdb m c cmd args =
     (if drop_async args \<noteq> [] then usage m c msgSyntaxError
      else authed m c (\<lambda>c. withTx m c TxFlushdb))"

lemmas server_defs [handler_defs] = cmdDbsize_def cmdFlushall_def cmdFlushdb_def

subsection \<open>Generic\<close>

definition cmdDel :: cmd where
  "cmdDel m c cmd args = authed m c (\<lambda>c. withTx m c (TxDel args))"

definition cmdType :: cmd where
  "cmdType m c cmd args =
     (case args of
        [key] \<Rightarrow> authed m c (\<lambda>c. withTx m c (TxType key))
      | _ \<Rightarrow> usage m c ''usage error'')"

definition cmdExists :: cmd where
  "cmdExists m c cmd args =
     (if args = [] then usage m c (errWrongNumber cmd)
      else authed m c (\<lambda>c. withTx m c (TxExists args)))"

definition cmdMove :: cmd where
  "cmdMove m c cmd args =
     (case args of
        [key, arg] \<Rightarrow> authed m c (\<lambda>c.
          withTx m c (TxMove key (case Atoi arg of None \<Rightarrow> 0 | Some i \<Rightarrow> i)))
      | _ \<Rightarrow> usage m c (errWrongNumber cmd))"

definition cmdKeys :: cmd where
  "cmdKeys m c cmd args =
     (case args of
        [key] \<Rightarrow> authed m c (\<lambda>c. withTx m c (TxKeys key))
      | _ \<Rightarrow> usage m c (errWrongNumber cmd))"

definition cmdRandomkey :: cmd where
  "cmdRandomkey m c cmd args =
     (if args \<noteq> [] then usage m c (errWrongNumber cmd)
      else authed m c (\<lambda>c. withTx m c TxRandomkey))"

definition cmdRename :: cmd where
  "cmdRename m c cmd args =
     (case args of
        [from, to] \<Rightarrow> authed m c (\<lambda>c. withTx m c (TxRename from to))
      | _ \<Rightarrow> usage m c (errWrongNumber cmd))"

definition cmdRenamenx :: cmd where
  "cmdRenamenx m c cmd args =
     (case args of
        [from, to] \<Rightarrow> authed m c (\<lambda>c. withTx m c (TxRenamenx from to))
      | _ \<Rightarrow> usage m c (errWrongNumber cmd))"

text \<open>
  The loop over MATCH and COUNT, the same in SCAN and SSCAN: the error message, or the last
  pattern given, if any.
\<close>

fun scan_opts :: "string list \<Rightarrow> string option \<Rightarrow> string + string option" where
  "scan_opts [] match = Inr match"
| "scan_opts (a # rest) match =
     (if ToLower a = ''count'' then
        (case rest of
           [] \<Rightarrow> Inl msgSyntaxError
         | n # args \<Rightarrow> if Atoi n = None then Inl msgInvalidInt else scan_opts args match)
      else if ToLower a = ''match'' then
        (case rest of
           [] \<Rightarrow> Inl msgSyntaxError
         | p # args \<Rightarrow> scan_opts args (Some p))
      else Inl msgSyntaxError)"

definition cmdScan :: cmd where
  "cmdScan m c cmd args =
     (case args of
        [] \<Rightarrow> usage m c (errWrongNumber cmd)
      | arg # opts \<Rightarrow> authed m c (\<lambda>c.
          case Atoi arg of
            None \<Rightarrow> usage m c msgInvalidCursor
          | Some cursor \<Rightarrow>
              (case scan_opts opts None of
                 Inl msg \<Rightarrow> usage m c msg
               | Inr match \<Rightarrow> withTx m c (TxScan cursor match))))"

lemmas generic_defs [handler_defs] = cmdDel_def cmdType_def cmdExists_def cmdMove_def cmdKeys_def
  cmdRandomkey_def cmdRename_def cmdRenamenx_def cmdScan_def

subsection \<open>Lists\<close>

definition cmdBXpop :: "leftright \<Rightarrow> cmd" where
  "cmdBXpop lr m c cmd args =
     (if length args < 2 then usage m c (errWrongNumber cmd)
      else authed m c (\<lambda>c.
        case Atoi (last args) of
          None \<Rightarrow> usage m c msgInvalidTimeout
        | Some timeout \<Rightarrow>
            if timeout < 0 then usage m c msgNegTimeout
            else blocking m c timeout (BXpop (butlast args) lr)))"

definition cmdBlpop :: cmd where
  "cmdBlpop = cmdBXpop Left"

definition cmdBrpop :: cmd where
  "cmdBrpop = cmdBXpop Right"

definition cmdLindex :: cmd where
  "cmdLindex m c cmd args =
     (case args of
        [key, offsets] \<Rightarrow> authed m c (\<lambda>c.
          case Atoi offsets of
            None \<Rightarrow> usage m c msgInvalidInt
          | Some offset \<Rightarrow> withTx m c (TxLindex key offset))
      | _ \<Rightarrow> usage m c (errWrongNumber cmd))"

definition cmdLinsert :: cmd where
  "cmdLinsert m c cmd args =
     (case args of
        [key, whr, pivot, v] \<Rightarrow> authed m c (\<lambda>c.
          if ToLower whr = ''before'' then withTx m c (TxLinsert key (-1) pivot v)
          else if ToLower whr = ''after'' then withTx m c (TxLinsert key 1 pivot v)
          else usage m c msgSyntaxError)
      | _ \<Rightarrow> usage m c (errWrongNumber cmd))"

definition cmdLlen :: cmd where
  "cmdLlen m c cmd args =
     (case args of
        [key] \<Rightarrow> authed m c (\<lambda>c. withTx m c (TxLlen key))
      | _ \<Rightarrow> usage m c (errWrongNumber cmd))"

definition cmdXpop :: "leftright \<Rightarrow> cmd" where
  "cmdXpop lr m c cmd args =
     (case args of
        [key] \<Rightarrow> authed m c (\<lambda>c. withTx m c (TxXpop key lr))
      | _ \<Rightarrow> usage m c (errWrongNumber cmd))"

definition cmdLpop :: cmd where
  "cmdLpop = cmdXpop Left"

definition cmdRpop :: cmd where
  "cmdRpop = cmdXpop Right"

definition cmdXpush :: "leftright \<Rightarrow> cmd" where
  "cmdXpush lr m c cmd args =
     (if length args < 2 then usage m c (errWrongNumber cmd)
      else authed m c (\<lambda>c. withTx m c (TxXpush (hd args) (tl args) lr)))"

definition cmdLpush :: cmd where
  "cmdLpush = cmdXpush Left"

definition cmdRpush :: cmd where
  "cmdRpush = cmdXpush Right"

definition cmdXpushx :: "leftright \<Rightarrow> cmd" where
  "cmdXpushx lr m c cmd args =
     (if length args < 2 then usage m c (errWrongNumber cmd)
      else authed m c (\<lambda>c. withTx m c (TxXpushx (hd args) (tl args) lr)))"

definition cmdLpushx :: cmd where
  "cmdLpushx = cmdXpushx Left"

definition cmdRpushx :: cmd where
  "cmdRpushx = cmdXpushx Right"

definition cmdLrange :: cmd where
  "cmdLrange m c cmd args =
     (case args of
        [key, a, b] \<Rightarrow> authed m c (\<lambda>c.
          case Atoi a of
            None \<Rightarrow> usage m c msgInvalidInt
          | Some start \<Rightarrow>
              (case Atoi b of
                 None \<Rightarrow> usage m c msgInvalidInt
               | Some stop \<Rightarrow> withTx m c (TxLrange key start stop)))
      | _ \<Rightarrow> usage m c (errWrongNumber cmd))"

definition cmdLrem :: cmd where
  "cmdLrem m c cmd args =
     (case args of
        [key, n, v] \<Rightarrow> authed m c (\<lambda>c.
          case Atoi n of
            None \<Rightarrow> usage m c msgInvalidInt
          | Some cnt \<Rightarrow> withTx m c (TxLrem key cnt v))
      | _ \<Rightarrow> usage m c (errWrongNumber cmd))"

definition cmdLset :: cmd where
  "cmdLset m c cmd args =
     (case args of
        [key, i, v] \<Rightarrow> authed m c (\<lambda>c.
          case Atoi i of
            None \<Rightarrow> usage m c msgInvalidInt
          | Some index \<Rightarrow> withTx m c (TxLset key index v))
      | _ \<Rightarrow> usage m c (errWrongNumber cmd))"

definition cmdLtrim :: cmd where
  "cmdLtrim m c cmd args =
     (case args of
        [key, a, b] \<Rightarrow> authed m c (\<lambda>c.
          case Atoi a of
            None \<Rightarrow> usage m c msgInvalidInt
          | Some start \<Rightarrow>
              (case Atoi b of
                 None \<Rightarrow> usage m c msgInvalidInt
               | Some stop \<Rightarrow> withTx m c (TxLtrim key start stop)))
      | _ \<Rightarrow> usage m c (errWrongNumber cmd))"

definition cmdRpoplpush :: cmd where
  "cmdRpoplpush m c cmd args =
     (case args of
        [src, dst] \<Rightarrow> authed m c (\<lambda>c. withTx m c (TxRpoplpush src dst))
      | _ \<Rightarrow> usage m c (errWrongNumber cmd))"

definition cmdBrpoplpush :: cmd where
  "cmdBrpoplpush m c cmd args =
     (case args of
        [src, dst, t] \<Rightarrow> authed m c (\<lambda>c.
          case Atoi t of
            None \<Rightarrow> usage m c msgInvalidTimeout
          | Some timeout \<Rightarrow>
              if timeout < 0 then usage m c msgNegTimeout
              else blocking m c timeout (BRpoplpush src dst))
      | _ \<Rightarrow> usage m c (errWrongNumber cmd))"

lemmas list_defs [handler_defs] = cmdBXpop_def cmdBlpop_def cmdBrpop_def cmdLindex_def cmdLinsert_def
  cmdLlen_def cmdXpop_def cmdLpop_def cmdRpop_def cmdXpush_def cmdLpush_def cmdRpush_def cmdXpushx_def
  cmdLpushx_def cmdRpushx_def cmdLrange_def cmdLrem_def cmdLset_def cmdLtrim_def cmdRpoplpush_def
  cmdBrpoplpush_def

subsection \<open>Sets\<close>

definition cmdSadd :: cmd where
  "cmdSadd m c cmd args =
     (if length args < 2 then usage m c (errWrongNumber cmd)
      else authed m c (\<lambda>c. withTx m c (TxSadd (hd args) (tl args))))"

definition cmdScard :: cmd where
  "cmdScard m c cmd args =
     (case args of
        [key] \<Rightarrow> authed m c (\<lambda>c. withTx m c (TxScard key))
      | _ \<Rightarrow> usage m c (errWrongNumber cmd))"

definition cmdSdiff :: cmd where
  "cmdSdiff m c cmd args =
     (if args = [] then usage m c (errWrongNumber cmd)
      else authed m c (\<lambda>c. withTx m c (TxSdiff args)))"

definition cmdSdiffstore :: cmd where
  "cmdSdiffstore m c cmd args =
     (if length args < 2 then usage m c (errWrongNumber cmd)
      else authed m c (\<lambda>c. withTx m c (TxSdiffstore (hd args) (tl args))))"

definition cmdSinter :: cmd where
  "cmdSinter m c cmd args =
     (if args = [] then usage m c (errWrongNumber cmd)
      else authed m c (\<lambda>c. withTx m c (TxSinter args)))"

definition cmdSinterstore :: cmd where
  "cmdSinterstore m c cmd args =
     (if length args < 2 then usage m c (errWrongNumber cmd)
      else authed m c (\<lambda>c. withTx m c (TxSinterstore (hd args) (tl args))))"

definition cmdSismember :: cmd where
  "cmdSismember m c cmd args =
     (case args of
        [key, v] \<Rightarrow> authed m c (\<lambda>c. withTx m c (TxSismember key v))
      | _ \<Rightarrow> usage m c (errWrongNumber cmd))"

definition cmdSmembers :: cmd where
  "cmdSmembers m c cmd args =
     (case args of
        [key] \<Rightarrow> authed m c (\<lambda>c. withTx m c (TxSmembers key))
      | _ \<Rightarrow> usage m c (errWrongNumber cmd))"

definition cmdSmove :: cmd where
  "cmdSmove m c cmd args =
     (case args of
        [src, dst, member] \<Rightarrow> authed m c (\<lambda>c. withTx m c (TxSmove src dst member))
      | _ \<Rightarrow> usage m c (errWrongNumber cmd))"

definition cmdSpop :: cmd where
  "cmdSpop m c cmd args =
     (case args of
        [] \<Rightarrow> usage m c (errWrongNumber cmd)
      | key # args \<Rightarrow> authed m c (\<lambda>c. withTx m c (TxSpop key args)))"

definition cmdSrandmember :: cmd where
  "cmdSrandmember m c cmd args =
     (if length args < 1 then usage m c (errWrongNumber cmd)
      else if length args > 2 then usage m c msgSyntaxError
      else authed m c (\<lambda>c.
        if length args = 2 then
          (case Atoi (args ! 1) of
             None \<Rightarrow> usage m c msgInvalidInt
           | Some cnt \<Rightarrow> withTx m c (TxSrandmember (hd args) cnt True))
        else withTx m c (TxSrandmember (hd args) 0 False)))"

definition cmdSrem :: cmd where
  "cmdSrem m c cmd args =
     (if length args < 2 then usage m c (errWrongNumber cmd)
      else authed m c (\<lambda>c. withTx m c (TxSrem (hd args) (tl args))))"

definition cmdSunion :: cmd where
  "cmdSunion m c cmd args =
     (if args = [] then usage m c (errWrongNumber cmd)
      else authed m c (\<lambda>c. withTx m c (TxSunion args)))"

definition cmdSunionstore :: cmd where
  "cmdSunionstore m c cmd args =
     (if length args < 2 then usage m c (errWrongNumber cmd)
      else authed m c (\<lambda>c. withTx m c (TxSunionstore (hd args) (tl args))))"

definition cmdSscan :: cmd where
  "cmdSscan m c cmd args =
     (case args of
        key # arg # opts \<Rightarrow> authed m c (\<lambda>c.
          case Atoi arg of
            None \<Rightarrow> usage m c msgInvalidCursor
          | Some cursor \<Rightarrow>
              (case scan_opts opts None of
                 Inl msg \<Rightarrow> usage m c msg
               | Inr match \<Rightarrow> withTx m c (TxSscan key cursor match)))
      | _ \<Rightarrow> usage m c (errWrongNumber cmd))"

lemmas set_handler_defs [handler_defs] = cmdSadd_def cmdScard_def cmdSdiff_def cmdSdiffstore_def
  cmdSinter_def cmdSinterstore_def cmdSismember_def cmdSmembers_def cmdSmove_def cmdSpop_def
  cmdSrandmember_def cmdSrem_def cmdSunion_def cmdSunionstore_def cmdSscan_def

subsection \<open>The contract of a handler\<close>

text \<open>What a connection has queued is always a closure the contracts of theory Tx cover.\<close>

definition peer_ok :: "peer \<Rightarrow> bool" where
  "peer_ok c \<longleftrightarrow> (\<forall>cbs. transaction (ctx c) = Some cbs \<longrightarrow> list_all tx_ok cbs)"

text \<open>
  What a handler called on \<open>m\<close> and \<open>c\<close> leaves behind: one complete reply, or no reply and a
  blocked command that finds nothing to do now.
\<close>

fun answered :: "RediQueue \<Rightarrow> peer \<Rightarrow> hres \<Rightarrow> bool" where
  "answered m c (Finished m' c') \<longleftrightarrow>
     wf_m m' \<and> password m' = password m \<and> re_compile m' = re_compile m \<and> signal m \<le> signal m' \<and>
     peer_ok c' \<and> (\<exists>ts. reply ts \<and> wbuf c' = wbuf c @ ts)"
| "answered m c (Waiting m' c' b t) \<longleftrightarrow>
     (\<forall>i. the_db m' i = the_db m i) \<and> same_env m m' \<and> peer_ok c' \<and> wbuf c' = wbuf c \<and>
     \<not> inTx c' \<and> in_int t \<and> (\<exists>m2. run_block b m c' = Some (False, m2, c'))"

text \<open>
  A call that creates a key wakes the clients that may wait for it; and one that waits is
  BLPOP or BRPOP, which will not create a key when it is served.
\<close>

definition no_new_keys :: "RediQueue \<Rightarrow> RediQueue \<Rightarrow> bool" where
  "no_new_keys m m' \<longleftrightarrow>
     (\<forall>i k. value_of (the_db m i) k = None \<longrightarrow> value_of (the_db m' i) k = None)"

fun announces :: "RediQueue \<Rightarrow> hres \<Rightarrow> bool" where
  "announces m (Finished m' c') \<longleftrightarrow> signal m < signal m' \<or> no_new_keys m m'"
| "announces m (Waiting m' c' b t) \<longleftrightarrow> (\<exists>ks lr. b = BXpop ks lr)"

text \<open>
  The laws of one call: the result is \<open>answered\<close>; in a transaction the server is untouched;
  with \<open>tot\<close> the call does not panic; and with \<open>ann\<close> it \<open>announces\<close> what it creates.
\<close>

definition fulfils :: "bool \<Rightarrow> bool \<Rightarrow> RediQueue \<Rightarrow> peer \<Rightarrow> hres option \<Rightarrow> bool" where
  "fulfils tot ann m c res \<longleftrightarrow>
     (tot \<longrightarrow> res \<noteq> None) \<and>
     (\<forall>r. res = Some r \<longrightarrow> answered m c r \<and> (ann \<longrightarrow> announces m r) \<and>
       (inTx c \<longrightarrow> (\<exists>c'. r = Finished m c')))"

locale handler =
  fixes h :: cmd and ok :: "string list \<Rightarrow> bool" and ann :: bool
  assumes h_answered: "wf_m m \<Longrightarrow> peer_ok c \<Longrightarrow> ok args \<Longrightarrow> h m c cmd args = Some r \<Longrightarrow> answered m c r"
    and h_announces: "wf_m m \<Longrightarrow> peer_ok c \<Longrightarrow> ok args \<Longrightarrow> h m c cmd args = Some r \<Longrightarrow> ann \<Longrightarrow> announces m r"

text \<open>Every handler but EXEC: inside of a transaction it only queues, or answers an error.\<close>

locale deferring_handler = handler +
  assumes h_defers: "wf_m m \<Longrightarrow> peer_ok c \<Longrightarrow> ok args \<Longrightarrow> inTx c \<Longrightarrow> h m c cmd args = Some r \<Longrightarrow>
    \<exists>c'. r = Finished m c'"

text \<open>The handlers that never panic.\<close>

locale total_handler = deferring_handler +
  assumes h_total: "wf_m m \<Longrightarrow> peer_ok c \<Longrightarrow> ok args \<Longrightarrow> h m c cmd args \<noteq> None"

lemma deferring_handlerI:
  assumes "\<And>m c cmd args. wf_m m \<Longrightarrow> peer_ok c \<Longrightarrow> ok args \<Longrightarrow> fulfils False ann m c (h m c cmd args)"
  shows "deferring_handler h ok ann"
  by standard (use assms in \<open>auto simp: fulfils_def\<close>)

lemma total_handlerI:
  assumes "\<And>m c cmd args. wf_m m \<Longrightarrow> peer_ok c \<Longrightarrow> ok args \<Longrightarrow> fulfils True ann m c (h m c cmd args)"
  shows "total_handler h ok ann"
  by standard (use assms in \<open>fastforce simp: fulfils_def\<close>)+

subsection \<open>The pieces handlers are made of\<close>

named_theorems piece

lemma peer_ok_ctx [simp]:
  "peer_ok (emit ts c) = peer_ok c" "peer_ok (getCtx c) = peer_ok c"
  "peer_ok (setAuthenticated c) = peer_ok c"
  "peer_ok (upd_ctx (\<lambda>x. x\<lparr>selectedDB := i\<rparr>) c) = peer_ok c"
  "peer_ok (unwatch c) = peer_ok c" "peer_ok (stopTx c)" "peer_ok (startTx c)" "peer_ok (Close c) = peer_ok c"
  by (simp_all add: peer_ok_def setAuthenticated_def unwatch_def)
    (simp_all add: Close_def ctx_def)

lemma peer_ok_setDirty [simp]: "peer_ok (setDirty c) = peer_ok c"
  using wrote_setDirty [of c] by (simp add: peer_ok_def wrote_def)

lemma inTx_keep [simp]:
  "inTx (emit ts c) = inTx c" "inTx (unwatch c) = inTx c" "inTx (setAuthenticated c) = inTx c"
  by (simp_all add: inTx_def unwatch_def setAuthenticated_def)

lemma wbuf_tx [simp]:
  "wbuf (addTxCmd cb c) = wbuf c" "wbuf (unwatch c) = wbuf c" "wbuf (setAuthenticated c) = wbuf c"
  "wbuf (Close c) = wbuf c"
  by (simp_all add: addTxCmd_def unwatch_def setAuthenticated_def Close_def)

lemma peer_ok_addTxCmd [simp]: "peer_ok c \<Longrightarrow> tx_ok cb \<Longrightarrow> peer_ok (addTxCmd cb c)"
  by (auto simp: peer_ok_def addTxCmd_def split: option.split)

lemma peer_ok_wrote: "wrote ts c c' \<Longrightarrow> peer_ok c' = peer_ok c"
  by (simp add: peer_ok_def wrote_def)

lemma Broadcast_simps [simp]:
  "password (Broadcast m) = password m" "re_compile (Broadcast m) = re_compile m"
  "signal (Broadcast m) = Suc (signal m)" "rand (Broadcast m) = rand m"
  by (simp_all add: Broadcast_def)

lemma no_new_keys_same [intro]: "\<forall>i. the_db m' i = the_db m i \<Longrightarrow> no_new_keys m m'"
  by (simp add: no_new_keys_def)

lemma no_new_keys_refl [simp]: "no_new_keys m m" "no_new_keys m (snd (m_db i m))"
  by (simp_all add: no_new_keys_def)

lemma finished_piece [piece]:
  "wf_m m \<Longrightarrow> peer_ok c' \<Longrightarrow> \<exists>ts. reply ts \<and> wbuf c' = wbuf c @ ts \<Longrightarrow> fulfils t a m c (Some (Finished m c'))"
  by (simp add: fulfils_def)

lemma usage_piece [piece]: "wf_m m \<Longrightarrow> peer_ok c \<Longrightarrow> fulfils t a m c (usage m c msg)"
  by (simp add: usage_def fulfils_def write_defs)

lemma authed_piece [piece]:
  assumes "wf_m m" "peer_ok c"
    and "\<And>c'. peer_ok c' \<Longrightarrow> wbuf c' = wbuf c \<Longrightarrow> inTx c' = inTx c \<Longrightarrow> fulfils t a m c' (k c')"
  shows "fulfils t a m c (authed m c k)"
proof (cases "may_use m c")
  case True
  define c1 where "c1 = (if password m = [] then c else getCtx c)"
  have "fulfils t a m c1 (k c1)"
    using assms(2) by (intro assms(3)) (simp_all add: c1_def)
  moreover have same: "answered m c1 r = answered m c r" for r
    by (cases r) (simp_all add: c1_def)
  ultimately show ?thesis
    by (simp add: authed_ok [OF True] fulfils_def c1_def [symmetric])
      (simp add: c1_def split: if_splits)
next
  case False
  then show ?thesis using assms(1,2) by (simp add: authed_no fulfils_def write_defs)
qed

lemma withTx_piece [piece]:
  assumes "wf_m m" "peer_ok c" "tx_ok cb" "t \<longrightarrow> (\<forall>db. \<not> panics_on cb m db)"
  shows "fulfils t a m c (withTx m c cb)"
proof (cases "inTx c")
  case True
  then show ?thesis using assms(1-3) by (simp add: withTx_def fulfils_def write_defs)
next
  case False
  have "t \<longrightarrow> run_txCmd cb m (getCtx c) \<noteq> None"
    using assms by (simp add: txCmd_None_iff)
  moreover have "answered m c (Finished (Broadcast m1) c1) \<and> signal m1 = signal m"
    if "run_txCmd cb m (getCtx c) = Some (m1, c1)" for m1 c1
  proof -
    from txCmd_called [OF assms(3,1) that] obtain ts
      where ts: "wf_m m1" "same_env m m1" "reply ts" "wrote ts (getCtx c) c1" by (auto simp: called_def)
    have "peer_ok c1" "wbuf c1 = wbuf c @ ts"
      using assms(2) peer_ok_wrote [OF ts(4)] ts(4) by (simp_all add: wrote_def)
    with ts show ?thesis by (auto simp: same_env_def)
  qed
  ultimately show ?thesis using False
    by (auto simp: withTx_def fulfils_def)
qed

lemma run_block_again:
  assumes "wf_m m" "run_block b m c = Some (False, m1, c1)"
  shows "c1 = c" "\<forall>i. the_db m1 i = the_db m i" "same_env m m1"
  using assms by (auto elim: run_block_Some [of m b c])

text \<open>BLPOP and BRPOP only take away; BRPOPLPUSH does not announce what it pushes.\<close>

lemma bxpop_no_new_keys:
  assumes "wf_m m" "run_block (BXpop ks lr) m c = Some (fin, m', c')"
  shows "no_new_keys m m'"
proof -
  let ?i = "selectedDB (ctx c)"
  let ?db = "the_db m ?i"
  have wf: "wf_db ?db" using assms(1) by auto
  obtain db' ts where b: "bxpop_body ks lr ?db = Some (fin, db', ts)"
    and m': "m' = put_db ?i db' (snd (m_db ?i m))"
    using assms(2) by (auto simp: run_block_def case_prod_unfold Let_def split: option.splits)
  have "value_of db' k = None" if none: "value_of ?db k = None" for k
  proof (cases "find (\<lambda>k. value_of ?db k \<noteq> None) ks")
    case None
    then show ?thesis using b none by (simp add: bxpop_eq [OF wf])
  next
    case (Some key)
    then have key: "value_of ?db key \<noteq> None" by (auto simp: find_Some_iff)
    show ?thesis
    proof (cases rule: key_cases [of ?db key])
      case (list l)
      from pop_spec [OF wf list, of lr] obtain db1 n
        where "pop lr key ?db = Some (fst (popped lr l), db1)"
          and c: "changed key (list_val (snd (popped lr l))) n ?db db1" by blast
      then have "db' = db1" using b Some list by (simp add: bxpop_eq [OF wf])
      then show ?thesis using c none key by (auto simp: changed_def)
    qed (use b Some key none in \<open>auto simp: bxpop_eq [OF wf]\<close>)
  qed
  then show ?thesis by (simp add: no_new_keys_def m')
qed

lemma blocking_piece [piece]:
  assumes "wf_m m" "peer_ok c" "a \<longrightarrow> (\<exists>ks lr. b = BXpop ks lr)"
  shows "fulfils t a m c (blocking m c timeout b)"
proof (cases "inTx c")
  case True
  then show ?thesis using assms by (simp add: blocking_def fulfils_def write_defs)
next
  case False
  from assms(1) show ?thesis
  proof (cases rule: run_block_Some [of m b "getCtx c"])
    case (waits m1)
    then show ?thesis using False assms(2,3) by (simp add: blocking_def fulfils_def)
  next
    case (serves m1 ts)
    have "a \<longrightarrow> no_new_keys m m1" using assms(1,3) serves(1) bxpop_no_new_keys by blast
    then show ?thesis using serves False assms(2)
      by (auto simp: blocking_def fulfils_def same_env_def)
  qed
qed

lemmas handler_splits = list.split option.split sum.split if_split

lemma tl_Nil_iff: "tl xs = [] \<longleftrightarrow> length xs < 2"
  by (cases xs) (auto simp: less_Suc_eq)

lemma fulfils_same: "fulfils t a m c' res \<Longrightarrow> wbuf c' = wbuf c \<Longrightarrow> inTx c' = inTx c \<Longrightarrow> fulfils t a m c res"
proof -
  assume f: "fulfils t a m c' res" and same: "wbuf c' = wbuf c" "inTx c' = inTx c"
  have "answered m c r = answered m c' r" for r using same by (cases r) simp_all
  with f same show ?thesis by (simp add: fulfils_def)
qed

lemma watch_fold [simp]:
  "wbuf (fold (watch db) args c) = wbuf c" "peer_ok (fold (watch db) args c) = peer_ok c"
proof -
  have one: "wbuf (watch db k c) = wbuf c \<and> peer_ok (watch db k c) = peer_ok c" for k and c :: peer
    by (simp add: watch_def peer_ok_def)
  show "wbuf (fold (watch db) args c) = wbuf c" "peer_ok (fold (watch db) args c) = peer_ok c"
    by (induction args arbitrary: c) (simp_all add: one)
qed

lemma finished_db_piece [piece]:
  "wf_m m \<Longrightarrow> peer_ok c' \<Longrightarrow> \<exists>ts. reply ts \<and> wbuf c' = wbuf c @ ts \<Longrightarrow>
     \<not> inTx c \<Longrightarrow> fulfils t a m c (Some (Finished (snd (m_db i m)) c'))"
  by (simp add: fulfils_def)

lemma unwatch_piece:
  assumes "wf_m m" "peer_ok c"
  shows "fulfils True a m c (withTx m (unwatch (getCtx c)) TxUnwatch)"
  by (rule fulfils_same [of _ _ _ "unwatch (getCtx c)"]) (use assms in \<open>auto intro: piece\<close>)

subsection \<open>Every handler keeps its contract\<close>

interpretation h_ping: total_handler cmdPing "\<lambda>_. True" True
  by (rule total_handlerI) (auto simp: cmdPing_def write_defs split: handler_splits intro!: piece)

interpretation h_auth: total_handler cmdAuth "\<lambda>_. True" True
  by (rule total_handlerI) (auto simp: cmdAuth_def write_defs split: handler_splits intro!: piece)

interpretation h_echo: total_handler cmdEcho "\<lambda>_. True" True
  by (rule total_handlerI) (auto simp: cmdEcho_def write_defs split: handler_splits intro!: piece)

interpretation h_select: total_handler cmdSelect "\<lambda>_. True" True
  by (rule total_handlerI) (auto simp: cmdSelect_def write_defs split: handler_splits intro!: piece)

interpretation h_quit: total_handler cmdQuit "\<lambda>_. True" True
  by (rule total_handlerI) (auto simp: cmdQuit_def write_defs split: handler_splits intro!: piece)

interpretation h_dbsize: total_handler cmdDbsize "\<lambda>_. True" True
  by (rule total_handlerI) (auto simp: cmdDbsize_def write_defs split: handler_splits intro!: piece)

interpretation h_flushall: total_handler cmdFlushall "\<lambda>_. True" True
  by (rule total_handlerI) (auto simp: cmdFlushall_def write_defs split: handler_splits intro!: piece)

interpretation h_flushdb: total_handler cmdFlushdb "\<lambda>_. True" True
  by (rule total_handlerI) (auto simp: cmdFlushdb_def write_defs split: handler_splits intro!: piece)

interpretation h_del: total_handler cmdDel "\<lambda>_. True" True
  by (rule total_handlerI) (auto simp: cmdDel_def write_defs split: handler_splits intro!: piece)

interpretation h_type: total_handler cmdType "\<lambda>_. True" True
  by (rule total_handlerI) (auto simp: cmdType_def write_defs split: handler_splits intro!: piece)

interpretation h_exists: total_handler cmdExists "\<lambda>_. True" True
  by (rule total_handlerI) (auto simp: cmdExists_def write_defs split: handler_splits intro!: piece)

interpretation h_move: total_handler cmdMove "\<lambda>_. True" True
  by (rule total_handlerI) (auto simp: cmdMove_def write_defs split: handler_splits intro!: piece)

interpretation h_randomkey: total_handler cmdRandomkey "\<lambda>_. True" True
  by (rule total_handlerI) (auto simp: cmdRandomkey_def write_defs split: handler_splits intro!: piece)

interpretation h_renamenx: total_handler cmdRenamenx "\<lambda>_. True" True
  by (rule total_handlerI) (auto simp: cmdRenamenx_def write_defs split: handler_splits intro!: piece)

interpretation h_keys: deferring_handler cmdKeys "\<lambda>_. True" True
  by (rule deferring_handlerI) (auto simp: cmdKeys_def write_defs split: handler_splits intro!: piece)

interpretation h_rename: deferring_handler cmdRename "\<lambda>_. True" True
  by (rule deferring_handlerI) (auto simp: cmdRename_def write_defs split: handler_splits intro!: piece)

interpretation h_scan: deferring_handler cmdScan "\<lambda>_. True" True
  by (rule deferring_handlerI) (auto simp: cmdScan_def write_defs split: handler_splits intro!: piece)

interpretation h_bxpop: total_handler "cmdBXpop lr" "\<lambda>_. True" True for lr
  by (rule total_handlerI) (auto simp: cmdBXpop_def write_defs split: handler_splits intro!: piece)

interpretation h_blpop: total_handler cmdBlpop "\<lambda>_. True" True
  unfolding cmdBlpop_def by unfold_locales

interpretation h_brpop: total_handler cmdBrpop "\<lambda>_. True" True
  unfolding cmdBrpop_def by unfold_locales

interpretation h_lindex: total_handler cmdLindex "\<lambda>_. True" True
  by (rule total_handlerI) (auto simp: cmdLindex_def write_defs split: handler_splits intro!: piece)

interpretation h_linsert: total_handler cmdLinsert "\<lambda>_. True" True
  by (rule total_handlerI) (auto simp: cmdLinsert_def write_defs split: handler_splits intro!: piece)

interpretation h_llen: total_handler cmdLlen "\<lambda>_. True" True
  by (rule total_handlerI) (auto simp: cmdLlen_def write_defs split: handler_splits intro!: piece)

interpretation h_xpop: total_handler "cmdXpop lr" "\<lambda>_. True" True for lr
  by (rule total_handlerI) (auto simp: cmdXpop_def write_defs split: handler_splits intro!: piece)

interpretation h_lpop: total_handler cmdLpop "\<lambda>_. True" True
  unfolding cmdLpop_def by unfold_locales

interpretation h_rpop: total_handler cmdRpop "\<lambda>_. True" True
  unfolding cmdRpop_def by unfold_locales

interpretation h_xpush: total_handler "cmdXpush lr" "\<lambda>_. True" True for lr
  by (rule total_handlerI) (auto simp: cmdXpush_def write_defs split: handler_splits intro!: piece)

interpretation h_lpush: total_handler cmdLpush "\<lambda>_. True" True
  unfolding cmdLpush_def by unfold_locales

interpretation h_rpush: total_handler cmdRpush "\<lambda>_. True" True
  unfolding cmdRpush_def by unfold_locales

interpretation h_xpushx: total_handler "cmdXpushx lr" "\<lambda>_. True" True for lr
  by (rule total_handlerI) (auto simp: cmdXpushx_def write_defs split: handler_splits intro!: piece)

interpretation h_lpushx: total_handler cmdLpushx "\<lambda>_. True" True
  unfolding cmdLpushx_def by unfold_locales

interpretation h_rpushx: total_handler cmdRpushx "\<lambda>_. True" True
  unfolding cmdRpushx_def by unfold_locales

interpretation h_lrange: total_handler cmdLrange "\<lambda>_. True" True
  by (rule total_handlerI) (auto simp: cmdLrange_def write_defs split: handler_splits intro!: piece)

interpretation h_lrem: total_handler cmdLrem "\<lambda>_. True" True
  by (rule total_handlerI) (auto simp: cmdLrem_def write_defs split: handler_splits intro!: piece)

interpretation h_lset: total_handler cmdLset "\<lambda>_. True" True
  by (rule total_handlerI) (auto simp: cmdLset_def write_defs split: handler_splits intro!: piece)

interpretation h_ltrim: total_handler cmdLtrim "\<lambda>_. True" True
  by (rule total_handlerI) (auto simp: cmdLtrim_def write_defs split: handler_splits intro!: piece)

interpretation h_rpoplpush: total_handler cmdRpoplpush "\<lambda>_. True" True
  by (rule total_handlerI) (auto simp: cmdRpoplpush_def write_defs split: handler_splits intro!: piece)

interpretation h_brpoplpush: total_handler cmdBrpoplpush "\<lambda>_. True" False
  by (rule total_handlerI) (auto simp: cmdBrpoplpush_def write_defs split: handler_splits intro!: piece)

interpretation h_sadd: total_handler cmdSadd "\<lambda>_. True" True
  by (rule total_handlerI) (auto simp: cmdSadd_def write_defs split: handler_splits intro!: piece)

interpretation h_scard: total_handler cmdScard "\<lambda>_. True" True
  by (rule total_handlerI) (auto simp: cmdScard_def write_defs split: handler_splits intro!: piece)

interpretation h_sdiff: total_handler cmdSdiff "\<lambda>_. True" True
  by (rule total_handlerI) (auto simp: cmdSdiff_def write_defs split: handler_splits intro!: piece)

interpretation h_sdiffstore: total_handler cmdSdiffstore "\<lambda>_. True" True
  by (rule total_handlerI) (auto simp: cmdSdiffstore_def write_defs tl_Nil_iff split: handler_splits intro!: piece)

interpretation h_sinter: total_handler cmdSinter "\<lambda>_. True" True
  by (rule total_handlerI) (auto simp: cmdSinter_def write_defs split: handler_splits intro!: piece)

interpretation h_sinterstore: total_handler cmdSinterstore "\<lambda>_. True" True
  by (rule total_handlerI) (auto simp: cmdSinterstore_def write_defs tl_Nil_iff split: handler_splits intro!: piece)

interpretation h_sismember: total_handler cmdSismember "\<lambda>_. True" True
  by (rule total_handlerI) (auto simp: cmdSismember_def write_defs split: handler_splits intro!: piece)

interpretation h_smembers: total_handler cmdSmembers "\<lambda>_. True" True
  by (rule total_handlerI) (auto simp: cmdSmembers_def write_defs split: handler_splits intro!: piece)

interpretation h_smove: total_handler cmdSmove "\<lambda>_. True" True
  by (rule total_handlerI) (auto simp: cmdSmove_def write_defs split: handler_splits intro!: piece)

interpretation h_spop: total_handler cmdSpop "\<lambda>_. True" True
  by (rule total_handlerI) (auto simp: cmdSpop_def write_defs split: handler_splits intro!: piece)

interpretation h_srem: total_handler cmdSrem "\<lambda>_. True" True
  by (rule total_handlerI) (auto simp: cmdSrem_def write_defs split: handler_splits intro!: piece)

interpretation h_sunion: total_handler cmdSunion "\<lambda>_. True" True
  by (rule total_handlerI) (auto simp: cmdSunion_def write_defs split: handler_splits intro!: piece)

interpretation h_sunionstore: total_handler cmdSunionstore "\<lambda>_. True" True
  by (rule total_handlerI) (auto simp: cmdSunionstore_def write_defs tl_Nil_iff split: handler_splits intro!: piece)

interpretation h_sscan: deferring_handler cmdSscan "\<lambda>_. True" True
  by (rule deferring_handlerI) (auto simp: cmdSscan_def write_defs split: handler_splits intro!: piece)

text \<open>SRANDMEMBER keeps it but for one count, whose negation wraps.\<close>

definition srandmember_args :: "string list \<Rightarrow> bool" where
  "srandmember_args args \<longleftrightarrow> (length args = 2 \<longrightarrow> Atoi (args ! 1) \<noteq> Some min_int)"

lemma tx_ok_srandmember:
  "Atoi s = Some n \<Longrightarrow> n \<noteq> min_int \<Longrightarrow> tx_ok (TxSrandmember key n True)" "tx_ok (TxSrandmember key 0 False)"
  by (auto intro: Atoi_in_int) (simp_all add: int_bounds)

interpretation h_srandmember: deferring_handler cmdSrandmember srandmember_args True
  by (rule deferring_handlerI)
    (auto simp: cmdSrandmember_def srandmember_args_def simp del: tx_ok.simps(1)
      split: handler_splits intro!: piece tx_ok_srandmember)

interpretation h_multi: total_handler cmdMulti "\<lambda>_. True" True
  by (rule total_handlerI) (auto simp: cmdMulti_def write_defs split: handler_splits intro!: piece)

interpretation h_discard: total_handler cmdDiscard "\<lambda>_. True" True
  by (rule total_handlerI) (auto simp: cmdDiscard_def write_defs split: handler_splits intro!: piece)

interpretation h_watch: total_handler cmdWatch "\<lambda>_. True" True
  by (rule total_handlerI)
    (auto simp: cmdWatch_def write_defs case_prod_unfold Let_def split: handler_splits intro!: piece)

interpretation h_unwatch: total_handler cmdUnwatch "\<lambda>_. True" True
  by (rule total_handlerI) (auto simp: cmdUnwatch_def split: handler_splits intro!: piece unwatch_piece)

lemma stopTx_answer:
  "wf_m m' \<Longrightarrow> same_env m m' \<Longrightarrow> wrote ts (getCtx c) c' \<Longrightarrow> reply ts \<Longrightarrow>
     answered m c (Finished (Broadcast m') (stopTx c'))"
  by (auto simp: same_env_def wrote_def)

lemma exec_answered:
  assumes wf: "wf_m m" and ok: "peer_ok c" and run: "cmdExec m c cmd args = Some r"
  shows "answered m c r \<and> announces m r"
proof -
  consider (no) "args \<noteq> [] \<or> \<not> may_use m c \<or> \<not> inTx c \<or> dirtyTransaction (ctx c)"
    | (exec) cbs where "args = []" "may_use m c" "transaction (ctx c) = Some cbs" "\<not> dirtyTransaction (ctx c)"
    by (cases "transaction (ctx c)") (auto simp: inTx_def)
  then show ?thesis
  proof cases
    case no
    then show ?thesis using run wf ok
      by (cases "may_use m c")
        (auto simp: cmdExec_def usage_def authed_ok authed_no write_defs Let_def split: if_splits)
  next
    case exec
    then have cbs: "list_all tx_ok cbs" using ok by (simp add: peer_ok_def)
    show ?thesis
    proof (cases rule: exec_cases [OF exec(2-4), of cmd])
      case (1 m1)
      have wf1: "wf_m m1" using 1(1) wf by (simp add: wf_m_def)
      show ?thesis
      proof (cases "stale m (watching (ctx c))")
        case True
        then have "r = Finished m1 (WriteLen 0 (stopTx (getCtx c)))" using 1(3) run exec(1) by simp
        then show ?thesis using wf1 1(1,2) by (simp add: same_env_def write_defs no_new_keys_same)
      next
        case False
        then obtain m2 c2 where all: "run_all run_txCmd cbs m1 (WriteLen (int (length cbs)) (getCtx c)) = Some (m2, c2)"
          and r: "r = Finished (Broadcast m2) (stopTx c2)" using 1(3) run exec(1) by auto
        from tx.run_all_called [OF cbs wf1 all] obtain rs where
          2: "wf_m m2" "same_env m1 m2" "length rs = length cbs" "\<forall>r \<in> set rs. reply r"
            "wrote (concat rs) (WriteLen (int (length cbs)) (getCtx c)) c2" by auto
        have "wrote (TLen (int (length cbs)) # concat rs) (getCtx c) c2"
          using 2(5) by (simp add: wrote_def WriteLen_def)
        moreover have "reply (TLen (int (length cbs)) # concat rs)" using reply.array 2(3,4) by metis
        ultimately have "answered m c r" unfolding r
          using stopTx_answer 2(1,2) 1(2) same_env_trans by metis
        moreover have "announces m r" using 1(2) 2(2) by (simp add: r same_env_def)
        ultimately show ?thesis by simp
      qed
    qed
  qed
qed

interpretation h_exec: handler cmdExec "\<lambda>_. True" True
  by standard (simp_all add: exec_answered)

end
