(* ===== verification/Server.thy ===== *)
theory Server
  imports Handlers
begin

text \<open>
  The server of \<open>server/server.go\<close>: the command table, the dispatch of one request, and the
  bookkeeping of connections; and the registration of every command (\<open>start\<close> of
  \<open>rediqueue.go\<close> and the \<open>commands*\<close> functions). \<open>dispatch\<close> keeps the contract of the handler
  it calls, whatever the table: that is the locale \<open>command_table\<close>.
\<close>

definition errUnknownCommand :: "string \<Rightarrow> string" where
  "errUnknownCommand cmd = ''ERR unknown command '' @ [CHR 0x27] @ ToLower cmd @ [CHR 0x27]"

text \<open>Connections are named by numbers.\<close>

record Server =
  cmds :: "(string, cmd) fmap"
  peers :: "nat fset"
  infoConns :: int
  infoCmds :: int

definition NewServer :: Server where
  "NewServer = \<lparr>cmds = fmempty, peers = {||}, infoConns = 0, infoCmds = 0\<rparr>"

text \<open>The first and the last thing the goroutine of a connection does, in \<open>serve\<close>.\<close>

definition serve_start :: "nat \<Rightarrow> Server \<Rightarrow> Server" where
  "serve_start conn s = s\<lparr>peers := finsert conn (peers s), infoConns := i64 (infoConns s + 1)\<rparr>"

definition serve_end :: "nat \<Rightarrow> Server \<Rightarrow> Server" where
  "serve_end conn s = s\<lparr>peers := peers s |-| {|conn|}\<rparr>"

definition TotalCommands :: "Server \<Rightarrow> int" where
  "TotalCommands s = infoCmds s"

definition ClientsLen :: "Server \<Rightarrow> int" where
  "ClientsLen s = int (fcard (peers s))"

definition TotalConnections :: "Server \<Rightarrow> int" where
  "TotalConnections s = infoConns s"

text \<open>\<open>Register\<close>: an error message, or the server with the command added.\<close>

definition Register :: "string \<Rightarrow> cmd \<Rightarrow> Server \<Rightarrow> string + Server" where
  "Register name f s =
     (let cmd = ToUpper name in
        if fmlookup (cmds s) cmd \<noteq> None then Inl (''command already registered: '' @ cmd)
        else Inr (s\<lparr>cmds := fmupd cmd f (cmds s)\<rparr>))"

text \<open>The error of \<open>Register\<close> is ignored by every caller.\<close>

definition register :: "string \<times> cmd \<Rightarrow> Server \<Rightarrow> Server" where
  "register nf s = (case Register (fst nf) (snd nf) s of Inl _ \<Rightarrow> s | Inr s \<Rightarrow> s)"

definition dispatch :: "Server \<Rightarrow> RediQueue \<Rightarrow> peer \<Rightarrow> string list \<Rightarrow> (Server \<times> hres) option" where
  "dispatch s m c args =
     (case args of
        [] \<Rightarrow> None
      | a # args \<Rightarrow>
          let cmd = ToUpper a in
          case fmlookup (cmds s) cmd of
            None \<Rightarrow> Some (s, Finished m (WriteError (errUnknownCommand cmd) c))
          | Some cb \<Rightarrow> do {
              r \<leftarrow> cb m c cmd args;
              Some (s\<lparr>infoCmds := i64 (infoCmds s + 1)\<rparr>, r)
            })"

subsection \<open>Registration\<close>

definition commandsConnection :: "(string \<times> cmd) list" where
  "commandsConnection =
     [(''AUTH'', cmdAuth), (''ECHO'', cmdEcho), (''PING'', cmdPing), (''SELECT'', cmdSelect), (''QUIT'', cmdQuit)]"

definition commandsGeneric :: "(string \<times> cmd) list" where
  "commandsGeneric =
     [(''DEL'', cmdDel), (''EXISTS'', cmdExists), (''KEYS'', cmdKeys), (''MOVE'', cmdMove),
      (''RANDOMKEY'', cmdRandomkey), (''RENAME'', cmdRename), (''RENAMENX'', cmdRenamenx),
      (''TYPE'', cmdType), (''SCAN'', cmdScan)]"

definition commandsServer :: "(string \<times> cmd) list" where
  "commandsServer = [(''DBSIZE'', cmdDbsize), (''FLUSHALL'', cmdFlushall), (''FLUSHDB'', cmdFlushdb)]"

definition commandsList :: "(string \<times> cmd) list" where
  "commandsList =
     [(''BLPOP'', cmdBlpop), (''BRPOP'', cmdBrpop), (''BRPOPLPUSH'', cmdBrpoplpush), (''LINDEX'', cmdLindex),
      (''LINSERT'', cmdLinsert), (''LLEN'', cmdLlen), (''LPOP'', cmdLpop), (''LPUSH'', cmdLpush),
      (''LPUSHX'', cmdLpushx), (''LRANGE'', cmdLrange), (''LREM'', cmdLrem), (''LSET'', cmdLset),
      (''LTRIM'', cmdLtrim), (''RPOP'', cmdRpop), (''RPOPLPUSH'', cmdRpoplpush), (''RPUSH'', cmdRpush),
      (''RPUSHX'', cmdRpushx)]"

definition commandsSet :: "(string \<times> cmd) list" where
  "commandsSet =
     [(''SADD'', cmdSadd), (''SCARD'', cmdScard), (''SDIFF'', cmdSdiff), (''SDIFFSTORE'', cmdSdiffstore),
      (''SINTER'', cmdSinter), (''SINTERSTORE'', cmdSinterstore), (''SISMEMBER'', cmdSismember),
      (''SMEMBERS'', cmdSmembers), (''SMOVE'', cmdSmove), (''SPOP'', cmdSpop),
      (''SRANDMEMBER'', cmdSrandmember), (''SREM'', cmdSrem), (''SUNION'', cmdSunion),
      (''SUNIONSTORE'', cmdSunionstore), (''SSCAN'', cmdSscan)]"

definition commandsTransaction :: "(string \<times> cmd) list" where
  "commandsTransaction =
     [(''DISCARD'', cmdDiscard), (''EXEC'', cmdExec), (''MULTI'', cmdMulti), (''UNWATCH'', cmdUnwatch),
      (''WATCH'', cmdWatch)]"

definition start :: "Server \<Rightarrow> Server" where
  "start s = fold register commandsTransaction (fold register commandsSet (fold register commandsList
     (fold register commandsServer (fold register commandsGeneric (fold register commandsConnection s)))))"

lemmas commands_defs = commandsConnection_def commandsGeneric_def commandsServer_def commandsList_def
  commandsSet_def commandsTransaction_def

definition commandTable :: "(string \<times> cmd) list" where
  "commandTable = commandsConnection @ commandsGeneric @ commandsServer @ commandsList @ commandsSet @
     commandsTransaction"

lemma start_table: "start s = fold register commandTable s"
  by (simp add: start_def commandTable_def)

lemma register_fresh:
  "ToUpper n = n \<Longrightarrow> n |\<notin>| fmdom (cmds s) \<Longrightarrow> register (n, f) s = s\<lparr>cmds := fmupd n f (cmds s)\<rparr>"
  by (simp add: register_def Register_def fmdom_notD)

lemma register_all:
  assumes "distinct (map fst t)" "\<forall>n \<in> fst ` set t. ToUpper n = n \<and> n |\<notin>| fmdom (cmds s)"
  shows "fmlookup (cmds (fold register t s)) n =
    (case map_of t n of None \<Rightarrow> fmlookup (cmds s) n | Some f \<Rightarrow> Some f)"
  using assms
proof (induction t arbitrary: s)
  case Nil
  then show ?case by simp
next
  case (Cons nf t)
  obtain n' f where nf: "nf = (n', f)" by force
  let ?s = "s\<lparr>cmds := fmupd n' f (cmds s)\<rparr>"
  have reg: "register nf s = ?s" using Cons.prems(2) by (simp add: nf register_fresh)
  have "fmlookup (cmds (fold register t ?s)) n =
    (case map_of t n of None \<Rightarrow> fmlookup (cmds ?s) n | Some f \<Rightarrow> Some f)"
    using Cons.prems by (intro Cons.IH) (auto simp: nf image_iff)
  moreover have "map_of t n' = None" using Cons.prems(1) by (simp add: nf map_of_eq_None_iff)
  ultimately show ?case using reg by (auto simp: nf split: option.split)
qed

lemma table_names:
  "distinct (map fst commandTable)" "\<forall>n \<in> fst ` set commandTable. ToUpper n = n"
proof -
  show "distinct (map fst commandTable)"
    by (simp add: commandTable_def commands_defs)
  have "list_all (\<lambda>n. ToUpper n = n) (map fst commandTable)"
    by (simp add: commandTable_def commands_defs) code_simp
  then show "\<forall>n \<in> fst ` set commandTable. ToUpper n = n" by (simp add: list_all_iff)
qed

lemma started_lookup: "fmlookup (cmds (start NewServer)) n = map_of commandTable n"
proof -
  have "cmds NewServer = fmempty" by (simp add: NewServer_def)
  then show ?thesis
    using register_all [of commandTable NewServer n] table_names
    by (simp add: start_table split: option.splits)
qed

subsection \<open>The contract of dispatch\<close>

text \<open>The server has exactly the commands of a table.\<close>

definition serving :: "(string \<times> cmd) list \<Rightarrow> Server \<Rightarrow> bool" where
  "serving table s \<longleftrightarrow> (\<forall>n. fmlookup (cmds s) n = map_of table n)"

text \<open>
  A table whose commands keep the contract of handlers, under a condition on the arguments;
  \<open>ann\<close>, \<open>defers\<close> and \<open>safe\<close> name the commands that keep the stronger ones.
\<close>

locale command_table =
  fixes table :: "(string \<times> cmd) list" and ok :: "string \<Rightarrow> string list \<Rightarrow> bool"
    and ann :: "string \<Rightarrow> bool" and defers :: "string \<Rightarrow> bool" and safe :: "string \<Rightarrow> bool"
  assumes table_handler: "(n, h) \<in> set table \<Longrightarrow> handler h (ok n) (ann n)"
    and table_defers: "(n, h) \<in> set table \<Longrightarrow> defers n \<Longrightarrow> deferring_handler h (ok n) (ann n)"
    and table_safe: "(n, h) \<in> set table \<Longrightarrow> safe n \<Longrightarrow> total_handler h (ok n) (ann n)"
begin

lemma dispatch_serving:
  "serving table s \<Longrightarrow> dispatch s m c args = Some (s', r) \<Longrightarrow> serving table s'"
  by (auto simp: serving_def dispatch_def Let_def split: list.splits option.splits)

lemma dispatch_cases:
  assumes "serving table s"
  obtains (panic) "args = []"
  | (unknown) a rest where "args = a # rest" "ToUpper a \<notin> fst ` set table"
      "dispatch s m c args = Some (s, Finished m (WriteError (errUnknownCommand (ToUpper a)) c))"
  | (known) a rest h where "args = a # rest" "(ToUpper a, h) \<in> set table"
      "dispatch s m c args =
         map_option (\<lambda>r. (s\<lparr>infoCmds := i64 (infoCmds s + 1)\<rparr>, r)) (h m c (ToUpper a) rest)"
proof (cases args)
  case Nil
  then show thesis by (rule panic)
next
  case (Cons a rest)
  show thesis
  proof (cases "map_of table (ToUpper a)")
    case None
    show thesis
    proof (rule unknown [OF Cons])
      show "ToUpper a \<notin> fst ` set table" using None by (simp add: map_of_eq_None_iff)
      show "dispatch s m c args = Some (s, Finished m (WriteError (errUnknownCommand (ToUpper a)) c))"
        using None Cons assms by (simp add: serving_def dispatch_def)
    qed
  next
    case (Some h)
    show thesis
    proof (rule known [OF Cons])
      show "(ToUpper a, h) \<in> set table" using Some by (rule map_of_SomeD)
      show "dispatch s m c args =
         map_option (\<lambda>r. (s\<lparr>infoCmds := i64 (infoCmds s + 1)\<rparr>, r)) (h m c (ToUpper a) rest)"
        using Some Cons assms
        by (cases "h m c (ToUpper a) rest") (simp_all add: serving_def dispatch_def)
    qed
  qed
qed

lemma dispatch_answered:
  assumes "serving table s" "wf_m m" "peer_ok c" "ok (ToUpper (hd args)) (tl args)"
    "dispatch s m c args = Some (s', r)"
  shows "answered m c r"
using assms(1)
proof (cases rule: dispatch_cases [where args = args and m = m and c = c])
  case panic
  then show ?thesis using assms(5) by (simp add: dispatch_def)
next
  case (unknown a rest)
  then show ?thesis using assms(2,3,5) by (auto simp: write_defs)
next
  case (known a rest h)
  then show ?thesis
    using handler.h_answered [OF table_handler [OF known(2)] assms(2,3)] assms(4,5) by auto
qed

lemma dispatch_announces:
  assumes "serving table s" "wf_m m" "peer_ok c" "ok (ToUpper (hd args)) (tl args)"
    "ann (ToUpper (hd args))" "dispatch s m c args = Some (s', r)"
  shows "announces m r"
using assms(1)
proof (cases rule: dispatch_cases [where args = args and m = m and c = c])
  case panic
  then show ?thesis using assms(6) by (simp add: dispatch_def)
next
  case (unknown a rest)
  then show ?thesis using assms(6) by auto
next
  case (known a rest h)
  then show ?thesis
    using handler.h_announces [OF table_handler [OF known(2)] assms(2,3)] assms(4,5,6) by auto
qed

lemma dispatch_defers:
  assumes "serving table s" "wf_m m" "peer_ok c" "ok (ToUpper (hd args)) (tl args)"
    "inTx c" "defers (ToUpper (hd args))" "dispatch s m c args = Some (s', r)"
  shows "\<exists>c'. r = Finished m c'"
using assms(1)
proof (cases rule: dispatch_cases [where args = args and m = m and c = c])
  case panic
  then show ?thesis using assms(7) by (simp add: dispatch_def)
next
  case (unknown a rest)
  then show ?thesis using assms(7) by auto
next
  case (known a rest h)
  have "defers (ToUpper a)" using assms(6) known(1) by simp
  from deferring_handler.h_defers [OF table_defers [OF known(2) this] assms(2,3) _ assms(5)]
  show ?thesis using known assms(4,7) by auto
qed

lemma dispatch_safe:
  assumes "serving table s" "wf_m m" "peer_ok c" "ok (ToUpper (hd args)) (tl args)" "args \<noteq> []"
    "safe (ToUpper (hd args))"
  shows "dispatch s m c args \<noteq> None"
using assms(1)
proof (cases rule: dispatch_cases [where args = args and m = m and c = c])
  case panic
  then show ?thesis using assms(5) by simp
next
  case (unknown a rest)
  then show ?thesis by simp
next
  case (known a rest h)
  have "safe (ToUpper a)" using assms(6) known(1) by simp
  from total_handler.h_total [OF table_safe [OF known(2) this] assms(2,3)]
  show ?thesis using known assms(4) by simp
qed

end

text \<open>The commands of this server.\<close>

definition args_ok :: "string \<Rightarrow> string list \<Rightarrow> bool" where
  "args_ok n args \<longleftrightarrow> (n = ''SRANDMEMBER'' \<longrightarrow> srandmember_args args)"

definition wakes :: "string \<Rightarrow> bool" where
  "wakes n \<longleftrightarrow> n \<noteq> ''BRPOPLPUSH''"

definition never_panics :: "string \<Rightarrow> bool" where
  "never_panics n \<longleftrightarrow> n \<notin> {''KEYS'', ''SCAN'', ''SSCAN'', ''RENAME'', ''SRANDMEMBER'', ''EXEC''}"

lemma args_ok_simps [simp]:
  "n \<noteq> ''SRANDMEMBER'' \<Longrightarrow> args_ok n = (\<lambda>_. True)" "args_ok ''SRANDMEMBER'' = srandmember_args"
  by (simp_all add: args_ok_def fun_eq_iff)

lemmas total_handlers =
  h_auth.total_handler_axioms h_echo.total_handler_axioms h_ping.total_handler_axioms
  h_select.total_handler_axioms h_quit.total_handler_axioms h_del.total_handler_axioms
  h_exists.total_handler_axioms h_move.total_handler_axioms h_randomkey.total_handler_axioms
  h_renamenx.total_handler_axioms h_type.total_handler_axioms h_dbsize.total_handler_axioms
  h_flushall.total_handler_axioms h_flushdb.total_handler_axioms h_blpop.total_handler_axioms
  h_brpop.total_handler_axioms h_brpoplpush.total_handler_axioms h_lindex.total_handler_axioms
  h_linsert.total_handler_axioms h_llen.total_handler_axioms h_lpop.total_handler_axioms
  h_lpush.total_handler_axioms h_lpushx.total_handler_axioms h_lrange.total_handler_axioms
  h_lrem.total_handler_axioms h_lset.total_handler_axioms h_ltrim.total_handler_axioms
  h_rpop.total_handler_axioms h_rpoplpush.total_handler_axioms h_rpush.total_handler_axioms
  h_rpushx.total_handler_axioms h_sadd.total_handler_axioms h_scard.total_handler_axioms
  h_sdiff.total_handler_axioms h_sdiffstore.total_handler_axioms h_sinter.total_handler_axioms
  h_sinterstore.total_handler_axioms h_sismember.total_handler_axioms h_smembers.total_handler_axioms
  h_smove.total_handler_axioms h_spop.total_handler_axioms h_srem.total_handler_axioms
  h_sunion.total_handler_axioms h_sunionstore.total_handler_axioms h_discard.total_handler_axioms
  h_multi.total_handler_axioms h_unwatch.total_handler_axioms h_watch.total_handler_axioms

lemma table_total_all:
  "list_all (\<lambda>(n, h). never_panics n \<longrightarrow> total_handler h (args_ok n) (wakes n)) commandTable"
  by (simp add: commandTable_def commands_defs never_panics_def wakes_def total_handlers)

lemma table_total:
  "(n, h) \<in> set commandTable \<Longrightarrow> never_panics n \<Longrightarrow> total_handler h (args_ok n) (wakes n)"
  using table_total_all by (auto simp: list_all_iff)

lemma table_deferring:
  assumes "(n, h) \<in> set commandTable" "n \<noteq> ''EXEC''"
  shows "deferring_handler h (args_ok n) (wakes n)"
proof (cases "never_panics n")
  case True
  then show ?thesis using table_total [OF assms(1)] by (simp add: total_handler_def)
next
  case False
  show ?thesis using False assms
    by (auto simp: commandTable_def commands_defs never_panics_def wakes_def
      intro!: h_keys.deferring_handler_axioms h_scan.deferring_handler_axioms
        h_sscan.deferring_handler_axioms h_rename.deferring_handler_axioms
        h_srandmember.deferring_handler_axioms)
qed

lemma table_kept: "(n, h) \<in> set commandTable \<Longrightarrow> handler h (args_ok n) (wakes n)"
proof (cases "n = ''EXEC''")
  case True
  moreover assume "(n, h) \<in> set commandTable"
  ultimately have "h = cmdExec" by (simp add: commandTable_def commands_defs)
  then show ?thesis using h_exec.handler_axioms True by (simp add: wakes_def)
qed (use table_deferring in \<open>auto simp: deferring_handler_def\<close>)

interpretation table: command_table commandTable args_ok wakes "\<lambda>n. n \<noteq> ''EXEC''" never_panics
  by (rule command_table.intro) (use table_kept table_deferring table_total in blast)+

lemma started: "serving commandTable (start NewServer)"
  by (simp add: serving_def started_lookup)

subsection \<open>Access\<close>

text \<open>
  What a connection without access gets from a handler: a reply, and still no access; the
  server is untouched.
\<close>

definition no_entry :: "RediQueue \<Rightarrow> hres option \<Rightarrow> bool" where
  "no_entry m res \<longleftrightarrow> (\<exists>c'. res = Some (Finished m c') \<and> \<not> may_use m c')"

lemma may_use_simps [simp]:
  "may_use m (emit ts c) = may_use m c" "may_use m (getCtx c) = may_use m c" "may_use m (Close c) = may_use m c"
  by (simp_all add: may_use_def) (simp add: Close_def ctx_def)

lemma may_use_setDirty [simp]: "may_use m (setDirty c) = may_use m c"
  using wrote_setDirty [of c] by (simp add: may_use_def wrote_def)

lemma no_entry_usage: "\<not> may_use m c \<Longrightarrow> no_entry m (usage m c msg)"
  by (simp add: no_entry_def usage_def write_defs)

lemma no_entry_authed: "\<not> may_use m c \<Longrightarrow> no_entry m (authed m c k)"
  by (simp add: no_entry_def authed_no write_defs)

lemma no_entry_simple:
  "\<not> may_use m c \<Longrightarrow> no_entry m (Some (Finished m (WriteError msg c)))"
  "\<not> may_use m c \<Longrightarrow> no_entry m (Some (Finished m (Close (WriteOK c))))"
  by (simp_all add: no_entry_def write_defs)

lemma table_no_entry_all:
  "\<not> may_use m c \<Longrightarrow> list_all (\<lambda>(n, h). n \<noteq> ''AUTH'' \<longrightarrow> no_entry m (h m c n args)) commandTable"
  by (simp add: commandTable_def commands_defs handler_defs no_entry_usage no_entry_authed no_entry_simple
      split: list.split)

lemma auth_no_entry:
  "\<not> may_use m c \<Longrightarrow> args \<noteq> [password m] \<Longrightarrow> no_entry m (cmdAuth m c n args)"
  by (auto simp: cmdAuth_def no_entry_usage no_entry_simple split: list.split)

lemma dispatch_no_entry:
  assumes "serving commandTable s" "\<not> may_use m c" "args \<noteq> []"
    and "\<not> (ToUpper (hd args) = ''AUTH'' \<and> tl args = [password m])"
  shows "\<exists>s' c'. dispatch s m c args = Some (s', Finished m c') \<and> \<not> may_use m c'"
using assms(1)
proof (cases rule: table.dispatch_cases [where args = args and m = m and c = c])
  case panic
  then show ?thesis using assms(3) by simp
next
  case (unknown a rest)
  then show ?thesis using assms(2) by (simp add: write_defs)
next
  case (known a rest h)
  have "no_entry m (h m c (ToUpper a) rest)"
  proof (cases "ToUpper a = ''AUTH''")
    case True
    then have "h = cmdAuth" using known(2) by (simp add: commandTable_def commands_defs)
    then show ?thesis using auth_no_entry [OF assms(2)] assms(4) known(1) True by simp
  next
    case False
    then show ?thesis using table_no_entry_all [OF assms(2), of rest] known(2) by (auto simp: list_all_iff)
  qed
  then show ?thesis using known(3) by (auto simp: no_entry_def)
qed

end
