(* ===== verification/Direct.thy ===== *)
theory Direct
  imports Server
begin

text \<open>
  The direct Go API of \<open>direct.go\<close> (methods of \<open>RedisDB\<close>, and of \<open>RediQueue\<close> on its selected
  database) and the assertions of \<open>check.go\<close>. An error return is \<open>Inl\<close> its message; \<open>None\<close>
  is a panic. None of these operations broadcasts: theory World shows what this means for
  blocked clients.
\<close>

subsection \<open>Operations of a database\<close>

definition db_Keys :: "RedisDB \<Rightarrow> string list" where
  "db_Keys db = allKeys db"

definition db_FlushDB :: "RedisDB \<Rightarrow> RedisDB" where
  "db_FlushDB db = flush db"

definition db_List :: "string \<Rightarrow> RedisDB \<Rightarrow> string + string list" where
  "db_List k db =
     (if \<not> db_exists k db then Inl msgKeyNotFound
      else if db_t k db \<noteq> ''list'' then Inl msgWrongType
      else Inr (list_at k db))"

definition db_Lpush :: "string \<Rightarrow> string \<Rightarrow> RedisDB \<Rightarrow> (string + int) \<times> RedisDB" where
  "db_Lpush k v db =
     (if db_exists k db \<and> db_t k db \<noteq> ''list'' then (Inl msgWrongType, db)
      else let (n, db) = listLpush k v db in (Inr n, db))"

definition db_Lpop :: "string \<Rightarrow> RedisDB \<Rightarrow> ((string + string) \<times> RedisDB) option" where
  "db_Lpop k db =
     (if \<not> db_exists k db then Some (Inl msgKeyNotFound, db)
      else if db_t k db \<noteq> ''list'' then Some (Inl msgWrongType, db)
      else do { (el, db) \<leftarrow> listLpop k db; Some (Inr el, db) })"

definition db_Push :: "string \<Rightarrow> string list \<Rightarrow> RedisDB \<Rightarrow> (string + int) \<times> RedisDB" where
  "db_Push k v db =
     (if db_exists k db \<and> db_t k db \<noteq> ''list'' then (Inl msgWrongType, db)
      else let (n, db) = listPush k v db in (Inr n, db))"

definition db_Pop :: "string \<Rightarrow> RedisDB \<Rightarrow> ((string + string) \<times> RedisDB) option" where
  "db_Pop k db =
     (if \<not> db_exists k db then Some (Inl msgKeyNotFound, db)
      else if db_t k db \<noteq> ''list'' then Some (Inl msgWrongType, db)
      else do { (el, db) \<leftarrow> listPop k db; Some (Inr el, db) })"

definition db_SetAdd :: "string \<Rightarrow> string list \<Rightarrow> RedisDB \<Rightarrow> (string + int) \<times> RedisDB" where
  "db_SetAdd k elems db =
     (if db_exists k db \<and> db_t k db \<noteq> ''set'' then (Inl msgWrongType, db)
      else let (n, db) = setAdd k elems db in (Inr n, db))"

definition db_Members :: "string \<Rightarrow> RedisDB \<Rightarrow> string + string list" where
  "db_Members k db =
     (if \<not> db_exists k db then Inl msgKeyNotFound
      else if db_t k db \<noteq> ''set'' then Inl msgWrongType
      else Inr (setMembers k db))"

definition db_IsMember :: "string \<Rightarrow> string \<Rightarrow> RedisDB \<Rightarrow> string + bool" where
  "db_IsMember k v db =
     (if \<not> db_exists k db then Inl msgKeyNotFound
      else if db_t k db \<noteq> ''set'' then Inl msgWrongType
      else Inr (setIsMember k v db))"

definition db_Del :: "string \<Rightarrow> RedisDB \<Rightarrow> (bool \<times> RedisDB) option" where
  "db_Del k db =
     (if \<not> db_exists k db then Some (False, db)
      else do { db \<leftarrow> db_del k db; Some (True, db) })"

definition db_Type :: "string \<Rightarrow> RedisDB \<Rightarrow> string" where
  "db_Type k db = db_t k db"

definition db_Exists :: "string \<Rightarrow> RedisDB \<Rightarrow> bool" where
  "db_Exists k db = db_exists k db"

definition db_SRem :: "string \<Rightarrow> string list \<Rightarrow> RedisDB \<Rightarrow> ((string + int) \<times> RedisDB) option" where
  "db_SRem k fs db =
     (if \<not> db_exists k db then Some (Inl msgKeyNotFound, db)
      else if db_t k db \<noteq> ''set'' then Some (Inl msgWrongType, db)
      else do { (n, db) \<leftarrow> setRem k fs db; Some (Inr n, db) })"

lemmas direct_defs = db_Keys_def db_FlushDB_def db_List_def db_Lpush_def db_Lpop_def db_Push_def db_Pop_def
  db_SetAdd_def db_Members_def db_IsMember_def db_Del_def db_Type_def db_Exists_def db_SRem_def

subsection \<open>Operations of the server object\<close>

definition Select :: "int \<Rightarrow> RediQueue \<Rightarrow> RediQueue" where
  "Select i m = m\<lparr>m_selectedDB := i\<rparr>"

text \<open>\<open>m.DB(m.selectedDB)\<close>, which creates the database, and a method on it.\<close>

definition selected :: "(RedisDB \<Rightarrow> ('a \<times> RedisDB) option) \<Rightarrow> RediQueue \<Rightarrow> ('a \<times> RediQueue) option" where
  "selected f m =
     (let i = m_selectedDB m; (db, m) = m_db i m
      in do { (x, db) \<leftarrow> f db; Some (x, put_db i db m) })"

text \<open>The methods of the server object are those of its selected database.\<close>

definition m_Keys :: "RediQueue \<Rightarrow> (string list \<times> RediQueue) option" where
  "m_Keys m = selected (\<lambda>db. Some (db_Keys db, db)) m"

definition m_FlushAll :: "RediQueue \<Rightarrow> RediQueue" where
  "m_FlushAll m = flushAll m"

definition m_FlushDB :: "RediQueue \<Rightarrow> (unit \<times> RediQueue) option" where
  "m_FlushDB m = selected (\<lambda>db. Some ((), db_FlushDB db)) m"

definition m_List :: "string \<Rightarrow> RediQueue \<Rightarrow> ((string + string list) \<times> RediQueue) option" where
  "m_List k m = selected (\<lambda>db. Some (db_List k db, db)) m"

definition m_Lpush :: "string \<Rightarrow> string \<Rightarrow> RediQueue \<Rightarrow> ((string + int) \<times> RediQueue) option" where
  "m_Lpush k v m = selected (\<lambda>db. Some (db_Lpush k v db)) m"

definition m_Lpop :: "string \<Rightarrow> RediQueue \<Rightarrow> ((string + string) \<times> RediQueue) option" where
  "m_Lpop k m = selected (db_Lpop k) m"

definition m_Push :: "string \<Rightarrow> string list \<Rightarrow> RediQueue \<Rightarrow> ((string + int) \<times> RediQueue) option" where
  "m_Push k vs m = selected (\<lambda>db. Some (db_Push k vs db)) m"

definition m_Pop :: "string \<Rightarrow> RediQueue \<Rightarrow> ((string + string) \<times> RediQueue) option" where
  "m_Pop k m = selected (db_Pop k) m"

definition m_SetAdd :: "string \<Rightarrow> string list \<Rightarrow> RediQueue \<Rightarrow> ((string + int) \<times> RediQueue) option" where
  "m_SetAdd k elems m = selected (\<lambda>db. Some (db_SetAdd k elems db)) m"

definition m_Members :: "string \<Rightarrow> RediQueue \<Rightarrow> ((string + string list) \<times> RediQueue) option" where
  "m_Members k m = selected (\<lambda>db. Some (db_Members k db, db)) m"

definition m_IsMember :: "string \<Rightarrow> string \<Rightarrow> RediQueue \<Rightarrow> ((string + bool) \<times> RediQueue) option" where
  "m_IsMember k v m = selected (\<lambda>db. Some (db_IsMember k v db, db)) m"

definition m_Del :: "string \<Rightarrow> RediQueue \<Rightarrow> (bool \<times> RediQueue) option" where
  "m_Del k m = selected (db_Del k) m"

definition m_Type :: "string \<Rightarrow> RediQueue \<Rightarrow> (string \<times> RediQueue) option" where
  "m_Type k m = selected (\<lambda>db. Some (db_Type k db, db)) m"

definition m_Exists :: "string \<Rightarrow> RediQueue \<Rightarrow> (bool \<times> RediQueue) option" where
  "m_Exists k m = selected (\<lambda>db. Some (db_Exists k db, db)) m"

definition m_SRem :: "string \<Rightarrow> string list \<Rightarrow> RediQueue \<Rightarrow> ((string + int) \<times> RediQueue) option" where
  "m_SRem k fs m = selected (db_SRem k fs) m"

lemmas method_defs = m_Keys_def m_FlushAll_def m_FlushDB_def m_List_def m_Lpush_def m_Lpop_def m_Push_def
  m_Pop_def m_SetAdd_def m_Members_def m_IsMember_def m_Del_def m_Type_def m_Exists_def m_SRem_def

text \<open>The direct calls that change the server.\<close>

datatype api =
    ASelect int | ARequireAuth string | AFlushAll | AFlushDB
  | ALpush string string | ALpop string | APush string "string list" | APop string
  | ASetAdd string "string list" | ADel string | ASRem string "string list"

fun call_api :: "api \<Rightarrow> RediQueue \<Rightarrow> RediQueue option" where
  "call_api (ASelect i) m = Some (Select i m)"
| "call_api (ARequireAuth pw) m = Some (RequireAuth pw m)"
| "call_api AFlushAll m = Some (m_FlushAll m)"
| "call_api AFlushDB m = map_option snd (m_FlushDB m)"
| "call_api (ALpush k v) m = map_option snd (m_Lpush k v m)"
| "call_api (ALpop k) m = map_option snd (m_Lpop k m)"
| "call_api (APush k vs) m = map_option snd (m_Push k vs m)"
| "call_api (APop k) m = map_option snd (m_Pop k m)"
| "call_api (ASetAdd k es) m = map_option snd (m_SetAdd k es m)"
| "call_api (ADel k) m = map_option snd (m_Del k m)"
| "call_api (ASRem k fs) m = map_option snd (m_SRem k fs m)"

subsection \<open>The dump\<close>

text \<open>
  The text of \<open>Dump\<close>. \<open>quote\<close> stands for the verb \<open>%q\<close> of \<open>fmt\<close>, which needs the table of printable
  Unicode characters.
\<close>

definition dump_value :: "(string \<Rightarrow> string) \<Rightarrow> string \<Rightarrow> string" where
  "dump_value quote s =
     (if length s > 60
      then let suffix = ''...('' @ Itoa (int (length s)) @ '')''
           in quote (take (60 - length suffix) s) @ suffix
      else quote s)"

definition dump_line :: "string \<Rightarrow> string" where
  "dump_line s = ''   '' @ s @ [CHR 0x0A]"

definition dump_key :: "(string \<Rightarrow> string) \<Rightarrow> RedisDB \<Rightarrow> string \<Rightarrow> string" where
  "dump_key quote db k =
     ''- '' @ k @ [CHR 0x0A] @
     (let t = db_t k db in
        if t = ''list'' then concat (map (\<lambda>lk. dump_line (dump_value quote lk)) (list_at k db))
        else if t = ''set'' then concat (map (\<lambda>mk. dump_line (dump_value quote mk)) (setMembers k db))
        else dump_line (''(a '' @ t @ '', fixme!)''))"

definition Dump :: "(string \<Rightarrow> string) \<Rightarrow> RediQueue \<Rightarrow> string \<times> RediQueue" where
  "Dump quote m = (let (db, m) = m_db (m_selectedDB m) m in (concat (map (dump_key quote db) (allKeys db)), m))"

subsection \<open>Assertions: check.go\<close>

text \<open>
  Whether \<open>Fail\<close> is called. The expected values are a variadic argument, a nil slice when
  there are none, and \<open>reflect.DeepEqual\<close> tells a nil slice from an empty one: \<open>None\<close> is nil.
  A stored list without elements is a nil slice (only \<open>Push\<close> of no elements makes one);
  the members of a set are never nil.
\<close>

definition go_slice :: "'a list \<Rightarrow> 'a list option" where
  "go_slice xs = (if xs = [] then None else Some xs)"

definition CheckList :: "string \<Rightarrow> string list \<Rightarrow> RedisDB \<Rightarrow> bool" where
  "CheckList key expected db =
     (case db_List key db of
        Inl _ \<Rightarrow> True
      | Inr found \<Rightarrow> go_slice expected \<noteq> go_slice found)"

definition CheckSet :: "string \<Rightarrow> string list \<Rightarrow> RedisDB \<Rightarrow> bool" where
  "CheckSet key expected db =
     (case db_Members key db of
        Inl _ \<Rightarrow> True
      | Inr found \<Rightarrow> go_slice (sort expected) \<noteq> Some found)"

subsection \<open>What they do\<close>

lemma db_List_eq:
  assumes "wf_db db"
  shows "db_List k db =
    (case value_of db k of None \<Rightarrow> Inl msgKeyNotFound | Some (VList l) \<Rightarrow> Inr l | Some (VSet s) \<Rightarrow> Inl msgWrongType)"
  by (cases rule: key_cases [of db k]) (use key_facts [OF assms, of k] in \<open>auto simp: db_List_def\<close>)

lemma db_Members_eq:
  assumes "wf_db db"
  shows "db_Members k db =
    (case value_of db k of None \<Rightarrow> Inl msgKeyNotFound | Some (VList l) \<Rightarrow> Inl msgWrongType
     | Some (VSet s) \<Rightarrow> Inr (sorted_list_of_fset s))"
  by (cases rule: key_cases [of db k])
    (use key_facts [OF assms, of k] in \<open>auto simp: db_Members_def setMembers_def\<close>)

lemma db_IsMember_eq:
  assumes "wf_db db"
  shows "db_IsMember k v db =
    (case value_of db k of None \<Rightarrow> Inl msgKeyNotFound | Some (VList l) \<Rightarrow> Inl msgWrongType
     | Some (VSet s) \<Rightarrow> Inr (v |\<in>| s))"
  by (cases rule: key_cases [of db k])
    (use key_facts [OF assms, of k] in \<open>auto simp: db_IsMember_def setIsMember_iff\<close>)

lemma CheckList_iff:
  "wf_db db \<Longrightarrow> CheckList key expected db \<longleftrightarrow> value_of db key \<noteq> Some (VList expected)"
  using key_facts(2) [of db key]
  by (cases rule: key_cases [of db key]) (auto simp: CheckList_def db_List_eq go_slice_def)

lemma CheckSet_iff:
  assumes "wf_db db" "expected \<noteq> []"
  shows "CheckSet key expected db \<longleftrightarrow>
    (\<nexists>s. value_of db key = Some (VSet s) \<and> sort expected = sorted_list_of_fset s)"
  using assms(2) by (cases rule: key_cases [of db key])
    (auto simp: CheckSet_def db_Members_eq [OF assms(1)] go_slice_def dest: arg_cong [where f = length])

text \<open>With no expected members it fails even on an empty set.\<close>

lemma CheckSet_none: "CheckSet key [] db"
  by (simp add: CheckSet_def go_slice_def split: sum.split)

lemma db_Lpush_eq:
  assumes "wf_db db"
  shows "if list_or_absent db k
    then fst (db_Lpush k v db) = Inr (int (length (v # list_at k db))) \<and>
      changed k (Some (VList (v # list_at k db))) 1 db (snd (db_Lpush k v db))
    else db_Lpush k v db = (Inl msgWrongType, db)"
  using listLpush_spec [OF assms, of k v] key_facts [OF assms, of k]
  by (cases rule: key_cases [of db k])
    (auto simp: db_Lpush_def list_or_absent_def case_prod_unfold Let_def)

lemma db_Push_eq:
  assumes "wf_db db" "vs \<noteq> []"
  shows "if list_or_absent db k
    then fst (db_Push k vs db) = Inr (int (length (list_at k db @ vs))) \<and>
      changed k (Some (VList (list_at k db @ vs))) 1 db (snd (db_Push k vs db))
    else db_Push k vs db = (Inl msgWrongType, db)"
  using listPush_spec [OF assms(1), of k vs] key_facts [OF assms(1), of k] assms(2)
  by (cases rule: key_cases [of db k])
    (auto simp: db_Push_def list_or_absent_def case_prod_unfold Let_def)

lemma db_SetAdd_eq:
  assumes "wf_db db"
  shows "if set_or_absent db k
    then fst (db_SetAdd k es db) = Inr (int (fcard (fset_of_list es |-| set_at k db))) \<and>
      changed k (Some (VSet (set_at k db |\<union>| fset_of_list es))) 1 db (snd (db_SetAdd k es db))
    else db_SetAdd k es db = (Inl msgWrongType, db)"
  using setAdd_spec [OF assms, of k es] key_facts [OF assms, of k]
  by (cases rule: key_cases [of db k])
    (auto simp: db_SetAdd_def set_or_absent_def case_prod_unfold Let_def)

lemma db_Lpop_eq:
  assumes "wf_db db" "value_of db k = Some (VList (x # l))"
  obtains db' n where "db_Lpop k db = Some (Inr x, db')" "0 < n"
    "changed k (if l = [] then None else Some (VList l)) n db db'"
  using listLpop_spec [OF assms] key_facts(2) [OF assms] by (auto simp: db_Lpop_def)

lemma db_Pop_eq:
  assumes "wf_db db" "value_of db k = Some (VList l)"
  obtains db' where "db_Pop k db = Some (Inr (last l), db')"
    "changed k (if butlast l = [] then None else Some (VList (butlast l))) 1 db db'"
  using listPop_spec [OF assms] key_facts(2) [OF assms] by (auto simp: db_Pop_def)

lemma db_SRem_eq:
  assumes "wf_db db" "value_of db k = Some (VSet s)"
  obtains db' n where "db_SRem k fs db = Some (Inr (int (fcard (s |\<inter>| fset_of_list fs))), db')" "0 < n"
    "changed k (set_val (s |-| fset_of_list fs)) n db db'"
  using setRem_spec [OF assms, of fs] key_facts(3) [OF assms] by (auto simp: db_SRem_def)

lemma db_Del_eq:
  assumes "wf_db db"
  obtains db' n where "db_Del k db = Some (value_of db k \<noteq> None, db')" "changed k None n db db'"
    "n = (if value_of db k = None then 0 else 1)"
proof -
  from assms obtain db' n where d: "db_del k db = Some db'" "changed k None n db db'"
    "n = (if value_of db k = None then 0 else 1)" by (rule db_del_spec)
  show ?thesis
  proof (cases "value_of db k = None")
    case True
    then have "db' = db" using d(1) db_del_absent by simp
    with True d show ?thesis by (intro that) (auto simp: db_Del_def db_exists_iff)
  next
    case False
    with d show ?thesis by (intro that) (auto simp: db_Del_def db_exists_iff)
  qed
qed

subsection \<open>The invariant\<close>

text \<open>
  What a direct call on one database leaves behind: a well-formed database whose versions
  follow the changes. \<open>Push\<close> of no elements is left out: it stores an empty list.
\<close>

definition kept :: "RedisDB \<Rightarrow> ('a \<times> RedisDB) option \<Rightarrow> bool" where
  "kept db res \<longleftrightarrow> (\<exists>x db' g. res = Some (x, db') \<and> wf_db db' \<and> evolves g db db')"

lemma kept_same: "wf_db db \<Longrightarrow> kept db (Some (x, db))"
  unfolding kept_def using evolves_refl by blast

lemma kept_changed: "wf_db db \<Longrightarrow> changed k v n db db' \<Longrightarrow> 0 < n \<Longrightarrow> kept db (Some (x, db'))"
  unfolding kept_def using changed_evolves changed_wf by blast

lemma kept_pair: "kept db (Some (fst p, snd p)) \<Longrightarrow> kept db (Some p)"
  by simp

lemma db_Lpush_kept: "wf_db db \<Longrightarrow> kept db (Some (db_Lpush k v db))"
  by (rule kept_pair)
    (metis db_Lpush_eq kept_changed kept_same snd_conv zero_less_one)

lemma db_Push_kept: "wf_db db \<Longrightarrow> vs \<noteq> [] \<Longrightarrow> kept db (Some (db_Push k vs db))"
  by (rule kept_pair)
    (metis db_Push_eq kept_changed kept_same snd_conv zero_less_one)

lemma db_SetAdd_kept: "wf_db db \<Longrightarrow> kept db (Some (db_SetAdd k es db))"
  by (rule kept_pair)
    (metis db_SetAdd_eq kept_changed kept_same snd_conv zero_less_one)

lemma db_Lpop_kept:
  assumes "wf_db db"
  shows "kept db (db_Lpop k db)"
proof (cases rule: key_cases [of db k])
  case (list l)
  then obtain x l' where l: "l = x # l'" using key_facts(2) [OF assms list] by (cases l) auto
  obtain db' n where "db_Lpop k db = Some (Inr x, db')" "0 < n"
    "changed k (if l' = [] then None else Some (VList l')) n db db'"
    using db_Lpop_eq [OF assms list [unfolded l]] by blast
  then show ?thesis using kept_changed [OF assms] by metis
qed (use key_facts [OF assms, of k] kept_same [OF assms] in \<open>simp_all add: db_Lpop_def\<close>)

lemma db_Pop_kept:
  assumes "wf_db db"
  shows "kept db (db_Pop k db)"
proof (cases rule: key_cases [of db k])
  case (list l)
  obtain db' where "db_Pop k db = Some (Inr (last l), db')"
    "changed k (if butlast l = [] then None else Some (VList (butlast l))) 1 db db'"
    using db_Pop_eq [OF assms list] by blast
  then show ?thesis using kept_changed [OF assms] by (metis zero_less_one)
qed (use key_facts [OF assms, of k] kept_same [OF assms] in \<open>simp_all add: db_Pop_def\<close>)

lemma db_SRem_kept:
  assumes "wf_db db"
  shows "kept db (db_SRem k fs db)"
proof (cases rule: key_cases [of db k])
  case (set s)
  obtain db' n where "db_SRem k fs db = Some (Inr (int (fcard (s |\<inter>| fset_of_list fs))), db')" "0 < n"
    "changed k (set_val (s |-| fset_of_list fs)) n db db'"
    using db_SRem_eq [OF assms set] by blast
  then show ?thesis using kept_changed [OF assms] by metis
qed (use key_facts [OF assms, of k] kept_same [OF assms] in \<open>simp_all add: db_SRem_def\<close>)

lemma db_Del_kept:
  assumes "wf_db db"
  shows "kept db (db_Del k db)"
proof (cases "value_of db k = None")
  case True
  then show ?thesis using kept_same [OF assms] by (simp add: db_Del_def db_exists_iff)
next
  case False
  obtain db' n where "db_Del k db = Some (value_of db k \<noteq> None, db')" "changed k None n db db'"
    "n = (if value_of db k = None then 0 else 1)" using db_Del_eq [OF assms] by blast
  with False show ?thesis using kept_changed [OF assms] by (metis zero_less_one)
qed

fun api_ok :: "api \<Rightarrow> bool" where
  "api_ok (APush k vs) = (vs \<noteq> [])"
| "api_ok _ = True"

definition flushes :: "api \<Rightarrow> bool" where
  "flushes a \<longleftrightarrow> a = AFlushAll \<or> a = AFlushDB"

lemma selected_kept:
  assumes "wf_m m" and kept: "\<And>db. wf_db db \<Longrightarrow> kept db (f db)"
  shows "\<exists>x m'. selected f m = Some (x, m') \<and> wf_m m' \<and> m_evolves m m' \<and> signal m' = signal m"
proof -
  let ?i = "m_selectedDB m"
  have "wf_db (the_db m ?i)" using assms(1) by auto
  then obtain x db' g where f: "f (the_db m ?i) = Some (x, db')" "wf_db db'" "evolves g (the_db m ?i) db'"
    using kept unfolding kept_def by blast
  let ?m' = "put_db ?i db' (snd (m_db ?i m))"
  have "selected f m = Some (x, ?m')" using f(1) by (simp add: selected_def case_prod_unfold Let_def)
  moreover have "db_id db' = ?i" using f(3) assms(1) by (auto simp: evolves_def)
  then have "wf_m ?m'" using assms(1) f(2) by auto
  moreover have "m_evolves m ?m'" using f(3) evolves_refl by (auto simp: m_evolves_def)
  ultimately show ?thesis by auto
qed

lemma called_kept:
  assumes "wf_m m" and "\<And>db. wf_db db \<Longrightarrow> kept db (f db)"
  shows "\<exists>m'. map_option snd (selected f m) = Some m' \<and> wf_m m' \<and> signal m' = signal m \<and>
    (b \<longrightarrow> m_evolves m m')"
proof -
  obtain x m' where "selected f m = Some (x, m')" "wf_m m'" "m_evolves m m'" "signal m' = signal m"
    using selected_kept [of m f] assms by blast
  then show ?thesis by (intro exI [of _ m']) simp
qed

text \<open>In a well-formed database the last case of \<open>Dump\<close> is never reached: it shows every key, in order,
  with what the key holds.\<close>

fun elements :: "val \<Rightarrow> string list" where
  "elements (VList l) = l"
| "elements (VSet s) = sorted_list_of_fset s"

lemma dump_key_eq:
  assumes "wf_db db" "value_of db k = Some v"
  shows "dump_key quote db k =
    ''- '' @ k @ [CHR 0x0A] @ concat (map (\<lambda>e. dump_line (dump_value quote e)) (elements v))"
  using key_facts [OF assms(1), of k] assms(2)
  by (cases v) (simp_all add: dump_key_def setMembers_simps)

lemma Dump_eq:
  assumes "wf_m m"
  shows "fst (Dump quote m) = concat (map (\<lambda>k. ''- '' @ k @ [CHR 0x0A] @
      concat (map (\<lambda>e. dump_line (dump_value quote e))
        (elements (the (value_of (the_db m (m_selectedDB m)) k))))) (allKeys (the_db m (m_selectedDB m))))"
    and "the_db (snd (Dump quote m)) i = the_db m i"
proof -
  let ?db = "the_db m (m_selectedDB m)"
  have wf: "wf_db ?db" using assms by auto
  have e: "map (dump_key quote ?db) (allKeys ?db) = map (\<lambda>k. ''- '' @ k @ [CHR 0x0A] @
      concat (map (\<lambda>e. dump_line (dump_value quote e)) (elements (the (value_of ?db k))))) (allKeys ?db)"
    using dump_key_eq [OF wf] by (auto simp: set_allKeys)
  have "fst (Dump quote m) = concat (map (dump_key quote ?db) (allKeys ?db))"
    by (simp add: Dump_def case_prod_unfold Let_def)
  then show "fst (Dump quote m) = concat (map (\<lambda>k. ''- '' @ k @ [CHR 0x0A] @
      concat (map (\<lambda>e. dump_line (dump_value quote e)) (elements (the (value_of ?db k))))) (allKeys ?db))"
    by (simp only: e)
  show "the_db (snd (Dump quote m)) i = the_db m i"
    by (simp add: Dump_def case_prod_unfold Let_def)
qed

text \<open>The direct methods do what the commands do, but for the way they answer.\<close>

fun answer_int :: "string + int \<Rightarrow> token list" where
  "answer_int (Inl e) = [TError e]"
| "answer_int (Inr n) = [TInt n]"

fun answer_elem :: "string + string \<Rightarrow> token list" where
  "answer_elem (Inl e) = [if e = msgKeyNotFound then TNull else TError e]"
| "answer_elem (Inr s) = [TBulk s]"

definition as_reply :: "('a \<Rightarrow> token list) \<Rightarrow> ('a \<times> RedisDB) option \<Rightarrow> (RedisDB \<times> token list) option" where
  "as_reply f = map_option (\<lambda>(x, db). (db, f x))"

lemma direct_as_command:
  "as_reply answer_int (Some (db_Lpush k v db)) = xpush_body k [v] Left db"
  "as_reply answer_int (Some (db_Push k [v] db)) = xpush_body k [v] Right db"
  "as_reply answer_elem (db_Lpop k db) = xpop_body k Left db"
  "as_reply answer_elem (db_Pop k db) = xpop_body k Right db"
  "as_reply answer_int (Some (db_SetAdd k es db)) = sadd_body k es db"
  "db_exists k db \<Longrightarrow> as_reply answer_int (db_SRem k es db) = srem_body k es db"
  by (simp_all add: as_reply_def direct_defs xpush_body_def xpop_body_def sadd_body_def srem_body_def pop_def
      msgKeyNotFound_def msgWrongType_def case_prod_unfold Let_def option.map_comp o_def split: Option.bind_split)

text \<open>No direct call panics or breaks the invariant, and none wakes a blocked client.\<close>

lemma call_api_kept:
  assumes "wf_m m" "api_ok a"
  shows "\<exists>m'. call_api a m = Some m' \<and> wf_m m' \<and> signal m' = signal m \<and> (\<not> flushes a \<longrightarrow> m_evolves m m')"
proof (cases a)
  case AFlushAll
  have "wf_m (flushAll m)"
    using assms(1) by (simp add: wf_m_def the_db_flushAll db_id_simps)
  moreover have "signal (flushAll m) = signal m" by (simp add: flushAll_def)
  ultimately show ?thesis using AFlushAll by (simp add: flushes_def m_FlushAll_def)
next
  case AFlushDB
  let ?i = "m_selectedDB m"
  have "wf_m (put_db ?i (flush (the_db m ?i)) (snd (m_db ?i m)))"
    using assms(1) by (intro wf_m_put) (auto simp: db_id_simps)
  with AFlushDB show ?thesis
    by (simp add: flushes_def m_FlushDB_def selected_def db_FlushDB_def case_prod_unfold Let_def)
next
  case (APush k vs)
  then have "vs \<noteq> []" using assms(2) by simp
  then show ?thesis unfolding APush call_api.simps m_Push_def by (intro called_kept assms(1) db_Push_kept)
next
  case (ASelect i)
  have "wf_m (Select i m)" using assms(1) by (simp add: wf_m_def the_db_def Select_def)
  moreover have "m_evolves m (Select i m)" using evolves_refl by (auto simp: m_evolves_def the_db_def Select_def)
  ultimately show ?thesis unfolding ASelect by (simp add: Select_def)
next
  case (ARequireAuth pw)
  have "m_evolves m (RequireAuth pw m)" using evolves_refl by (auto simp: m_evolves_def)
  with ARequireAuth assms(1) show ?thesis by (simp add: RequireAuth_def wf_m_def the_db_def)
qed (simp only: call_api.simps method_defs, intro called_kept assms(1) db_Lpush_kept db_Lpop_kept db_Pop_kept
      db_SetAdd_kept db_Del_kept db_SRem_kept, assumption)+

end
