(* ===== verification/Arity.thy ===== *)
theory Arity
  imports Server
begin

text \<open>
  How many arguments each command takes: the first check of the handlers, as one table, and what
  a request outside it leads to, up to the EXEC that follows in a transaction.
\<close>

text \<open>
  The least and, if there is one, the greatest number, in the order of \<open>commandTable\<close>. PING, QUIT
  and DEL do not count their arguments; TYPE, FLUSHALL and FLUSHDB answer something else than the
  wrong number, as SRANDMEMBER does for too many.
\<close>

definition arity :: "(string \<times> nat \<times> nat option) list" where
  "arity =
     [(''AUTH'', 1, Some 1), (''ECHO'', 1, Some 1), (''PING'', 0, None), (''SELECT'', 1, Some 1), (''QUIT'', 0, None),
      (''DEL'', 0, None), (''EXISTS'', 1, None), (''KEYS'', 1, Some 1), (''MOVE'', 2, Some 2),
      (''RANDOMKEY'', 0, Some 0), (''RENAME'', 2, Some 2), (''RENAMENX'', 2, Some 2), (''TYPE'', 0, None),
      (''SCAN'', 1, None), (''DBSIZE'', 0, Some 0), (''FLUSHALL'', 0, None), (''FLUSHDB'', 0, None),
      (''BLPOP'', 2, None), (''BRPOP'', 2, None), (''BRPOPLPUSH'', 3, Some 3), (''LINDEX'', 2, Some 2),
      (''LINSERT'', 4, Some 4), (''LLEN'', 1, Some 1), (''LPOP'', 1, Some 1), (''LPUSH'', 2, None),
      (''LPUSHX'', 2, None), (''LRANGE'', 3, Some 3), (''LREM'', 3, Some 3), (''LSET'', 3, Some 3),
      (''LTRIM'', 3, Some 3), (''RPOP'', 1, Some 1), (''RPOPLPUSH'', 2, Some 2), (''RPUSH'', 2, None),
      (''RPUSHX'', 2, None), (''SADD'', 2, None), (''SCARD'', 1, Some 1), (''SDIFF'', 1, None),
      (''SDIFFSTORE'', 2, None), (''SINTER'', 1, None), (''SINTERSTORE'', 2, None), (''SISMEMBER'', 2, Some 2),
      (''SMEMBERS'', 1, Some 1), (''SMOVE'', 3, Some 3), (''SPOP'', 1, None), (''SRANDMEMBER'', 1, None),
      (''SREM'', 2, None), (''SUNION'', 1, None), (''SUNIONSTORE'', 2, None), (''SSCAN'', 2, None),
      (''DISCARD'', 0, Some 0), (''EXEC'', 0, Some 0), (''MULTI'', 0, Some 0), (''UNWATCH'', 0, Some 0),
      (''WATCH'', 1, None)]"

fun arity_ok :: "nat \<Rightarrow> nat \<times> nat option \<Rightarrow> bool" where
  "arity_ok n (lo, None) = (lo \<le> n)"
| "arity_ok n (lo, Some hi) = (lo \<le> n \<and> n \<le> hi)"

lemma aligned_tables:
  assumes "list_all2 (\<lambda>(n, r) (k, h). n = k \<and> P n r h) xs ys" "distinct (map fst ys)"
    and "(n, r) \<in> set xs" "(n, h) \<in> set ys"
  shows "P n r h"
proof -
  from assms(3) obtain i where i: "i < length xs" "xs ! i = (n, r)" by (auto simp: in_set_conv_nth)
  obtain k g where y: "ys ! i = (k, g)" by (cases "ys ! i")
  have l: "i < length ys" and p: "n = k" "P n r g"
    using assms(1) i y by (auto simp: list_all2_conv_all_nth)
  have "(n, g) \<in> set ys" using nth_mem [OF l] y p(1) by simp
  from eq_key_imp_eq_value [OF assms(2) this assms(4)] p(2) show ?thesis by simp
qed

text \<open>A handler that takes a fixed number of arguments falls through to its last case for any other number.\<close>

lemma falls_through:
  "length args \<noteq> 1 \<Longrightarrow> (case args of [a] \<Rightarrow> f1 a | _ \<Rightarrow> u) = u"
  "length args \<noteq> 2 \<Longrightarrow> (case args of [a, b] \<Rightarrow> f2 a b | _ \<Rightarrow> u) = u"
  "length args \<noteq> 3 \<Longrightarrow> (case args of [a, b, c] \<Rightarrow> f3 a b c | _ \<Rightarrow> u) = u"
  "length args \<noteq> 4 \<Longrightarrow> (case args of [a, b, c, d] \<Rightarrow> f4 a b c d | _ \<Rightarrow> u) = u"
  "length args < 1 \<Longrightarrow> (case args of [] \<Rightarrow> u | a # xs \<Rightarrow> g1 a xs) = u"
  "length args < 2 \<Longrightarrow> (case args of a # b # xs \<Rightarrow> g2 a b xs | _ \<Rightarrow> u) = u"
  by (auto split: list.split)

lemma outside:
  "\<not> (n \<le> k \<and> k \<le> n) \<longleftrightarrow> k \<noteq> n" "\<not> n \<le> k \<longleftrightarrow> k < n" for k n :: nat
  by auto

text \<open>What a handler answers then. MULTI alone does not mark the transaction.\<close>

definition usage_reply :: "string \<Rightarrow> RediQueue \<Rightarrow> peer \<Rightarrow> hres option" where
  "usage_reply n m c =
     Some (Finished m (WriteError (errWrongNumber n) (if n = ''MULTI'' then c else setDirty c)))"

lemma usage_all:
  "list_all2 (\<lambda>(n, r) (k, h). n = k \<and>
      (\<forall>args m c. \<not> arity_ok (length args) r \<longrightarrow> h m c n args = usage_reply n m c)) arity commandTable"
  by (simp add: commandTable_def commands_defs arity_def handler_defs falls_through outside usage_def
      usage_reply_def)

lemma usage_error:
  assumes "(n, h) \<in> set commandTable" "(n, r) \<in> set arity" "\<not> arity_ok (length args) r"
  shows "h m c n args = usage_reply n m c"
  using aligned_tables [OF usage_all table_names(1) assms(2,1)] assms(3) by blast

lemma setDirty_ctx [simp]:
  "inTx (setDirty c) = inTx c" "inTx c \<Longrightarrow> dirtyTransaction (ctx (setDirty c))"
  "may_use m (setDirty c) = may_use m c" "wbuf (setDirty c) = wbuf c"
  by (auto simp: inTx_def may_use_def setDirty_def ctx_def new_connCtx_def split: option.splits)

text \<open>EXEC of a marked transaction.\<close>

lemma exec_dirty:
  assumes "may_use m c" "inTx c" "dirtyTransaction (ctx c)"
  shows "\<exists>c'. cmdExec m c cmd [] = Some (Finished m c') \<and> inTx c' \<and> dirtyTransaction (ctx c') \<and>
    wbuf c' = wbuf c @ [TError ''EXECABORT Transaction discarded because of previous errors.'']"
  using assms by (cases "password m = []") (auto simp: cmdExec_def authed_ok write_defs Let_def inTx_def)

subsection \<open>Requests that never wait for the lock\<close>

text \<open>
  Every handler but QUIT's counts its arguments and then takes the lock of the server: in
  \<open>handleAuth\<close>, AUTH by itself. A request that fails the count, an unknown command and QUIT are
  answered without it.
\<close>

definition takes_lock :: "string list \<Rightarrow> bool" where
  "takes_lock req =
     (case req of
        [] \<Rightarrow> False
      | a # args \<Rightarrow>
          let n = ToUpper a in
          if n = ''QUIT'' then False
          else if n = ''TYPE'' then length args = 1
          else if n = ''FLUSHALL'' \<or> n = ''FLUSHDB'' then drop_async args = []
          else if n = ''SRANDMEMBER'' then 1 \<le> length args \<and> length args \<le> 2
          else (case map_of arity n of None \<Rightarrow> False | Some r \<Rightarrow> arity_ok (length args) r))"

lemma arity_names: "map fst arity = map fst commandTable"
  by (simp add: arity_def commandTable_def commands_defs)

lemma special_handlers:
  "(''QUIT'', h) \<in> set commandTable \<Longrightarrow> h = cmdQuit" "(''TYPE'', h) \<in> set commandTable \<Longrightarrow> h = cmdType"
  "(''FLUSHALL'', h) \<in> set commandTable \<Longrightarrow> h = cmdFlushall"
  "(''FLUSHDB'', h) \<in> set commandTable \<Longrightarrow> h = cmdFlushdb"
  "(''SRANDMEMBER'', h) \<in> set commandTable \<Longrightarrow> h = cmdSrandmember"
  by (simp_all add: commandTable_def commands_defs)

lemma lockless_handler:
  assumes "(n, h) \<in> set commandTable" "ToUpper a = n" "\<not> takes_lock (a # args)"
  shows "\<exists>c'. h m c n args = Some (Finished m c')"
proof -
  consider "n = ''QUIT''" | "n = ''TYPE''" | "n = ''FLUSHALL''" | "n = ''FLUSHDB''" | "n = ''SRANDMEMBER''"
    | "n \<notin> {''QUIT'', ''TYPE'', ''FLUSHALL'', ''FLUSHDB'', ''SRANDMEMBER''}" by blast
  then show ?thesis
  proof cases
    case 6
    have "n \<in> fst ` set arity"
      using assms(1) arity_names by (metis image_set fst_conv image_eqI)
    then obtain r where r: "map_of arity n = Some r" by (cases "map_of arity n") (auto simp: map_of_eq_None_iff)
    with assms(2,3) 6 have "\<not> arity_ok (length args) r" by (simp add: takes_lock_def)
    from usage_error [OF assms(1) map_of_SomeD [OF r] this] show ?thesis by (simp add: usage_reply_def)
  qed (use assms special_handlers [of h] in \<open>auto simp: takes_lock_def handler_defs usage_def Suc_le_eq split: list.splits\<close>)
qed

lemma dispatch_lockless:
  assumes "serving commandTable s" "\<not> takes_lock args" "args \<noteq> []"
  shows "\<exists>s' c'. dispatch s m c args = Some (s', Finished m c')"
  using assms(1)
proof (cases rule: table.dispatch_cases [where args = args and m = m and c = c])
  case (known a rest h)
  with lockless_handler [OF known(2) refl] assms(2) show ?thesis by fastforce
qed (use assms(3) in auto)

end
