(* ===== verification/World.thy ===== *)
theory World
  imports Direct Arity
begin

text \<open>
  The server with its clients: connections come and go, send requests, block and are woken or
  time out, while the program that embeds the server calls the direct API and closes it.

  A step is atomic where the code holds the lock of the server, so an execution is a sequence
  of events. Each connection runs \<open>servePeer\<close>: \<open>Called args\<close> is a request read whose handler
  has not got the lock yet, and a blocked connection is inside the loop of \<open>blocking\<close>, whose
  phases are the points where the lock changes hands:

  \<^item> \<open>Trying b t\<close>: the attempt failed; the handler holds the lock until the goroutine it
    started waits on the condition variable.
  \<^item> \<open>Parked b t g\<close>: the goroutine waits since broadcast number \<open>g\<close>; the lock is free.
  \<^item> \<open>Late b\<close>: the timer fired before the goroutine waited; the handler answered, and waits for
    the goroutine with the lock still held.
  \<^item> \<open>Draining g\<close>: the handler answered the timeout and waits for the goroutine to be woken.

  The reply of a request is flushed only when its handler returns, that is on the way to \<open>Idle\<close>.
\<close>

subsection \<open>State and events\<close>

datatype phase =
    Idle
  | Called "string list"
  | Trying blockCmd int
  | Parked blockCmd int nat
  | Late blockCmd
  | Draining nat

record conn =
  cl :: peer
  phase :: phase
  requests :: nat

datatype lock = Free | Held nat | Closing

record world =
  srv :: Server
  rq :: RediQueue
  conns :: "(nat, conn) fmap"
  lock :: lock
  listening :: bool

datatype event =
    Connect nat
  | Arrive nat "string list"
  | Run nat
  | Request nat "string list"
  | Park nat
  | Timeout nat
  | Wake nat
  | Drained nat
  | Disconnect nat
  | Api api
  | CloseStart
  | CloseEnd
  | Restart

datatype outcome = Disabled | Panicked | Stepped world

definition new_world :: "rng \<Rightarrow> (string \<Rightarrow> (string \<Rightarrow> bool) option) \<Rightarrow> world" where
  "new_world r re = \<lparr>srv = start NewServer, rq = NewRediQueue r re, conns = fmempty, lock = Free, listening = True\<rparr>"

definition put_conn :: "nat \<Rightarrow> conn \<Rightarrow> world \<Rightarrow> world" where
  "put_conn i k w = w\<lparr>conns := fmupd i k (conns w)\<rparr>"

definition drop_conn :: "nat \<Rightarrow> world \<Rightarrow> world" where
  "drop_conn i w = w\<lparr>conns := fmdrop i (conns w), srv := serve_end i (srv w)\<rparr>"

subsection \<open>Steps\<close>

definition do_connect :: "nat \<Rightarrow> world \<Rightarrow> outcome" where
  "do_connect i w =
     (if \<not> listening w \<or> i |\<in>| fmdom (conns w) then Disabled
      else Stepped (put_conn i \<lparr>cl = new_peer, phase = Idle, requests = 0\<rparr>
             (w\<lparr>srv := serve_start i (srv w)\<rparr>)))"

text \<open>
  One turn of the loop of \<open>servePeer\<close>: the request is read, and its handler runs once it gets
  the lock, if it needs it. \<open>Request\<close> is both at once.
\<close>

definition handle :: "nat \<Rightarrow> conn \<Rightarrow> string list \<Rightarrow> world \<Rightarrow> outcome" where
  "handle i k args w =
     (if lock w \<noteq> Free \<and> takes_lock args then Disabled
      else (case dispatch (srv w) (rq w) (cl k) args of
              None \<Rightarrow> Panicked
            | Some (s, Finished m c) \<Rightarrow>
                let k = k\<lparr>cl := c, phase := Idle\<rparr>; w = w\<lparr>srv := s, rq := m\<rparr>
                in Stepped (if closed c then drop_conn i (put_conn i k w) else put_conn i k w)
            | Some (s, Waiting m c b t) \<Rightarrow>
                Stepped (put_conn i (k\<lparr>cl := c, phase := Trying b t\<rparr>)
                  (w\<lparr>srv := s, rq := m, lock := Held i\<rparr>))))"

definition do_arrive :: "nat \<Rightarrow> string list \<Rightarrow> world \<Rightarrow> outcome" where
  "do_arrive i args w =
     (case fmlookup (conns w) i of
        None \<Rightarrow> Disabled
      | Some k \<Rightarrow>
          if phase k \<noteq> Idle then Disabled
          else Stepped (put_conn i (k\<lparr>phase := Called args, requests := Suc (requests k)\<rparr>) w))"

definition do_run :: "nat \<Rightarrow> world \<Rightarrow> outcome" where
  "do_run i w =
     (case fmlookup (conns w) i of
        None \<Rightarrow> Disabled
      | Some k \<Rightarrow> (case phase k of Called args \<Rightarrow> handle i k args w | _ \<Rightarrow> Disabled))"

definition do_request :: "nat \<Rightarrow> string list \<Rightarrow> world \<Rightarrow> outcome" where
  "do_request i args w =
     (case fmlookup (conns w) i of
        None \<Rightarrow> Disabled
      | Some k \<Rightarrow>
          if phase k \<noteq> Idle then Disabled
          else handle i (k\<lparr>requests := Suc (requests k)\<rparr>) args w)"

text \<open>The goroutine enters \<open>Wait\<close>, which releases the lock.\<close>

definition do_park :: "nat \<Rightarrow> world \<Rightarrow> outcome" where
  "do_park i w =
     (case fmlookup (conns w) i of
        None \<Rightarrow> Disabled
      | Some k \<Rightarrow>
          (case phase k of
             Trying b t \<Rightarrow> Stepped (put_conn i (k\<lparr>phase := Parked b t (signal (rq w))\<rparr>) (w\<lparr>lock := Free\<rparr>))
           | Late b \<Rightarrow> Stepped (put_conn i (k\<lparr>phase := Draining (signal (rq w))\<rparr>) (w\<lparr>lock := Free\<rparr>))
           | _ \<Rightarrow> Disabled))"

text \<open>The timer, if there is one, fires: the timeout is answered and everyone is woken.\<close>

definition do_timeout :: "nat \<Rightarrow> world \<Rightarrow> outcome" where
  "do_timeout i w =
     (case fmlookup (conns w) i of
        None \<Rightarrow> Disabled
      | Some k \<Rightarrow>
          let w' = w\<lparr>rq := Broadcast (rq w)\<rparr>; k' = k\<lparr>cl := onTimeout (cl k)\<rparr> in
          (case phase k of
             Trying b t \<Rightarrow> if t = 0 then Disabled else Stepped (put_conn i (k'\<lparr>phase := Late b\<rparr>) w')
           | Parked b t g \<Rightarrow> if t = 0 then Disabled else Stepped (put_conn i (k'\<lparr>phase := Draining g\<rparr>) w')
           | _ \<Rightarrow> Disabled))"

text \<open>A broadcast after \<open>g\<close> wakes the goroutine, which takes the lock; the handler tries again.\<close>

definition do_wake :: "nat \<Rightarrow> world \<Rightarrow> outcome" where
  "do_wake i w =
     (case fmlookup (conns w) i of
        None \<Rightarrow> Disabled
      | Some k \<Rightarrow>
          (case phase k of
             Parked b t g \<Rightarrow>
               if lock w \<noteq> Free \<or> signal (rq w) \<le> g then Disabled
               else (case run_block b (rq w) (cl k) of
                       None \<Rightarrow> Panicked
                     | Some (True, m, c) \<Rightarrow> Stepped (put_conn i (k\<lparr>cl := c, phase := Idle\<rparr>) (w\<lparr>rq := m\<rparr>))
                     | Some (False, m, c) \<Rightarrow>
                         Stepped (put_conn i (k\<lparr>cl := c, phase := Trying b t\<rparr>) (w\<lparr>rq := m, lock := Held i\<rparr>)))
           | _ \<Rightarrow> Disabled))"

definition do_drained :: "nat \<Rightarrow> world \<Rightarrow> outcome" where
  "do_drained i w =
     (case fmlookup (conns w) i of
        None \<Rightarrow> Disabled
      | Some k \<Rightarrow>
          (case phase k of
             Draining g \<Rightarrow>
               if lock w \<noteq> Free \<or> signal (rq w) \<le> g then Disabled
               else Stepped (put_conn i (k\<lparr>phase := Idle\<rparr>) w)
           | _ \<Rightarrow> Disabled))"

text \<open>\<open>readArray\<close> returns an error: the client is gone, or sent something else.\<close>

definition do_disconnect :: "nat \<Rightarrow> world \<Rightarrow> outcome" where
  "do_disconnect i w =
     (case fmlookup (conns w) i of
        None \<Rightarrow> Disabled
      | Some k \<Rightarrow> if phase k = Idle then Stepped (drop_conn i w) else Disabled)"

definition do_api :: "api \<Rightarrow> world \<Rightarrow> outcome" where
  "do_api a w =
     (if lock w \<noteq> Free then Disabled
      else case call_api a (rq w) of None \<Rightarrow> Panicked | Some m \<Rightarrow> Stepped (w\<lparr>rq := m\<rparr>))"

text \<open>
  \<open>RediQueue.Close\<close> takes the lock, stops listening, closes the connections, and waits for all
  their goroutines before it releases the lock.
\<close>

definition do_close_start :: "world \<Rightarrow> outcome" where
  "do_close_start w =
     (if lock w \<noteq> Free \<or> \<not> listening w then Disabled
      else Stepped (w\<lparr>lock := Closing, listening := False\<rparr>))"

definition do_close_end :: "world \<Rightarrow> outcome" where
  "do_close_end w =
     (if lock w \<noteq> Closing \<or> fmdom (conns w) \<noteq> {||} then Disabled else Stepped (w\<lparr>lock := Free\<rparr>))"

text \<open>\<open>Restart\<close> of a closed server: a new listener and command table on the same databases.\<close>

definition do_restart :: "world \<Rightarrow> outcome" where
  "do_restart w =
     (if lock w \<noteq> Free \<or> listening w then Disabled
      else Stepped (w\<lparr>srv := start NewServer, listening := True\<rparr>))"

text \<open>The counters the program that embeds the server reads; on a closed server there is none, and they panic.\<close>

definition CommandCount :: "world \<Rightarrow> int option" where
  "CommandCount w = (if listening w then Some (TotalCommands (srv w)) else None)"

definition CurrentConnectionCount :: "world \<Rightarrow> int option" where
  "CurrentConnectionCount w = (if listening w then Some (ClientsLen (srv w)) else None)"

definition TotalConnectionCount :: "world \<Rightarrow> int option" where
  "TotalConnectionCount w = (if listening w then Some (TotalConnections (srv w)) else None)"

fun step :: "event \<Rightarrow> world \<Rightarrow> outcome" where
  "step (Connect i) w = do_connect i w"
| "step (Arrive i args) w = do_arrive i args w"
| "step (Run i) w = do_run i w"
| "step (Request i args) w = do_request i args w"
| "step (Park i) w = do_park i w"
| "step (Timeout i) w = do_timeout i w"
| "step (Wake i) w = do_wake i w"
| "step (Drained i) w = do_drained i w"
| "step (Disconnect i) w = do_disconnect i w"
| "step (Api a) w = do_api a w"
| "step CloseStart w = do_close_start w"
| "step CloseEnd w = do_close_end w"
| "step Restart w = do_restart w"

lemmas step_defs = do_connect_def do_arrive_def do_run_def do_request_def do_park_def do_timeout_def do_wake_def do_drained_def
  do_disconnect_def do_api_def do_close_start_def do_close_end_def do_restart_def

lemma fmdrop_put: "fmdrop i (fmupd i x f) = fmdrop i f"
  by (rule fmap_ext) simp

lemma fmupd_put: "fmupd i x (fmupd i y f) = fmupd i x f"
  by (rule fmap_ext) simp

text \<open>A request is its arrival and its handler, with nothing in between.\<close>

lemma request_split:
  "step (Request i args) w = (case step (Arrive i args) w of Stepped w1 \<Rightarrow> step (Run i) w1 | _ \<Rightarrow> Disabled)"
proof (cases "fmlookup (conns w) i")
  case (Some k)
  let ?k = "k\<lparr>requests := Suc (requests k)\<rparr>"
  have "handle i (k\<lparr>phase := Called args, requests := Suc (requests k)\<rparr>) args (put_conn i x w) = handle i ?k args w" for x
    by (simp add: handle_def put_conn_def drop_conn_def Let_def fmdrop_put fmupd_put split: option.split hres.split)
  with Some show ?thesis by (simp add: do_request_def do_arrive_def do_run_def put_conn_def)
qed (simp add: do_request_def do_arrive_def)

definition disabled :: "event \<Rightarrow> world \<Rightarrow> bool" where
  "disabled e w \<longleftrightarrow> (case step e w of Disabled \<Rightarrow> True | _ \<Rightarrow> False)"

definition panics :: "event \<Rightarrow> world \<Rightarrow> bool" where
  "panics e w \<longleftrightarrow> (case step e w of Panicked \<Rightarrow> True | _ \<Rightarrow> False)"

lemma panics_iff: "panics e w \<longleftrightarrow> step e w = Panicked"
  by (simp add: panics_def split: outcome.split)

text \<open>An execution that reaches its end: no event disabled, no panic.\<close>

fun run_events :: "event list \<Rightarrow> world \<Rightarrow> world option" where
  "run_events [] w = Some w"
| "run_events (e # es) w = (case step e w of Stepped w' \<Rightarrow> run_events es w' | _ \<Rightarrow> None)"

text \<open>
  The events the theorems admit: any, but for the request and the direct call their contracts
  leave out.
\<close>

definition request_ok :: "string list \<Rightarrow> bool" where
  "request_ok args \<longleftrightarrow> args \<noteq> [] \<longrightarrow> args_ok (ToUpper (hd args)) (tl args)"

fun event_ok :: "event \<Rightarrow> bool" where
  "event_ok (Arrive i args) \<longleftrightarrow> request_ok args"
| "event_ok (Request i args) \<longleftrightarrow> request_ok args"
| "event_ok (Api a) \<longleftrightarrow> api_ok a"
| "event_ok _ \<longleftrightarrow> True"

inductive reachable :: "(event \<Rightarrow> bool) \<Rightarrow> world \<Rightarrow> bool" for ok :: "event \<Rightarrow> bool" where
  init: "reachable ok (new_world r re)"
| step: "reachable ok w \<Longrightarrow> ok e \<Longrightarrow> step e w = Stepped w' \<Longrightarrow> reachable ok w'"

lemma run_events_reachable:
  "reachable ok w \<Longrightarrow> list_all ok es \<Longrightarrow> run_events es w = Some w' \<Longrightarrow> reachable ok w'"
  by (induction es arbitrary: w) (auto split: outcome.splits intro: reachable.step)

lemma reachable_mono: "reachable ok w \<Longrightarrow> (\<And>e. ok e \<Longrightarrow> ok' e) \<Longrightarrow> reachable ok' w"
  by (induction rule: reachable.induct) (auto intro: reachable.intros)

subsection \<open>The invariant\<close>

text \<open>How many requests of a connection have no reply yet.\<close>

fun pending :: "phase \<Rightarrow> nat" where
  "pending (Called args) = 1"
| "pending (Trying b t) = 1"
| "pending (Parked b t g) = 1"
| "pending _ = 0"

fun holding :: "phase \<Rightarrow> bool" where
  "holding (Trying b t) = True"
| "holding (Late b) = True"
| "holding _ = False"

fun phase_ok :: "RediQueue \<Rightarrow> peer \<Rightarrow> phase \<Rightarrow> bool" where
  "phase_ok m c (Called args) \<longleftrightarrow> request_ok args"
| "phase_ok m c (Trying b t) \<longleftrightarrow> \<not> inTx c"
| "phase_ok m c (Parked b t g) \<longleftrightarrow> \<not> inTx c \<and> g \<le> signal m"
| "phase_ok m c (Draining g) \<longleftrightarrow> g \<le> signal m"
| "phase_ok m c _ \<longleftrightarrow> True"

text \<open>The replies to a connection: what it was sent, cut into complete replies in order.\<close>

definition has_replies :: "peer \<Rightarrow> nat \<Rightarrow> bool" where
  "has_replies c n \<longleftrightarrow> (\<exists>rs. (\<forall>r \<in> set rs. reply r) \<and> wbuf c = concat rs \<and> length rs = n)"

definition conn_ok :: "RediQueue \<Rightarrow> conn \<Rightarrow> bool" where
  "conn_ok m k \<longleftrightarrow>
     peer_ok (cl k) \<and> phase_ok m (cl k) (phase k) \<and>
     (\<exists>n. has_replies (cl k) n \<and> n + pending (phase k) = requests k)"

definition world_ok :: "world \<Rightarrow> bool" where
  "world_ok w \<longleftrightarrow>
     wf_m (rq w) \<and> serving commandTable (srv w) \<and> peers (srv w) = fmdom (conns w) \<and>
     (\<forall>i k. fmlookup (conns w) i = Some k \<longrightarrow>
        conn_ok (rq w) k \<and> (holding (phase k) \<longleftrightarrow> lock w = Held i)) \<and>
     (\<forall>i. lock w = Held i \<longrightarrow> i |\<in>| fmdom (conns w)) \<and>
     (listening w \<or> lock w = Closing \<or> fmdom (conns w) = {||})"

lemma fmap_empty_dom: "fmdom f = {||} \<longleftrightarrow> f = fmempty"
  by (auto intro!: fmap_ext simp: fmdom_notD)

lemma has_replies_new [simp]: "has_replies new_peer 0"
  by (simp add: has_replies_def new_peer_def)

lemma has_replies_add:
  "has_replies c n \<Longrightarrow> reply ts \<Longrightarrow> wbuf c' = wbuf c @ ts \<Longrightarrow> has_replies c' (Suc n)"
  (is "_ \<Longrightarrow> _ \<Longrightarrow> _ \<Longrightarrow> ?thesis")
proof -
  assume "has_replies c n" and ts: "reply ts" "wbuf c' = wbuf c @ ts"
  then obtain rs where "\<forall>r \<in> set rs. reply r" "wbuf c = concat rs" "length rs = n"
    by (auto simp: has_replies_def)
  with ts show ?thesis unfolding has_replies_def by (intro exI [of _ "rs @ [ts]"]) auto
qed

lemma has_replies_same: "wbuf c' = wbuf c \<Longrightarrow> has_replies c' n = has_replies c n"
  by (simp add: has_replies_def)

lemma conn_ok_later: "conn_ok m k \<Longrightarrow> signal m \<le> signal m' \<Longrightarrow> conn_ok m' k"
  by (cases "phase k") (auto simp: conn_ok_def)

lemma conns_ok_later:
  "world_ok w \<Longrightarrow> signal (rq w) \<le> signal m \<Longrightarrow> fmlookup (conns w) i = Some k \<Longrightarrow> conn_ok m k"
  unfolding world_ok_def using conn_ok_later by blast

text \<open>A step changes one connection; the others keep their part of the invariant.\<close>

lemma world_ok_upd:
  assumes "world_ok w" "conns w' = fmupd i k (conns w)" "wf_m (rq w')" "signal (rq w) \<le> signal (rq w')"
    "conn_ok (rq w') k" "serving commandTable (srv w')" "peers (srv w') = finsert i (peers (srv w))"
    "holding (phase k) \<longleftrightarrow> lock w' = Held i" "\<forall>j. j \<noteq> i \<longrightarrow> (lock w' = Held j \<longleftrightarrow> lock w = Held j)"
    "listening w' \<or> lock w' = Closing"
  shows "world_ok w'"
  using conns_ok_later [OF assms(1,4)] assms unfolding world_ok_def by auto

lemma world_ok_drop:
  assumes "world_ok w" "conns w' = fmdrop i (conns w)" "wf_m (rq w')" "signal (rq w) \<le> signal (rq w')"
    "serving commandTable (srv w')" "peers (srv w') = peers (srv w) |-| {|i|}"
    "lock w' = lock w" "lock w \<noteq> Held i" "listening w' = listening w"
  shows "world_ok w'"
  using conns_ok_later [OF assms(1,4)] assms unfolding world_ok_def by auto

lemma world_ok_same:
  assumes "world_ok w" "conns w' = conns w" "wf_m (rq w')" "signal (rq w) \<le> signal (rq w')"
    "srv w' = srv w" "\<forall>j. lock w' = Held j \<longleftrightarrow> lock w = Held j"
    "listening w' \<or> lock w' = Closing \<or> fmdom (conns w') = {||}"
  shows "world_ok w'"
  using conns_ok_later [OF assms(1,4)] assms unfolding world_ok_def by auto

lemma world_okD:
  assumes "world_ok w" "fmlookup (conns w) i = Some k"
  shows "wf_m (rq w)" "serving commandTable (srv w)" "conn_ok (rq w) k" "peers (srv w) = fmdom (conns w)"
    "holding (phase k) \<longleftrightarrow> lock w = Held i" "i |\<in>| peers (srv w)" "listening w \<or> lock w = Closing"
  using assms by (auto simp: world_ok_def intro: fmdomI)

lemma fresh_peers: "peers (start NewServer) = {||}"
proof -
  have "peers (fold register t s) = peers s" for t s
    by (induction t arbitrary: s)
      (auto simp: register_def Register_def Let_def split: sum.split)
  then show ?thesis by (simp add: start_table NewServer_def)
qed

lemma fresh_counters: "infoCmds (start NewServer) = 0" "infoConns (start NewServer) = 0"
proof -
  have "infoCmds (fold register t s) = infoCmds s \<and> infoConns (fold register t s) = infoConns s" for t s
    by (induction t arbitrary: s)
      (auto simp: register_def Register_def Let_def split: sum.split)
  then show "infoCmds (start NewServer) = 0" "infoConns (start NewServer) = 0"
    by (simp_all add: start_table NewServer_def)
qed

lemma new_world_ok [simp]: "world_ok (new_world r re)"
  by (simp add: world_ok_def new_world_def started fresh_peers)

lemma dispatch_peers: "dispatch s m c args = Some (s', r) \<Longrightarrow> peers s' = peers s"
  by (auto simp: dispatch_def Let_def split: list.splits option.splits)

lemma connect_ok: "world_ok w \<Longrightarrow> do_connect i w = Stepped w' \<Longrightarrow> world_ok w'"
proof -
  assume ok: "world_ok w" and st: "do_connect i w = Stepped w'"
  then have i: "i |\<notin>| fmdom (conns w)" "listening w" and w': "w' = put_conn i \<lparr>cl = new_peer, phase = Idle, requests = 0\<rparr>
      (w\<lparr>srv := serve_start i (srv w)\<rparr>)" by (auto simp: do_connect_def split: if_splits)
  have "lock w \<noteq> Held i" using ok i by (auto simp: world_ok_def)
  moreover have "peer_ok new_peer" by (simp add: peer_ok_def new_peer_def ctx_def new_connCtx_def)
  ultimately show ?thesis using ok i(2)
    by (intro world_ok_upd [OF ok, of w' i])
      (auto simp: w' put_conn_def serve_start_def serving_def world_ok_def conn_ok_def)
qed

lemma lockless_runs:
  assumes "serving commandTable s" "\<not> takes_lock args" "dispatch s m c args = Some (s', r)"
  obtains c' where "r = Finished m c'"
proof -
  have "args \<noteq> []" using assms(3) by (auto simp: dispatch_def)
  with dispatch_lockless [OF assms(1,2), of m c] assms(3) that show thesis by auto
qed

text \<open>A handler of a connection that has a request to answer and does not hold the lock.\<close>

definition runs :: "nat \<Rightarrow> conn \<Rightarrow> string list \<Rightarrow> world \<Rightarrow> bool" where
  "runs i k args w \<longleftrightarrow>
     (\<exists>k0. fmlookup (conns w) i = Some k0 \<and> \<not> holding (phase k0) \<and> cl k = cl k0) \<and>
     (\<exists>n. has_replies (cl k) n \<and> Suc n = requests k)"

lemma handle_ok:
  assumes ok: "world_ok w" and runs: "runs i k args w" and e: "request_ok args"
    and st: "handle i k args w = Stepped w'"
  shows "world_ok w'"
proof -
  obtain k0 where k: "fmlookup (conns w) i = Some k0" "\<not> holding (phase k0)" "cl k = cl k0"
    using runs by (auto simp: runs_def)
  note w = world_okD [OF ok k(1)]
  have free: "lock w \<noteq> Free \<Longrightarrow> \<not> takes_lock args" using st by (auto simp: handle_def)
  obtain s r where d: "dispatch (srv w) (rq w) (cl k) args = Some (s, r)"
    using st by (auto simp: handle_def split: option.splits if_splits)
  then have "args \<noteq> []" by (auto simp: dispatch_def)
  then have "args_ok (ToUpper (hd args)) (tl args)" using e by (simp add: request_ok_def)
  then have a: "answered (rq w) (cl k) r"
    using table.dispatch_answered [OF w(2,1) _ _ d] w(3) k(3) by (simp add: conn_ok_def)
  have s: "serving commandTable s" "peers s = finsert i (peers (srv w))"
    using table.dispatch_serving [OF w(2) d] dispatch_peers [OF d] w(6) by auto
  obtain n where n: "has_replies (cl k) n" "Suc n = requests k" using runs by (auto simp: runs_def)
  have l: "lock w \<noteq> Held i" using w(5) k(2) by simp
  show ?thesis
  proof (cases r)
    case (Finished m c)
    then obtain ts where m: "wf_m m" "signal (rq w) \<le> signal m" "peer_ok c" "reply ts" "wbuf c = wbuf (cl k) @ ts"
      using a by auto
    let ?k = "k\<lparr>cl := c, phase := Idle\<rparr>"
    have "conn_ok m ?k"
      using m has_replies_add [OF n(1) m(4,5)] n(2) by (auto simp: conn_ok_def)
    let ?w = "w\<lparr>srv := s, rq := m\<rparr>"
    show ?thesis
    proof (cases "closed c")
      case True
      then have "w' = drop_conn i (put_conn i ?k ?w)"
        using st d Finished by (simp add: handle_def split: if_splits)
      moreover have "serving commandTable (serve_end i s)" using s(1) by (simp add: serving_def serve_end_def)
      ultimately show ?thesis using m(1,2) s l
        by (intro world_ok_drop [OF ok]) (auto simp: drop_conn_def put_conn_def serve_end_def fmdrop_put)
    next
      case False
      then have "w' = put_conn i ?k ?w" using st d Finished by (simp add: handle_def split: if_splits)
      then show ?thesis using \<open>conn_ok m ?k\<close> m(1,2) s l w(7)
        by (intro world_ok_upd [OF ok, where i = i and k = ?k]) (auto simp: put_conn_def)
    qed
  next
    case (Waiting m c b t)
    then have m: "wf_m m" "signal m = signal (rq w)" "peer_ok c" "\<not> inTx c" "wbuf c = wbuf (cl k)"
      using a w(1) by (auto simp: wf_m_def same_env_def)
    have f: "lock w = Free" using lockless_runs [OF w(2) free d] Waiting by blast
    let ?k = "k\<lparr>cl := c, phase := Trying b t\<rparr>"
    have "conn_ok m ?k" using m n has_replies_same [OF m(5)] by (auto simp: conn_ok_def)
    moreover have "w' = put_conn i ?k (w\<lparr>srv := s, rq := m, lock := Held i\<rparr>)"
      using st d Waiting by (simp add: handle_def split: if_splits)
    ultimately show ?thesis using m(1,2) s f w(7)
      by (intro world_ok_upd [OF ok, where i = i and k = ?k]) (auto simp: put_conn_def)
  qed
qed

lemma request_cases:
  assumes "world_ok w" "do_request i args w = Stepped w'"
  obtains k where "fmlookup (conns w) i = Some k" "phase k = Idle" 
    "runs i (k\<lparr>requests := Suc (requests k)\<rparr>) args w" "handle i (k\<lparr>requests := Suc (requests k)\<rparr>) args w = Stepped w'"
proof -
  obtain k where k: "fmlookup (conns w) i = Some k" "phase k = Idle"
    "handle i (k\<lparr>requests := Suc (requests k)\<rparr>) args w = Stepped w'"
    using assms(2) by (auto simp: do_request_def split: option.splits if_splits)
  moreover have "runs i (k\<lparr>requests := Suc (requests k)\<rparr>) args w"
    using world_okD(3) [OF assms(1) k(1)] k(1,2) by (auto simp: runs_def conn_ok_def)
  ultimately show thesis by (intro that)
qed

lemma run_cases:
  assumes "world_ok w" "do_run i w = Stepped w'"
  obtains k args where "fmlookup (conns w) i = Some k" "phase k = Called args" "request_ok args"
    "runs i k args w" "handle i k args w = Stepped w'"
proof -
  obtain k args where k: "fmlookup (conns w) i = Some k" "phase k = Called args" "handle i k args w = Stepped w'"
    using assms(2) by (auto simp: do_run_def split: option.splits phase.splits)
  moreover have "request_ok args" "runs i k args w"
    using world_okD(3) [OF assms(1) k(1)] k(1,2) by (auto simp: runs_def conn_ok_def)
  ultimately show thesis by (intro that)
qed

lemma arrive_cases:
  assumes "do_arrive i args w = Stepped w'"
  obtains k where "fmlookup (conns w) i = Some k" "phase k = Idle"
    "w' = put_conn i (k\<lparr>phase := Called args, requests := Suc (requests k)\<rparr>) w"
  using assms by (auto simp: do_arrive_def split: option.splits if_splits)

lemma do_request_ok:
  assumes "world_ok w" "event_ok (Request i args)" "do_request i args w = Stepped w'"
  shows "world_ok w'"
  using assms(1,3) by (rule request_cases) (use assms(1,2) in \<open>auto intro: handle_ok\<close>)

lemma do_run_ok:
  assumes "world_ok w" "do_run i w = Stepped w'"
  shows "world_ok w'"
  using assms by (rule run_cases) (use assms(1) in \<open>auto intro: handle_ok\<close>)

lemma arrive_ok:
  assumes "world_ok w" "event_ok (Arrive i args)" "do_arrive i args w = Stepped w'"
  shows "world_ok w'"
  using assms(3)
proof (rule arrive_cases)
  fix k :: conn
  let ?k = "k\<lparr>phase := Called args, requests := Suc (requests k)\<rparr>"
  assume k: "fmlookup (conns w) i = Some k" "phase k = Idle" and w': "w' = put_conn i ?k w"
  note w = world_okD [OF assms(1) k(1)]
  have "conn_ok (rq w) ?k" using w(3) k(2) assms(2) by (auto simp: conn_ok_def)
  then show ?thesis using w k
    by (intro world_ok_upd [OF assms(1), where i = i and k = ?k]) (auto simp: put_conn_def w')
qed

lemma onTimeout_simps [simp]:
  "peer_ok (onTimeout c) = peer_ok c" "wbuf (onTimeout c) = wbuf c @ [TNull]" "inTx (onTimeout c) = inTx c"
  by (simp_all add: onTimeout_def WriteNull_def)

fun after_park :: "nat \<Rightarrow> phase \<Rightarrow> phase" where
  "after_park g (Trying b t) = Parked b t g"
| "after_park g (Late b) = Draining g"
| "after_park g p = p"

fun after_timeout :: "phase \<Rightarrow> phase" where
  "after_timeout (Trying b t) = Late b"
| "after_timeout (Parked b t g) = Draining g"
| "after_timeout p = p"

lemma park_cases:
  assumes "do_park i w = Stepped w'"
  obtains k where "fmlookup (conns w) i = Some k" "holding (phase k)"
    "w' = put_conn i (k\<lparr>phase := after_park (signal (rq w)) (phase k)\<rparr>) (w\<lparr>lock := Free\<rparr>)"
proof -
  obtain k where k: "fmlookup (conns w) i = Some k" using assms by (auto simp: do_park_def split: option.splits)
  show thesis by (rule that [OF k]) (use assms k in \<open>cases "phase k"; simp add: do_park_def\<close>)+
qed

lemma timeout_cases:
  assumes "do_timeout i w = Stepped w'"
  obtains k where "fmlookup (conns w) i = Some k" "pending (phase k) = 1" "after_timeout (phase k) \<noteq> phase k"
    "w' = put_conn i (k\<lparr>cl := onTimeout (cl k), phase := after_timeout (phase k)\<rparr>) (w\<lparr>rq := Broadcast (rq w)\<rparr>)"
proof -
  obtain k where k: "fmlookup (conns w) i = Some k" using assms by (auto simp: do_timeout_def split: option.splits)
  show thesis
    by (rule that [OF k]) (use assms k in \<open>cases "phase k"; simp add: do_timeout_def Let_def split: if_splits\<close>)+
qed

lemma park_ok: "world_ok w \<Longrightarrow> do_park i w = Stepped w' \<Longrightarrow> world_ok w'"
proof -
  assume ok: "world_ok w" and st: "do_park i w = Stepped w'"
  from st obtain k where k: "fmlookup (conns w) i = Some k" "holding (phase k)"
    and w': "w' = put_conn i (k\<lparr>phase := after_park (signal (rq w)) (phase k)\<rparr>) (w\<lparr>lock := Free\<rparr>)"
    by (rule park_cases)
  note w = world_okD [OF ok k(1)]
  let ?k = "k\<lparr>phase := after_park (signal (rq w)) (phase k)\<rparr>"
  have "conn_ok (rq w) ?k" "\<not> holding (phase ?k)"
    using w(3) k(2) by (cases "phase k"; simp add: conn_ok_def)+
  then show ?thesis using w k
    by (intro world_ok_upd [OF ok, where i = i and k = ?k]) (auto simp: put_conn_def w')
qed

lemma timeout_ok: "world_ok w \<Longrightarrow> do_timeout i w = Stepped w' \<Longrightarrow> world_ok w'"
proof -
  assume ok: "world_ok w" and st: "do_timeout i w = Stepped w'"
  let ?k = "\<lambda>k. k\<lparr>cl := onTimeout (cl k), phase := after_timeout (phase k)\<rparr>"
  from st obtain k where k: "fmlookup (conns w) i = Some k" "pending (phase k) = 1" "after_timeout (phase k) \<noteq> phase k"
    and w': "w' = put_conn i (?k k) (w\<lparr>rq := Broadcast (rq w)\<rparr>)"
    by (rule timeout_cases)
  note w = world_okD [OF ok k(1)]
  obtain n where n: "has_replies (cl k) n" "Suc n = requests k" using w(3) k(2) by (auto simp: conn_ok_def)
  have "has_replies (onTimeout (cl k)) (Suc n)"
    by (rule has_replies_add [OF n(1), where ts = "[TNull]"]) simp_all
  then have "conn_ok (Broadcast (rq w)) (?k k)" "holding (phase (?k k)) = holding (phase k)"
    using w(3) k(2,3) n(2) by (cases "phase k"; auto simp: conn_ok_def)+
  then show ?thesis using w
    by (intro world_ok_upd [OF ok, where i = i and k = "?k k"]) (auto simp: put_conn_def w')
qed

lemma wake_ok: "world_ok w \<Longrightarrow> do_wake i w = Stepped w' \<Longrightarrow> world_ok w'"
proof -
  assume ok: "world_ok w" and st: "do_wake i w = Stepped w'"
  obtain k b t g where k: "fmlookup (conns w) i = Some k" "phase k = Parked b t g" "lock w = Free"
    using st by (auto simp: do_wake_def split: option.splits phase.splits if_splits)
  note w = world_okD [OF ok k(1)]
  obtain n where n: "has_replies (cl k) n" "Suc n = requests k" "peer_ok (cl k)" "\<not> inTx (cl k)"
    using w(3) k(2) by (auto simp: conn_ok_def)
  from w(1) show ?thesis
  proof (cases rule: run_block_Some [of "rq w" b "cl k"])
    case (waits m)
    let ?k = "k\<lparr>cl := cl k, phase := Trying b t\<rparr>"
    have "w' = put_conn i ?k (w\<lparr>rq := m, lock := Held i\<rparr>)"
      using st k waits(1) by (simp add: do_wake_def split: if_splits)
    moreover have "conn_ok m ?k" using n by (auto simp: conn_ok_def)
    moreover have "wf_m m" "signal m = signal (rq w)"
      using waits(2,3) w(1) by (auto simp: wf_m_def same_env_def)
    ultimately show ?thesis using w k
      by (intro world_ok_upd [OF ok, where i = i and k = ?k]) (auto simp: put_conn_def)
  next
    case (serves m ts)
    let ?k = "k\<lparr>cl := emit ts (cl k), phase := Idle\<rparr>"
    have "w' = put_conn i ?k (w\<lparr>rq := m\<rparr>)"
      using st k serves(1) by (simp add: do_wake_def split: if_splits)
    moreover have "has_replies (emit ts (cl k)) (Suc n)"
      using serves(2) by (rule has_replies_add [OF n(1)]) simp
    then have "conn_ok m ?k" using n by (auto simp: conn_ok_def)
    moreover have "signal m = signal (rq w)" using serves(5) by (simp add: same_env_def)
    ultimately show ?thesis using w k serves(3)
      by (intro world_ok_upd [OF ok, where i = i and k = ?k]) (auto simp: put_conn_def)
  qed
qed

lemma drained_ok: "world_ok w \<Longrightarrow> do_drained i w = Stepped w' \<Longrightarrow> world_ok w'"
proof -
  assume ok: "world_ok w" and st: "do_drained i w = Stepped w'"
  obtain k g where k: "fmlookup (conns w) i = Some k" "phase k = Draining g"
    "w' = put_conn i (k\<lparr>phase := Idle\<rparr>) w"
    using st by (auto simp: do_drained_def split: option.splits phase.splits if_splits)
  note w = world_okD [OF ok k(1)]
  show ?thesis using w k
    by (intro world_ok_upd [OF ok, where i = i and k = "k\<lparr>phase := Idle\<rparr>"])
      (auto simp: put_conn_def conn_ok_def)
qed

lemma disconnect_ok: "world_ok w \<Longrightarrow> do_disconnect i w = Stepped w' \<Longrightarrow> world_ok w'"
proof -
  assume ok: "world_ok w" and st: "do_disconnect i w = Stepped w'"
  obtain k where k: "fmlookup (conns w) i = Some k" "phase k = Idle" "w' = drop_conn i w"
    using st by (auto simp: do_disconnect_def split: option.splits if_splits)
  note w = world_okD [OF ok k(1)]
  show ?thesis using w k
    by (intro world_ok_drop [OF ok, where i = i]) (auto simp: drop_conn_def serve_end_def serving_def)
qed

lemma api_step_ok: "world_ok w \<Longrightarrow> api_ok a \<Longrightarrow> do_api a w = Stepped w' \<Longrightarrow> world_ok w'"
proof -
  assume ok: "world_ok w" and a: "api_ok a" and st: "do_api a w = Stepped w'"
  have wf: "wf_m (rq w)" using ok by (simp add: world_ok_def)
  from call_api_kept [OF this a] obtain m where "call_api a (rq w) = Some m" "wf_m m" "signal m = signal (rq w)"
    by blast
  then show ?thesis using st ok
    by (intro world_ok_same [OF ok]) (auto simp: do_api_def world_ok_def split: if_splits)
qed

lemma close_ok:
  "world_ok w \<Longrightarrow> do_close_start w = Stepped w' \<Longrightarrow> world_ok w'"
  "world_ok w \<Longrightarrow> do_close_end w = Stepped w' \<Longrightarrow> world_ok w'"
  by (auto simp: do_close_start_def do_close_end_def world_ok_def split: if_splits
      intro!: world_ok_same [where w = w])

lemma restart_ok: "world_ok w \<Longrightarrow> do_restart w = Stepped w' \<Longrightarrow> world_ok w'"
proof -
  assume ok: "world_ok w" and st: "do_restart w = Stepped w'"
  then have "fmdom (conns w) = {||}" and w': "w' = w\<lparr>srv := start NewServer, listening := True\<rparr>"
    by (auto simp: do_restart_def world_ok_def split: if_splits)
  then show ?thesis using ok by (auto simp: world_ok_def started fresh_peers fmlookup_dom_iff fmdomI)
qed

lemma step_ok:
  assumes "world_ok w" "event_ok e" "step e w = Stepped w'"
  shows "world_ok w'"
  using assms(2,3) connect_ok [OF assms(1)] arrive_ok [OF assms(1)] do_run_ok [OF assms(1)]
    do_request_ok [OF assms(1)] park_ok [OF assms(1)]
    timeout_ok [OF assms(1)] wake_ok [OF assms(1)] drained_ok [OF assms(1)] disconnect_ok [OF assms(1)]
    api_step_ok [OF assms(1)] close_ok [OF assms(1)] restart_ok [OF assms(1)]
  by (cases e; simp only: step.simps event_ok.simps; blast)

lemma reachable_ok: "reachable event_ok w \<Longrightarrow> world_ok w"
  by (induction rule: reachable.induct) (simp, blast intro: step_ok)

subsection \<open>No wake-up is lost\<close>

text \<open>
  A blocked client that was not woken since it last tried would still find nothing, as long as
  nobody creates a key without a broadcast: that is BRPOPLPUSH when it is served at once or
  after a wait, and the direct API.
\<close>

text \<open>The direct calls that create no key.\<close>

fun calm :: "api \<Rightarrow> bool" where
  "calm (ASelect i) = True"
| "calm (ARequireAuth pw) = True"
| "calm AFlushAll = True"
| "calm AFlushDB = True"
| "calm _ = False"

definition orderly_request :: "string list \<Rightarrow> bool" where
  "orderly_request args \<longleftrightarrow> request_ok args \<and> (args \<noteq> [] \<longrightarrow> ToUpper (hd args) \<noteq> ''BRPOPLPUSH'')"

fun orderly :: "event \<Rightarrow> bool" where
  "orderly (Arrive i args) \<longleftrightarrow> orderly_request args"
| "orderly (Request i args) \<longleftrightarrow> orderly_request args"
| "orderly (Api a) \<longleftrightarrow> calm a"
| "orderly _ \<longleftrightarrow> True"

definition starved :: "RediQueue \<Rightarrow> peer \<Rightarrow> blockCmd \<Rightarrow> bool" where
  "starved m c b \<longleftrightarrow> (\<exists>m'. run_block b m c = Some (False, m', c))"

definition conn_settled :: "RediQueue \<Rightarrow> conn \<Rightarrow> bool" where
  "conn_settled m k \<longleftrightarrow>
     (case phase k of
        Called args \<Rightarrow> orderly_request args
      | Trying b t \<Rightarrow> (\<exists>ks lr. b = BXpop ks lr) \<and> starved m (cl k) b
      | Parked b t g \<Rightarrow> (\<exists>ks lr. b = BXpop ks lr) \<and> (g = signal m \<longrightarrow> starved m (cl k) b)
      | _ \<Rightarrow> True)"

definition settled :: "world \<Rightarrow> bool" where
  "settled w \<longleftrightarrow> world_ok w \<and> (\<forall>i k. fmlookup (conns w) i = Some k \<longrightarrow> conn_settled (rq w) k)"

lemma calm_ok: "calm a \<Longrightarrow> api_ok a"
  by (cases a) simp_all

lemma orderly_ok: "orderly e \<Longrightarrow> event_ok e"
  by (cases e) (auto simp: calm_ok orderly_request_def)

lemma starved_bxpop:
  "wf_m m \<Longrightarrow> starved m c (BXpop ks lr) \<longleftrightarrow>
     (\<forall>key \<in> set ks. value_of (the_db m (selectedDB (ctx c))) key = None)"
proof -
  assume wf: "wf_m m"
  let ?db = "the_db m (selectedDB (ctx c))"
  have wfd: "wf_db ?db" using wf by auto
  have "(\<exists>db ts. bxpop_body ks lr ?db = Some (False, db, ts)) \<longleftrightarrow> find (\<lambda>k. value_of ?db k \<noteq> None) ks = None"
    by (auto simp: bxpop_eq [OF wfd] split: option.splits if_splits)
  also have "\<dots> \<longleftrightarrow> (\<forall>key \<in> set ks. value_of ?db key = None)"
    by (auto simp: find_None_iff)
  finally have body: "(\<exists>db ts. bxpop_body ks lr ?db = Some (False, db, ts)) \<longleftrightarrow>
    (\<forall>key \<in> set ks. value_of ?db key = None)" .
  have "run_block (BXpop ks lr) m c = Some (False, m', c') \<Longrightarrow> c' = c" for m' c'
    using run_block_again(1) [OF wf] by blast
  then show ?thesis unfolding body [symmetric] starved_def
    by (fastforce simp: run_block_def case_prod_unfold Let_def split: option.splits)
qed

lemma starved_later:
  "wf_m m \<Longrightarrow> wf_m m' \<Longrightarrow> no_new_keys m m' \<Longrightarrow> starved m c (BXpop ks lr) \<Longrightarrow> starved m' c (BXpop ks lr)"
  by (auto simp: starved_bxpop no_new_keys_def)

lemma conn_settled_later:
  assumes "conn_settled m k" "conn_ok m k" "wf_m m" "wf_m m'" "signal m \<le> signal m'"
    "no_new_keys m m' \<or> signal m < signal m' \<and> \<not> holding (phase k)"
  shows "conn_settled m' k"
proof (cases "phase k")
  case (Trying b t)
  then show ?thesis using assms starved_later [OF assms(3,4)]
    by (auto simp: conn_settled_def)
next
  case (Parked b t g)
  then have g: "g \<le> signal m" using assms(2) by (simp add: conn_ok_def)
  show ?thesis
  proof (cases "signal m < signal m'")
    case True
    then show ?thesis using assms(1) g Parked by (auto simp: conn_settled_def)
  next
    case False
    then show ?thesis using assms g Parked starved_later [OF assms(3,4)]
      by (auto simp: conn_settled_def)
  qed
qed (use assms(1) in \<open>simp_all add: conn_settled_def\<close>)

text \<open>As \<open>world_ok_upd\<close>: what a step owes besides the invariant.\<close>

lemma settledI:
  assumes "settled w" "world_ok w'"
    and "no_new_keys (rq w) (rq w') \<or> signal (rq w) < signal (rq w') \<and> lock w = Free"
    and "signal (rq w) \<le> signal (rq w')"
    and "\<forall>j k. fmlookup (conns w') j = Some k \<longrightarrow> fmlookup (conns w) j = Some k \<or> conn_settled (rq w') k"
  shows "settled w'"
proof -
  have "conn_settled (rq w') k" if k: "fmlookup (conns w) j = Some k" for j k
  proof (rule conn_settled_later)
    have ok: "world_ok w" and "conn_settled (rq w) k" using assms(1) k by (auto simp: settled_def)
    note w = world_okD [OF ok k]
    show "conn_settled (rq w) k" by fact
    show "conn_ok (rq w) k" "wf_m (rq w)" using w by auto
    show "wf_m (rq w')" using assms(2) by (simp add: world_ok_def)
    show "signal (rq w) \<le> signal (rq w')" by fact
    show "no_new_keys (rq w) (rq w') \<or> signal (rq w) < signal (rq w') \<and> \<not> holding (phase k)"
      using assms(3) w(5) by auto
  qed
  then show ?thesis using assms(2,5) unfolding settled_def by blast
qed

lemma handle_settled:
  assumes "settled w" "orderly_request args" "runs i k args w" "handle i k args w = Stepped w'" "world_ok w'"
  shows "settled w'"
proof -
  have ok: "world_ok w" using assms(1) by (simp add: settled_def)
  obtain k0 where k: "fmlookup (conns w) i = Some k0" "cl k = cl k0" using assms(3) by (auto simp: runs_def)
  note w = world_okD [OF ok k(1)]
  obtain s r where d: "dispatch (srv w) (rq w) (cl k) args = Some (s, r)"
    using assms(4) by (auto simp: handle_def split: option.splits if_splits)
  have ne: "args \<noteq> []" using d by (auto simp: dispatch_def)
  then have e: "args_ok (ToUpper (hd args)) (tl args)" "wakes (ToUpper (hd args))"
    using assms(2) by (simp_all add: wakes_def orderly_request_def request_ok_def)
  have pk: "peer_ok (cl k)" using w(3) k(2) by (simp add: conn_ok_def)
  note a = table.dispatch_answered [OF w(2,1) pk e(1) d] table.dispatch_announces [OF w(2,1) pk e d]
  show ?thesis
  proof (cases r)
    case (Finished m c)
    have w': "rq w' = m" "conns w' = fmdrop i (conns w) \<or>
        conns w' = fmupd i (k\<lparr>cl := c, phase := Idle\<rparr>) (conns w)"
      using assms(4) d Finished
      by (auto simp: handle_def drop_conn_def put_conn_def fmdrop_put Let_def split: if_splits)
    have "lock w \<noteq> Free \<Longrightarrow> m = rq w"
    proof -
      assume "lock w \<noteq> Free"
      then have "\<not> takes_lock args" using assms(4) by (auto simp: handle_def)
      from dispatch_lockless [OF w(2) this ne, of "rq w" "cl k"] d Finished show "m = rq w" by simp
    qed
    then have "no_new_keys (rq w) m \<or> signal (rq w) < signal m \<and> lock w = Free"
      using a(2) Finished by (cases "lock w = Free") (auto simp: no_new_keys_def)
    then show ?thesis
      by (intro settledI [OF assms(1,5)])
        (use a Finished w' k in \<open>auto simp: conn_settled_def split: if_splits\<close>)
  next
    case (Waiting m c b t)
    then have m: "\<forall>i. the_db m i = the_db (rq w) i" "same_env (rq w) m" "\<exists>ks lr. b = BXpop ks lr"
        "\<exists>m2. run_block b (rq w) c = Some (False, m2, c)"
      using a by auto
    then have "starved m c b" using starved_later [of "rq w" m c] w(1)
      by (auto simp: starved_def [symmetric] wf_m_def)
    moreover have "w' = put_conn i (k\<lparr>cl := c, phase := Trying b t\<rparr>)
        (w\<lparr>srv := s, rq := m, lock := Held i\<rparr>)"
      using assms(4) d Waiting by (simp add: handle_def split: if_splits)
    ultimately show ?thesis using m
      by (intro settledI [OF assms(1,5)]) (auto simp: put_conn_def conn_settled_def same_env_def)
  qed
qed

lemma request_settled:
  assumes "settled w" "orderly (Request i args)" "do_request i args w = Stepped w'" "world_ok w'"
  shows "settled w'"
proof -
  have "world_ok w" using assms(1) by (simp add: settled_def)
  from this assms(3) show ?thesis
    by (rule request_cases) (use assms in \<open>auto intro: handle_settled\<close>)
qed

lemma run_settled:
  assumes "settled w" "do_run i w = Stepped w'" "world_ok w'"
  shows "settled w'"
proof -
  have "world_ok w" using assms(1) by (simp add: settled_def)
  from this assms(2) show ?thesis
  proof (rule run_cases)
    fix k :: conn and args
    assume k: "fmlookup (conns w) i = Some k" "phase k = Called args" "runs i k args w" "handle i k args w = Stepped w'"
    then have "orderly_request args" using assms(1) by (fastforce simp: settled_def conn_settled_def)
    with k show ?thesis using handle_settled assms(1,3) by blast
  qed
qed

lemma arrive_settled:
  assumes "settled w" "orderly (Arrive i args)" "do_arrive i args w = Stepped w'" "world_ok w'"
  shows "settled w'"
  using assms(3)
proof (rule arrive_cases)
  fix k :: conn
  let ?k = "k\<lparr>phase := Called args, requests := Suc (requests k)\<rparr>"
  assume w': "w' = put_conn i ?k w"
  have "conn_settled (rq w) ?k" using assms(2) by (simp add: conn_settled_def)
  then show ?thesis
    by (intro settledI [OF assms(1,4)]) (auto simp: w' put_conn_def no_new_keys_def)
qed

lemma wake_settled:
  assumes "settled w" "do_wake i w = Stepped w'" "world_ok w'"
  shows "settled w'"
proof -
  have ok: "world_ok w" using assms(1) by (simp add: settled_def)
  obtain k b t g where k: "fmlookup (conns w) i = Some k" "phase k = Parked b t g" "lock w = Free"
    using assms(2) by (auto simp: do_wake_def split: option.splits phase.splits if_splits)
  note w = world_okD [OF ok k(1)]
  have "conn_settled (rq w) k" using assms(1) k(1) by (simp add: settled_def)
  then obtain ks lr where b: "b = BXpop ks lr" using k(2) by (auto simp: conn_settled_def)
  from w(1) show ?thesis
  proof (cases rule: run_block_Some [of "rq w" b "cl k"])
    case (waits m)
    then have "starved (rq w) (cl k) b" by (auto simp: starved_def)
    then have "starved m (cl k) b" using starved_later [of "rq w" m "cl k" ks lr] waits w(1)
      by (auto simp: b wf_m_def)
    moreover have "w' = put_conn i (k\<lparr>cl := cl k, phase := Trying b t\<rparr>) (w\<lparr>rq := m, lock := Held i\<rparr>)"
      using assms(2) k waits(1) by (simp add: do_wake_def split: if_splits)
    ultimately show ?thesis using waits(2,3) b
      by (intro settledI [OF assms(1,3)]) (auto simp: put_conn_def conn_settled_def same_env_def)
  next
    case (serves m ts)
    have "no_new_keys (rq w) m" using bxpop_no_new_keys [OF w(1)] serves(1) b by blast
    moreover have "w' = put_conn i (k\<lparr>cl := emit ts (cl k), phase := Idle\<rparr>) (w\<lparr>rq := m\<rparr>)"
      using assms(2) k serves(1) by (simp add: do_wake_def split: if_splits)
    ultimately show ?thesis using serves(5)
      by (intro settledI [OF assms(1,3)]) (auto simp: put_conn_def conn_settled_def same_env_def)
  qed
qed

lemma park_settled: "settled w \<Longrightarrow> do_park i w = Stepped w' \<Longrightarrow> world_ok w' \<Longrightarrow> settled w'"
proof -
  assume set: "settled w" and st: "do_park i w = Stepped w'" and ok: "world_ok w'"
  from st obtain k where k: "fmlookup (conns w) i = Some k" "holding (phase k)"
    and w': "w' = put_conn i (k\<lparr>phase := after_park (signal (rq w)) (phase k)\<rparr>) (w\<lparr>lock := Free\<rparr>)"
    by (rule park_cases)
  have "conn_settled (rq w) k" using set k(1) by (simp add: settled_def)
  then have "conn_settled (rq w) (k\<lparr>phase := after_park (signal (rq w)) (phase k)\<rparr>)"
    by (cases "phase k") (simp_all add: conn_settled_def)
  then show ?thesis by (intro settledI [OF set ok]) (auto simp: w' put_conn_def)
qed

lemma timeout_settled: "settled w \<Longrightarrow> do_timeout i w = Stepped w' \<Longrightarrow> world_ok w' \<Longrightarrow> settled w'"
proof -
  assume set: "settled w" and st: "do_timeout i w = Stepped w'" and ok: "world_ok w'"
  from st obtain k where k: "fmlookup (conns w) i = Some k" "pending (phase k) = 1" "after_timeout (phase k) \<noteq> phase k"
    and w': "w' = put_conn i (k\<lparr>cl := onTimeout (cl k), phase := after_timeout (phase k)\<rparr>) (w\<lparr>rq := Broadcast (rq w)\<rparr>)"
    by (rule timeout_cases)
  have "conn_settled (Broadcast (rq w)) (k\<lparr>cl := onTimeout (cl k), phase := after_timeout (phase k)\<rparr>)"
    using k(2,3) by (cases "phase k") (simp_all add: conn_settled_def)
  moreover have "no_new_keys (rq w) (Broadcast (rq w))" by (simp add: no_new_keys_def)
  ultimately show ?thesis by (intro settledI [OF set ok]) (auto simp: w' put_conn_def)
qed

lemma the_db_Select: "the_db (Select i m) j = the_db m j"
  by (simp add: the_db_def Select_def)

lemma api_settled: "settled w \<Longrightarrow> orderly (Api a) \<Longrightarrow> do_api a w = Stepped w' \<Longrightarrow> world_ok w' \<Longrightarrow> settled w'"
proof -
  assume set: "settled w" and a: "orderly (Api a)" and st: "do_api a w = Stepped w'" and ok: "world_ok w'"
  have "api_ok a" using a by (simp add: calm_ok)
  with set have "\<exists>m. call_api a (rq w) = Some m \<and> signal m = signal (rq w)"
    using call_api_kept [of "rq w" a] by (auto simp: settled_def world_ok_def)
  then obtain m where m: "call_api a (rq w) = Some m" "signal m = signal (rq w)" by blast
  then have w': "rq w' = m" "conns w' = conns w" using st by (auto simp: do_api_def split: if_splits)
  have "no_new_keys (rq w) m"
    using a m(1) by (cases a) (auto simp: no_new_keys_def the_db_flushAll the_db_Select
        method_defs selected_def case_prod_unfold Let_def db_FlushDB_def split: if_splits)
  then show ?thesis using m(2) by (intro settledI [OF set ok]) (auto simp: w')
qed

lemma simple_settled:
  assumes "settled w"
  shows "do_connect i w = Stepped w' \<Longrightarrow> world_ok w' \<Longrightarrow> settled w'"
    and "do_drained i w = Stepped w' \<Longrightarrow> world_ok w' \<Longrightarrow> settled w'"
    and "do_disconnect i w = Stepped w' \<Longrightarrow> world_ok w' \<Longrightarrow> settled w'"
    and "do_close_start w = Stepped w' \<Longrightarrow> world_ok w' \<Longrightarrow> settled w'"
    and "do_close_end w = Stepped w' \<Longrightarrow> world_ok w' \<Longrightarrow> settled w'"
    and "do_restart w = Stepped w' \<Longrightarrow> world_ok w' \<Longrightarrow> settled w'"
  by (auto simp: do_connect_def do_drained_def do_disconnect_def do_close_start_def do_close_end_def do_restart_def
      put_conn_def drop_conn_def conn_settled_def
      intro!: settledI [OF assms] split: if_splits option.splits phase.splits)

lemma step_settled:
  assumes "settled w" "orderly e" "step e w = Stepped w'"
  shows "settled w'"
proof -
  have "world_ok w'" using assms orderly_ok step_ok by (auto simp: settled_def)
  then show ?thesis
    using assms(2,3) request_settled [OF assms(1)] run_settled [OF assms(1)] arrive_settled [OF assms(1)] park_settled [OF assms(1)] timeout_settled [OF assms(1)]
      wake_settled [OF assms(1)] api_settled [OF assms(1)] simple_settled [OF assms(1)]
    by (cases e; simp only: step.simps; blast)
qed

lemma reachable_settled: "reachable orderly w \<Longrightarrow> settled w"
proof (induction rule: reachable.induct)
  case (init r re)
  then show ?case by (simp add: settled_def) (simp add: new_world_def)
next
  case (step w e w')
  then show ?case using step_settled by blast
qed

subsection \<open>Progress\<close>

text \<open>Who holds the lock can always release it.\<close>

lemma held_parks:
  "reachable event_ok w \<Longrightarrow> lock w = Held i \<Longrightarrow> \<exists>w'. step (Park i) w = Stepped w' \<and> lock w' = Free"
proof -
  assume "reachable event_ok w" and l: "lock w = Held i"
  then have ok: "world_ok w" by (simp add: reachable_ok)
  then obtain k where k: "fmlookup (conns w) i = Some k" using l by (auto simp: world_ok_def fmlookup_dom_iff)
  then have "holding (phase k)" using world_okD(5) [OF ok k] l by simp
  with k show ?thesis by (cases "phase k") (simp_all add: do_park_def put_conn_def)
qed

text \<open>A blocked client that was woken and finds a key is served, with one reply.\<close>

lemma woken_served:
  assumes "reachable event_ok w" "fmlookup (conns w) i = Some k" "phase k = Parked b t g"
    "lock w = Free" "g < signal (rq w)" "\<not> starved (rq w) (cl k) b"
  shows "\<exists>w' k' ts. step (Wake i) w = Stepped w' \<and> fmlookup (conns w') i = Some k' \<and> phase k' = Idle \<and>
    reply ts \<and> cl k' = emit ts (cl k)"
proof -
  have "world_ok w" using assms(1) by (rule reachable_ok)
  note w = world_okD [OF this assms(2)]
  from w(1) show ?thesis
  proof (cases rule: run_block_Some [of "rq w" b "cl k"])
    case (waits m)
    then show ?thesis using assms(6) by (auto simp: starved_def)
  next
    case (serves m ts)
    then show ?thesis using assms(2-5) by (auto simp: do_wake_def put_conn_def)
  qed
qed

text \<open>What can make the process panic.\<close>

definition fatal :: "string list \<Rightarrow> bool" where
  "fatal args \<longleftrightarrow> args = [] \<or> \<not> never_panics (ToUpper (hd args))"

lemma handle_panics:
  assumes ok: "world_ok w" and k: "fmlookup (conns w) i = Some k0" "cl k = cl k0"
    and e: "request_ok args" and p: "handle i k args w = Panicked"
  shows "fatal args"
proof -
  have d: "dispatch (srv w) (rq w) (cl k) args = None"
    using p by (auto simp: handle_def Let_def split: option.splits if_splits hres.splits)
  note w = world_okD [OF ok k(1)]
  have "peer_ok (cl k)" using w(3) k(2) by (simp add: conn_ok_def)
  from table.dispatch_safe [OF w(2,1) this, of args] show ?thesis
    using e d by (cases "args = []") (auto simp: request_ok_def fatal_def)
qed

lemma step_panics:
  assumes "reachable event_ok w" "event_ok e" "step e w = Panicked"
  obtains (request) i args where "e = Request i args" "fatal args"
  | (run) i k args where "e = Run i" "fmlookup (conns w) i = Some k" "phase k = Called args" "fatal args"
proof -
  have ok: "world_ok w" using assms(1) by (rule reachable_ok)
  show thesis
  proof (cases e)
    case (Request i args)
    then obtain k where k: "fmlookup (conns w) i = Some k"
        "handle i (k\<lparr>requests := Suc (requests k)\<rparr>) args w = Panicked"
      using assms(3) by (auto simp: do_request_def split: option.splits if_splits)
    then have "fatal args" using handle_panics [OF ok k(1) _ _ k(2)] assms(2) Request by simp
    with Request show thesis by (rule request)
  next
    case (Run i)
    then obtain k args where k: "fmlookup (conns w) i = Some k" "phase k = Called args" "handle i k args w = Panicked"
      using assms(3) by (auto simp: do_run_def split: option.splits phase.splits)
    moreover have "request_ok args" using world_okD(3) [OF ok k(1)] k(2) by (simp add: conn_ok_def)
    ultimately show thesis using run [OF Run k(1,2)] handle_panics [OF ok k(1) refl _ k(3)] by blast
  next
    case (Wake i)
    then obtain k b where k: "fmlookup (conns w) i = Some k" "run_block b (rq w) (cl k) = None"
      using assms(3) by (auto simp: do_wake_def split: option.splits if_splits phase.splits bool.splits)
    then show thesis using world_okD(1) [OF ok k(1)] run_block_Some [of "rq w" b "cl k"] by fastforce
  next
    case (Api a)
    then show thesis using assms(2,3) ok call_api_kept [of "rq w" a]
      by (auto simp: do_api_def world_ok_def split: option.splits if_splits)
  qed (use assms(3) in \<open>auto simp: step_defs Let_def split: option.splits if_splits phase.splits\<close>)
qed

text \<open>
  \<open>Close\<close> waits for the handlers with the lock held, so with a blocked client it never returns,
  and neither with a request that is read but waits for the lock.
\<close>

fun busy :: "phase \<Rightarrow> bool" where
  "busy Idle = False"
| "busy (Called args) = takes_lock args"
| "busy _ = True"

definition stuck_closing :: "nat \<Rightarrow> world \<Rightarrow> bool" where
  "stuck_closing i w \<longleftrightarrow>
     lock w = Closing \<and> \<not> listening w \<and> world_ok w \<and>
     (\<exists>k. fmlookup (conns w) i = Some k \<and> busy (phase k))"

lemma handle_without_lock:
  assumes "world_ok w" "lock w \<noteq> Free" "handle j k args w = Stepped w'"
  shows "\<not> takes_lock args \<and> lock w' = lock w \<and> listening w' = listening w \<and> rq w' = rq w \<and>
    (\<forall>i. i \<noteq> j \<longrightarrow> fmlookup (conns w') i = fmlookup (conns w) i)"
proof -
  have q: "\<not> takes_lock args" using assms(2,3) by (auto simp: handle_def)
  obtain s r where d: "dispatch (srv w) (rq w) (cl k) args = Some (s, r)"
    using assms(3) by (auto simp: handle_def split: option.splits if_splits)
  then have "args \<noteq> []" by (auto simp: dispatch_def)
  with dispatch_lockless [OF _ q this, of "srv w" "rq w" "cl k"] assms(1) d
  obtain c where "r = Finished (rq w) c" by (auto simp: world_ok_def)
  with assms(3) d q show ?thesis
    by (auto simp: handle_def drop_conn_def put_conn_def Let_def split: if_splits)
qed

lemma closing_stuck:
  assumes "stuck_closing i w" "event_ok e" "step e w = Stepped w'"
  shows "stuck_closing i w'"
proof -
  obtain k where c: "lock w = Closing" "\<not> listening w" "world_ok w"
    and k: "fmlookup (conns w) i = Some k" "busy (phase k)"
    using assms(1) by (auto simp: stuck_closing_def)
  have ok: "world_ok w'" using step_ok [OF c(3) assms(2,3)] .
  have idle: "\<not> holding (phase x)" if "fmlookup (conns w) j = Some x" for j x
    using world_okD(5) [OF c(3) that] c(1) by simp
  have "lock w' = Closing \<and> \<not> listening w' \<and> (\<exists>k. fmlookup (conns w') i = Some k \<and> busy (phase k))"
  proof (cases e)
    case (Run j)
    then obtain x args where x: "fmlookup (conns w) j = Some x" "phase x = Called args" "handle j x args w = Stepped w'"
      using assms(3) by (auto simp: do_run_def split: option.splits phase.splits)
    from handle_without_lock [OF c(3) _ x(3)] c(1,2) k x(1,2) show ?thesis by (cases "i = j") auto
  next
    case (Request j args)
    then obtain x where x: "fmlookup (conns w) j = Some x" "phase x = Idle"
        "handle j (x\<lparr>requests := Suc (requests x)\<rparr>) args w = Stepped w'"
      using assms(3) by (auto simp: do_request_def split: option.splits if_splits)
    from handle_without_lock [OF c(3) _ x(3)] c(1,2) k x(1,2) show ?thesis by (cases "i = j") auto
  next
    case (Park j)
    with assms(3) have "do_park j w = Stepped w'" by simp
    then obtain x where "fmlookup (conns w) j = Some x" "holding (phase x)" by (rule park_cases)
    then show ?thesis using idle by blast
  next
    case (Timeout j)
    with assms(3) have "do_timeout j w = Stepped w'" by simp
    then show ?thesis
    proof (rule timeout_cases)
      fix x assume x: "fmlookup (conns w) j = Some x" "pending (phase x) = 1" "after_timeout (phase x) \<noteq> phase x"
        "w' = put_conn j (x\<lparr>cl := onTimeout (cl x), phase := after_timeout (phase x)\<rparr>) (w\<lparr>rq := Broadcast (rq w)\<rparr>)"
      then have "busy (after_timeout (phase x))" by (cases "phase x") simp_all
      with x k c show ?thesis by (auto simp: put_conn_def)
    qed
  next
    case CloseEnd
    have "i |\<in>| fmdom (conns w)" using k(1) by (rule fmdomI)
    with CloseEnd show ?thesis using assms(3) by (auto simp: do_close_end_def split: if_splits)
  qed (use assms(3) c k in \<open>auto simp: step_defs drop_conn_def put_conn_def
        split: if_splits option.splits phase.splits\<close>)
  with ok show ?thesis by (simp add: stuck_closing_def)
qed

lemma closing_stuck_run:
  "stuck_closing i w \<Longrightarrow> list_all event_ok es \<Longrightarrow> run_events es w = Some w' \<Longrightarrow> stuck_closing i w'"
  by (induction es arbitrary: w) (auto split: outcome.splits dest: closing_stuck)

end
