(* ===== verification/Proto.thy ===== *)
theory Proto
  imports Peer
begin

text \<open>
  The input side of the protocol (\<open>server/proto.go\<close>): \<open>readArray\<close> and \<open>readString\<close> on a
  buffered reader. The reader is an interface, the locale \<open>byte_source\<close>: its two methods and
  what they promise of the bytes to come. It is interpreted on a model of \<open>bufio.Reader\<close> over
  the pieces a connection delivers, and on the bare bytes; so the result of reading depends on
  the bytes only, not on how the network cuts them.
\<close>

subsection \<open>Results\<close>

datatype perr = EOF | ErrProtocol | ErrAtoi

text \<open>A value, a non-nil error, or a panic.\<close>

datatype 'a rres = Ok 'a | Fail perr | Crash

text \<open>
  \<open>make\<close> panics on a negative length, and on one above what the run time can address
  (48 bits on the 64-bit platforms).
\<close>

definition max_alloc :: int where
  "max_alloc = 281474976710656"

definition make_ok :: "int \<Rightarrow> bool" where
  "make_ok n \<longleftrightarrow> 0 \<le> n \<and> n \<le> max_alloc"

type_synonym 's read_line = "'s \<Rightarrow> string option \<times> 's"
type_synonym 's read_some = "nat \<Rightarrow> 's \<Rightarrow> string option \<times> 's"

text \<open>The slice \<open>line[1 : len(line)-2]\<close>.\<close>

definition payload :: "string \<Rightarrow> string" where
  "payload line = take (length line - 3) (drop 1 line)"

subsection \<open>Reading\<close>

text \<open>
  The loop that fills the buffer of a bulk string: \<open>n\<close> bytes are missing. A reader that never
  delivers would keep it going forever, which is \<open>None\<close>.
\<close>

partial_function (option) read_full ::
    "'s read_some \<Rightarrow> nat \<Rightarrow> string \<Rightarrow> 's \<Rightarrow> (string rres \<times> 's) option" where
  "read_full rd n buf s =
     (if n = 0 then Some (Ok buf, s)
      else case rd n s of
             (None, s) \<Rightarrow> Some (Fail EOF, s)
           | (Some bs, s) \<Rightarrow> read_full rd (n - length bs) (buf @ bs) s)"

definition readString :: "'s read_line \<Rightarrow> 's read_some \<Rightarrow> 's \<Rightarrow> (string rres \<times> 's) option" where
  "readString rl rd s =
     (case rl s of
        (None, s) \<Rightarrow> Some (Fail EOF, s)
      | (Some line, s) \<Rightarrow>
          if length line < 3 then Some (Fail ErrProtocol, s)
          else if hd line = CHR ''+'' \<or> hd line = CHR ''-'' \<or> hd line = CHR '':'' then Some (Ok (payload line), s)
          else if hd line = CHR ''$'' then
            (case Atoi (payload line) of
               None \<Rightarrow> Some (Fail ErrAtoi, s)
             | Some len \<Rightarrow>
                 if len < 0 then Some (Ok [], s)
                 else if \<not> make_ok (i64 (len + 2)) then Some (Crash, s)
                 else (case read_full rd (nat (len + 2)) [] s of
                         Some (Ok buf, s) \<Rightarrow> Some (Ok (take (nat len) buf), s)
                       | r \<Rightarrow> r))
          else Some (Fail ErrProtocol, s))"

text \<open>The loop of \<open>readArray\<close> over its \<open>n\<close> elements.\<close>

fun read_fields :: "'s read_line \<Rightarrow> 's read_some \<Rightarrow> nat \<Rightarrow> string list \<Rightarrow> 's \<Rightarrow>
    (string list rres \<times> 's) option" where
  "read_fields rl rd 0 fs s = Some (Ok fs, s)"
| "read_fields rl rd (Suc n) fs s =
     (case readString rl rd s of
        None \<Rightarrow> None
      | Some (Ok x, s) \<Rightarrow> read_fields rl rd n (fs @ [x]) s
      | Some (Fail e, s) \<Rightarrow> Some (Fail e, s)
      | Some (Crash, s) \<Rightarrow> Some (Crash, s))"

definition readArray :: "'s read_line \<Rightarrow> 's read_some \<Rightarrow> 's \<Rightarrow> (string list rres \<times> 's) option" where
  "readArray rl rd s =
     (case rl s of
        (None, s) \<Rightarrow> Some (Fail EOF, s)
      | (Some line, s) \<Rightarrow>
          if length line < 3 then Some (Fail ErrProtocol, s)
          else if hd line = CHR ''*'' then
            (case Atoi (payload line) of
               None \<Rightarrow> Some (Fail ErrAtoi, s)
             | Some l \<Rightarrow> read_fields rl rd (nat l) [] s)
          else Some (Fail ErrProtocol, s))"

subsection \<open>Readers\<close>

definition nl :: char where
  "nl = CHR 0x0A"

text \<open>The line a text starts with, newline included, and the rest.\<close>

fun cut_line :: "string \<Rightarrow> (string \<times> string) option" where
  "cut_line [] = None"
| "cut_line (c # s) =
     (if c = nl then Some ([c], s) else map_option (\<lambda>(l, r). (c # l, r)) (cut_line s))"

text \<open>The bare bytes.\<close>

definition flat_line :: "string read_line" where
  "flat_line s = (case cut_line s of None \<Rightarrow> (None, []) | Some (l, r) \<Rightarrow> (Some l, r))"

definition flat_some :: "string read_some" where
  "flat_some n s = (if s = [] then (None, []) else (Some (take n s), drop n s))"

text \<open>
  \<open>bufio.Reader\<close>: what is buffered, and the pieces the connection will deliver, after which it
  reports an error. \<open>ReadString\<close> fills until there is a newline; \<open>Read\<close> gives what is buffered, or
  else what one read of the connection delivers.
\<close>

type_synonym bufio = "string \<times> string list"

fun ReadString :: "string \<Rightarrow> string list \<Rightarrow> string option \<times> bufio" where
  "ReadString buf cs =
     (case cut_line buf of
        Some (l, r) \<Rightarrow> (Some l, (r, cs))
      | None \<Rightarrow> (case cs of [] \<Rightarrow> (None, ([], [])) | c # cs \<Rightarrow> ReadString (buf @ c) cs))"

declare ReadString.simps [simp del]

definition bufio_line :: "bufio read_line" where
  "bufio_line s = ReadString (fst s) (snd s)"

definition bufio_some :: "bufio read_some" where
  "bufio_some n s =
     (if fst s \<noteq> [] then (Some (take n (fst s)), (drop n (fst s), snd s))
      else case snd s of
             [] \<Rightarrow> (None, ([], []))
           | c # cs \<Rightarrow> (Some (take n c), (drop n c, cs)))"

text \<open>
  What \<open>proto.go\<close> relies on: a line is delivered as soon as there is one; a read delivers at
  least one byte and no more than asked for, as long as there are any; nothing is lost.
\<close>

locale byte_source =
  fixes rl :: "'s read_line" and rd :: "'s read_some"
    and contents :: "'s \<Rightarrow> string" and valid :: "'s \<Rightarrow> bool"
  assumes line_some: "valid s \<Longrightarrow> cut_line (contents s) = Some (l, r) \<Longrightarrow>
      \<exists>s'. rl s = (Some l, s') \<and> valid s' \<and> contents s' = r"
    and line_none: "valid s \<Longrightarrow> cut_line (contents s) = None \<Longrightarrow>
      \<exists>s'. rl s = (None, s') \<and> valid s' \<and> contents s' = []"
    and some_some: "valid s \<Longrightarrow> contents s \<noteq> [] \<Longrightarrow> 0 < n \<Longrightarrow>
      \<exists>x s'. rd n s = (Some x, s') \<and> valid s' \<and> x \<noteq> [] \<and> length x \<le> n \<and> contents s = x @ contents s'"
    and some_none: "valid s \<Longrightarrow> contents s = [] \<Longrightarrow> 0 < n \<Longrightarrow>
      \<exists>s'. rd n s = (None, s') \<and> valid s' \<and> contents s' = []"
begin

text \<open>The loop ends: it delivers the next bytes, or fails when there are too few.\<close>

lemma read_full_eq:
  "valid s \<Longrightarrow> \<exists>s'. valid s' \<and>
     (if n \<le> length (contents s)
      then read_full rd n buf s = Some (Ok (buf @ take n (contents s)), s') \<and> contents s' = drop n (contents s)
      else read_full rd n buf s = Some (Fail EOF, s') \<and> contents s' = [])"
proof (induction n arbitrary: s buf rule: less_induct)
  case (less n)
  show ?case
  proof (cases "n = 0")
    case True
    then show ?thesis using less.prems by (intro exI [of _ s]) (simp add: read_full.simps)
  next
    case False
    show ?thesis
    proof (cases "contents s = []")
      case True
      with some_none [OF less.prems True] False obtain s' where
        "rd n s = (None, s')" "valid s'" "contents s' = []" by auto
      with False True show ?thesis by (intro exI [of _ s']) (subst read_full.simps, simp)
    next
      case nonempty: False
      with some_some [OF less.prems] False obtain x s1 where
        x: "rd n s = (Some x, s1)" "valid s1" "x \<noteq> []" "length x \<le> n" "contents s = x @ contents s1"
        by blast
      have step: "read_full rd n buf s = read_full rd (n - length x) (buf @ x) s1"
        by (subst read_full.simps) (simp add: False x(1))
      have "n - length x < n" using x(3) False by (cases x) auto
      from less.IH [OF this x(2), of "buf @ x"] obtain s' where s': "valid s'"
        "if n - length x \<le> length (contents s1)
         then read_full rd (n - length x) (buf @ x) s1 =
             Some (Ok ((buf @ x) @ take (n - length x) (contents s1)), s') \<and>
           contents s' = drop (n - length x) (contents s1)
         else read_full rd (n - length x) (buf @ x) s1 = Some (Fail EOF, s') \<and> contents s' = []"
        by blast
      have "n - length x \<le> length (contents s1) \<longleftrightarrow> n \<le> length (contents s)" using x(4,5) by auto
      with s' show ?thesis unfolding step
        by (intro exI [of _ s']) (auto simp: x(4,5) split: if_splits)
    qed
  qed
qed

end

interpretation flat: byte_source flat_line flat_some "\<lambda>s. s" "\<lambda>_. True"
  by standard (auto simp: flat_line_def flat_some_def)

lemma cut_line_append: "cut_line s = Some (l, r) \<Longrightarrow> cut_line (s @ t) = Some (l, r @ t)"
  by (induction s arbitrary: l) (auto split: if_splits)

lemma cut_line_none: "cut_line s = None \<longleftrightarrow> nl \<notin> set s"
  by (induction s) auto

lemma cut_line_eq: "nl \<notin> set l \<Longrightarrow> cut_line (l @ nl # r) = Some (l @ [nl], r)"
  by (induction l) auto

lemma ReadString_eq:
  "[] \<notin> set cs \<Longrightarrow>
     (case cut_line (buf @ concat cs) of
        None \<Rightarrow> ReadString buf cs = (None, ([], []))
      | Some (l, r) \<Rightarrow> \<exists>b cs'. ReadString buf cs = (Some l, (b, cs')) \<and> [] \<notin> set cs' \<and> b @ concat cs' = r)"
proof (induction cs arbitrary: buf)
  case Nil
  then show ?case by (cases "cut_line buf") (auto simp: ReadString.simps)
next
  case (Cons c cs)
  show ?case
  proof (cases "cut_line buf")
    case None
    then have step: "ReadString buf (c # cs) = ReadString (buf @ c) cs" by (simp add: ReadString.simps [of buf])
    from Cons.IH [of "buf @ c"] Cons.prems show ?thesis unfolding step by simp
  next
    case (Some lr)
    obtain l r where "lr = (l, r)" by force
    with Some have c: "cut_line buf = Some (l, r)" by simp
    from cut_line_append [OF c] show ?thesis using c Cons.prems by (simp add: ReadString.simps [of buf])
  qed
qed

interpretation bufio: byte_source bufio_line bufio_some "\<lambda>s. fst s @ concat (snd s)" "\<lambda>s. [] \<notin> set (snd s)"
proof
  fix s :: bufio and l r
  assume v: "[] \<notin> set (snd s)"
  show "cut_line (fst s @ concat (snd s)) = Some (l, r) \<Longrightarrow>
      \<exists>s'. bufio_line s = (Some l, s') \<and> [] \<notin> set (snd s') \<and> fst s' @ concat (snd s') = r"
    using ReadString_eq [OF v, of "fst s"] by (auto simp: bufio_line_def)
  show "cut_line (fst s @ concat (snd s)) = None \<Longrightarrow>
      \<exists>s'. bufio_line s = (None, s') \<and> [] \<notin> set (snd s') \<and> fst s' @ concat (snd s') = []"
    using ReadString_eq [OF v, of "fst s"] by (auto simp: bufio_line_def)
next
  fix s :: bufio and n :: nat
  assume v: "[] \<notin> set (snd s)" and n: "0 < n"
  show "fst s @ concat (snd s) \<noteq> [] \<Longrightarrow>
      \<exists>x s'. bufio_some n s = (Some x, s') \<and> [] \<notin> set (snd s') \<and> x \<noteq> [] \<and> length x \<le> n \<and>
        fst s @ concat (snd s) = x @ fst s' @ concat (snd s')"
    using v n by (auto simp: bufio_some_def split: list.split)
  show "fst s @ concat (snd s) = [] \<Longrightarrow>
      \<exists>s'. bufio_some n s = (None, s') \<and> [] \<notin> set (snd s') \<and> fst s' @ concat (snd s') = []"
    using v n by (auto simp: bufio_some_def split: list.split)
qed

subsection \<open>Reading depends on the bytes only\<close>

context byte_source begin

lemma line_flat:
  "valid s \<Longrightarrow> \<exists>x s'. rl s = (x, s') \<and> valid s' \<and> flat_line (contents s) = (x, contents s')"
proof (cases "cut_line (contents s)")
  case None
  moreover assume "valid s"
  ultimately show ?thesis using line_none by (fastforce simp: flat_line_def)
next
  case (Some lr)
  obtain l r where "lr = (l, r)" by force
  moreover assume "valid s"
  ultimately show ?thesis using Some line_some [of s l r] by (fastforce simp: flat_line_def)
qed

lemma read_full_flat:
  assumes "valid s"
  shows "\<exists>r s'. read_full rd n buf s = Some (r, s') \<and> valid s' \<and> r \<noteq> Crash \<and>
    read_full flat_some n buf (contents s) = Some (r, contents s')"
  using read_full_eq [OF assms, of n buf] flat.read_full_eq [where s = "contents s" and n = n and buf = buf]
  by (cases "n \<le> length (contents s)") fastforce+

lemma readString_flat:
  assumes "valid s"
  shows "\<exists>r s'. readString rl rd s = Some (r, s') \<and> valid s' \<and>
    readString flat_line flat_some (contents s) = Some (r, contents s')"
proof -
  from line_flat [OF assms] obtain x s1
    where x: "rl s = (x, s1)" "valid s1" "flat_line (contents s) = (x, contents s1)" by blast
  show ?thesis
  proof (cases x)
    case None
    with x show ?thesis by (simp add: readString_def)
  next
    case (Some line)
    show ?thesis
    proof (cases "\<exists>len. 3 \<le> length line \<and> hd line = CHR ''$'' \<and> Atoi (payload line) = Some len \<and> 0 \<le> len \<and>
        make_ok (i64 (len + 2))")
      case False
      then show ?thesis using x Some
        by (auto simp: readString_def not_less split: option.split)
    next
      case True
      then obtain len where len: "3 \<le> length line" "hd line = CHR ''$''" "Atoi (payload line) = Some len"
        "0 \<le> len" "make_ok (i64 (len + 2))" by blast
      from read_full_flat [OF x(2), of "nat (len + 2)" "[]"] obtain r s2 where
        "read_full rd (nat (len + 2)) [] s1 = Some (r, s2)" "valid s2" "r \<noteq> Crash"
        "read_full flat_some (nat (len + 2)) [] (contents s1) = Some (r, contents s2)" by blast
      with x Some len show ?thesis
        by (cases r) (simp_all add: readString_def)
    qed
  qed
qed

lemma read_fields_flat:
  "valid s \<Longrightarrow> \<exists>r s'. read_fields rl rd n fs s = Some (r, s') \<and> valid s' \<and>
    read_fields flat_line flat_some n fs (contents s) = Some (r, contents s')"
proof (induction n arbitrary: fs s)
  case 0
  then show ?case by simp
next
  case (Suc n)
  from readString_flat [OF Suc.prems] obtain r s1 where
    r: "readString rl rd s = Some (r, s1)" "valid s1"
      "readString flat_line flat_some (contents s) = Some (r, contents s1)" by blast
  with Suc.IH [OF r(2)] show ?case by (cases r) simp_all
qed

lemma readArray_flat:
  assumes "valid s"
  shows "\<exists>r s'. readArray rl rd s = Some (r, s') \<and> valid s' \<and>
    readArray flat_line flat_some (contents s) = Some (r, contents s')"
proof -
  from line_flat [OF assms] obtain x s1
    where x: "rl s = (x, s1)" "valid s1" "flat_line (contents s) = (x, contents s1)" by blast
  show ?thesis
  proof (cases x)
    case None
    with x show ?thesis by (simp add: readArray_def)
  next
    case (Some line)
    with x read_fields_flat [OF x(2)] show ?thesis
      by (auto simp: readArray_def split: option.split)
  qed
qed

end

subsection \<open>Round trip\<close>

text \<open>A request as a client writes it: an array of bulk strings.\<close>

definition wire_array :: "string list \<Rightarrow> string" where
  "wire_array args = wire (TLen (int (length args))) @ concat (map (\<lambda>a. wire (TBulk a)) args)"

definition sendable :: "string list \<Rightarrow> bool" where
  "sendable args \<longleftrightarrow> in_int (int (length args)) \<and> (\<forall>a \<in> set args. int (length a) + 2 \<le> max_alloc)"

lemma header_line:
  "c \<noteq> nl \<Longrightarrow> flat_line (c # Itoa n @ crlf @ rest) = (Some (c # Itoa n @ crlf), rest)"
proof -
  assume "c \<noteq> nl"
  moreover have "nl \<notin> set (Itoa n)" using Itoa_no_newline by (simp add: nl_def)
  ultimately have "nl \<notin> set (c # Itoa n @ [CHR 0x0D])" by (auto simp: nl_def)
  from cut_line_eq [OF this, of rest] show ?thesis by (simp add: flat_line_def crlf_def nl_def)
qed

lemma payload_header [simp]: "payload (c # Itoa n @ crlf) = Itoa n"
  by (simp add: payload_def crlf_def)

lemma Itoa_ne [simp]: "Itoa n \<noteq> []"
  by (simp add: Itoa_def)

lemma header_length: "\<not> length (c # Itoa n @ crlf) < 3"
  by (cases "Itoa n") (simp_all add: crlf_def)

lemma readString_bulk:
  assumes "int (length x) + 2 \<le> max_alloc"
  shows "readString flat_line flat_some (wire (TBulk x) @ rest) = Some (Ok x, rest)"
proof -
  let ?n = "int (length x)"
  have "in_int (?n + 2)" "in_int ?n" using assms by (simp_all add: max_alloc_def int_bounds)
  then have n: "Atoi (Itoa ?n) = Some ?n" "make_ok (i64 (?n + 2))"
    using assms by (simp_all add: Atoi_Itoa make_ok_def)
  have eq: "wire (TBulk x) @ rest = CHR ''$'' # Itoa ?n @ crlf @ (x @ crlf @ rest)" by simp
  have "read_full flat_some (nat (?n + 2)) [] (x @ crlf @ rest) = Some (Ok (x @ crlf), rest)"
    using flat.read_full_eq [where s = "x @ crlf @ rest" and n = "nat (?n + 2)" and buf = "[]"]
    by (simp add: crlf_def nat_add_distrib)
  then show ?thesis
    unfolding eq readString_def header_line [of "CHR ''$''", unfolded nl_def, simplified]
    using n header_length [of "CHR ''$''" ?n] by simp
qed

lemma read_fields_bulks:
  "\<forall>a \<in> set args. int (length a) + 2 \<le> max_alloc \<Longrightarrow>
     read_fields flat_line flat_some (length args) fs (concat (map (\<lambda>a. wire (TBulk a)) args) @ rest) =
       Some (Ok (fs @ args), rest)"
  by (induction args arbitrary: fs) (simp_all add: readString_bulk del: wire.simps)

lemma readArray_wire:
  assumes "sendable args"
  shows "readArray flat_line flat_some (wire_array args @ rest) = Some (Ok args, rest)"
proof -
  let ?n = "int (length args)"
  let ?body = "concat (map (\<lambda>a. wire (TBulk a)) args)"
  have n: "Atoi (Itoa ?n) = Some ?n" using assms by (simp add: sendable_def Atoi_Itoa)
  have eq: "wire_array args @ rest = CHR ''*'' # Itoa ?n @ crlf @ (?body @ rest)"
    by (simp add: wire_array_def)
  show ?thesis
    unfolding eq readArray_def header_line [of "CHR ''*''", unfolded nl_def, simplified]
    using n header_length [of "CHR ''*''" ?n] read_fields_bulks [of args "[]" rest] assms
    by (simp add: sendable_def)
qed

subsection \<open>A connection\<close>

text \<open>
  The requests \<open>servePeer\<close> reads in its first \<open>n\<close> turns, until the reader or the protocol
  fails; \<open>None\<close> is a panic.
\<close>

fun read_requests :: "'s read_line \<Rightarrow> 's read_some \<Rightarrow> nat \<Rightarrow> 's \<Rightarrow> (string list list \<times> 's) option" where
  "read_requests rl rd 0 s = Some ([], s)"
| "read_requests rl rd (Suc n) s =
     (case readArray rl rd s of
        Some (Ok args, s) \<Rightarrow> map_option (\<lambda>(rs, s). (args # rs, s)) (read_requests rl rd n s)
      | Some (Fail e, s) \<Rightarrow> Some ([], s)
      | _ \<Rightarrow> None)"

context byte_source begin

lemma read_requests_wire:
  "valid s \<Longrightarrow> \<forall>args \<in> set reqs. sendable args \<Longrightarrow> contents s = concat (map wire_array reqs) @ rest \<Longrightarrow>
     \<exists>s'. read_requests rl rd (length reqs) s = Some (reqs, s') \<and> valid s' \<and> contents s' = rest"
proof (induction reqs arbitrary: s)
  case Nil
  then show ?case by simp
next
  case (Cons args reqs)
  from readArray_flat [OF Cons.prems(1)] obtain r s1 where
    r: "readArray rl rd s = Some (r, s1)" "valid s1"
      "readArray flat_line flat_some (contents s) = Some (r, contents s1)" by blast
  have "readArray flat_line flat_some (contents s) =
      Some (Ok args, concat (map wire_array reqs) @ rest)"
    using readArray_wire [of args "concat (map wire_array reqs) @ rest"] Cons.prems(2,3) by simp
  with r(3) have r': "r = Ok args" "contents s1 = concat (map wire_array reqs) @ rest" by simp_all
  from Cons.IH [OF r(2) _ r'(2)] Cons.prems(2) r(1) r'(1) show ?case by auto
qed

end

end
