(* ===== verification/Node.thy ===== *)
theory Node
  imports Direct
begin

text \<open>
  The life of the server in its process: \<open>Run\<close>, \<open>RunAddr\<close>, \<open>Start\<close>, \<open>StartAddr\<close>, \<open>Restart\<close>, \<open>Close\<close> of
  \<open>rediqueue.go\<close> as far as they concern the listener and its port, the accessors of its address, \<open>Load\<close> and
  \<open>Save\<close> with the file \<open>dump.rdb\<close>, and \<open>rediqueue/main.go\<close>.

  What the program takes from outside is a parameter: \<open>listen\<close> is \<open>net.Listen\<close> on TCP (\<open>None\<close> an error),
  \<open>encode\<close> the bytes a \<open>gob.Encoder\<close> writes for the databases, whether or not it then returns an error,
  \<open>decode\<close> what a \<open>gob.Decoder\<close> makes of its target; both errors are ignored by the source.
\<close>

subsection \<open>State\<close>

record TCPAddr =
  IP :: string
  tcp_port :: int

text \<open>A server that listens: the command server and the address its listener got.\<close>

record node =
  n_rq :: RediQueue
  n_srv :: "(Server \<times> TCPAddr) option"
  port :: int
  now :: "int option"

text \<open>
  The file the databases are kept in: not there, not to be opened for another reason, or its
  bytes.
\<close>

datatype dump = Missing | Refused | Bytes string

definition NewNode :: "rng \<Rightarrow> (string \<Rightarrow> (string \<Rightarrow> bool) option) \<Rightarrow> node" where
  "NewNode r re = \<lparr>n_rq = NewRediQueue r re, n_srv = None, port = 0, now = None\<rparr>"

subsection \<open>Listening\<close>

definition NewServer_at :: "(string \<Rightarrow> TCPAddr option) \<Rightarrow> string \<Rightarrow> (Server \<times> TCPAddr) option" where
  "NewServer_at listen addr = map_option (\<lambda>a. (NewServer, a)) (listen addr)"

definition start_on :: "Server \<times> TCPAddr \<Rightarrow> node \<Rightarrow> node" where
  "start_on s n = n\<lparr>n_srv := Some (start (fst s), snd s), port := tcp_port (snd s)\<rparr>"

text \<open>Whether it started, and the node; an error changes nothing.\<close>

definition StartAddr :: "(string \<Rightarrow> TCPAddr option) \<Rightarrow> string \<Rightarrow> node \<Rightarrow> bool \<times> node" where
  "StartAddr listen addr n =
     (case NewServer_at listen addr of None \<Rightarrow> (False, n) | Some s \<Rightarrow> (True, start_on s n))"

definition Start :: "(string \<Rightarrow> TCPAddr option) \<Rightarrow> node \<Rightarrow> bool \<times> node" where
  "Start listen n =
     (case NewServer_at listen (''127.0.0.1:'' @ Itoa (port n)) of
        None \<Rightarrow> (False, n)
      | Some s \<Rightarrow> (True, start_on s n))"

definition Restart_node :: "(string \<Rightarrow> TCPAddr option) \<Rightarrow> node \<Rightarrow> bool \<times> node" where
  "Restart_node listen n = Start listen n"

definition Run_node :: "(string \<Rightarrow> TCPAddr option) \<Rightarrow> rng \<Rightarrow> (string \<Rightarrow> (string \<Rightarrow> bool) option) \<Rightarrow> bool \<times> node" where
  "Run_node listen r re = Start listen (NewNode r re)"

text \<open>\<open>Close\<close> once all handlers are done (theory World has the waiting).\<close>

definition Close_node :: "node \<Rightarrow> node" where
  "Close_node n = (if n_srv n = None then n else n\<lparr>n_srv := None\<rparr>)"

text \<open>The address, its parts; \<open>None\<close> is the nil server of a closed node, whose method panics.\<close>

definition TCPAddr_String :: "TCPAddr \<Rightarrow> string" where
  "TCPAddr_String a =
     (if CHR 0x3A \<in> set (IP a) then ''['' @ IP a @ '']'' else IP a) @ '':'' @ Itoa (tcp_port a)"

definition server_Addr :: "node \<Rightarrow> TCPAddr option" where
  "server_Addr n = map_option snd (n_srv n)"

definition Addr :: "node \<Rightarrow> string option" where
  "Addr n = map_option TCPAddr_String (server_Addr n)"

definition Host :: "node \<Rightarrow> string option" where
  "Host n = map_option IP (server_Addr n)"

definition Port :: "node \<Rightarrow> string option" where
  "Port n = map_option (\<lambda>a. Itoa (tcp_port a)) (server_Addr n)"

definition SetTime :: "int \<Rightarrow> node \<Rightarrow> node" where
  "SetTime t n = n\<lparr>now := Some t\<rparr>"

subsection \<open>Persistence\<close>

definition Load :: "(string \<Rightarrow> (int, RedisDB) fmap \<Rightarrow> (int, RedisDB) fmap) \<Rightarrow> dump \<Rightarrow> node \<Rightarrow> node option" where
  "Load decode f n =
     (case f of
        Missing \<Rightarrow> Some n
      | Refused \<Rightarrow> None
      | Bytes bs \<Rightarrow> Some (n\<lparr>n_rq := (n_rq n)\<lparr>dbs := decode bs (dbs (n_rq n))\<rparr>\<rparr>))"

text \<open>The file is opened without truncation: a longer one keeps its tail.\<close>

definition Save :: "((int, RedisDB) fmap \<Rightarrow> string) \<Rightarrow> dump \<Rightarrow> node \<Rightarrow> dump option" where
  "Save encode f n =
     (let new = encode (dbs (n_rq n)) in
      case f of
        Missing \<Rightarrow> Some (Bytes new)
      | Refused \<Rightarrow> None
      | Bytes old \<Rightarrow> Some (Bytes (new @ drop (length new) old)))"

definition RunAddr :: "(string \<Rightarrow> TCPAddr option) \<Rightarrow> (string \<Rightarrow> (int, RedisDB) fmap \<Rightarrow> (int, RedisDB) fmap) \<Rightarrow>
    rng \<Rightarrow> (string \<Rightarrow> (string \<Rightarrow> bool) option) \<Rightarrow> string \<Rightarrow> dump \<Rightarrow> (bool \<times> node) option" where
  "RunAddr listen decode r re addr f = map_option (StartAddr listen addr) (Load decode f (NewNode r re))"

text \<open>
  The background loop of \<open>RunAddr\<close>: the node at each tick of its timer, which is set when the
  duration is positive; a panic of \<open>Save\<close> ends the process.
\<close>

fun save_loop :: "((int, RedisDB) fmap \<Rightarrow> string) \<Rightarrow> int \<Rightarrow> node list \<Rightarrow> dump \<Rightarrow> dump option" where
  "save_loop encode saveDuration [] f = Some f"
| "save_loop encode saveDuration (n # ticks) f =
     (if saveDuration > 0 then do { f \<leftarrow> Save encode f n; save_loop encode saveDuration ticks f }
      else Some f)"

text \<open>
  The program: its arguments, the session - what is saved while it runs, and the node when the
  signal arrives - and the file it leaves. \<open>None\<close> when it panics.
\<close>

definition main_addr :: "string list \<Rightarrow> string" where
  "main_addr args = (if length args > 1 then args ! 1 else '':6300'')"

definition main :: "(string \<Rightarrow> TCPAddr option) \<Rightarrow> ((int, RedisDB) fmap \<Rightarrow> string) \<Rightarrow>
    (string \<Rightarrow> (int, RedisDB) fmap \<Rightarrow> (int, RedisDB) fmap) \<Rightarrow> rng \<Rightarrow> (string \<Rightarrow> (string \<Rightarrow> bool) option) \<Rightarrow>
    string list \<Rightarrow> (node \<Rightarrow> node list \<times> node) \<Rightarrow> dump \<Rightarrow> dump option" where
  "main listen encode decode r re args session f = do {
     (ok, n) \<leftarrow> RunAddr listen decode r re (main_addr args) f;
     if \<not> ok then None
     else do {
       let (ticks, n) = session n;
       f \<leftarrow> save_loop encode 10 ticks f;
       Save encode f n
     }
   }"

lemmas node_defs = NewNode_def NewServer_at_def start_on_def StartAddr_def Start_def Restart_node_def
  Run_node_def Close_node_def server_Addr_def Addr_def Host_def Port_def SetTime_def

subsection \<open>The address\<close>

text \<open>A decimal number has no colon.\<close>

lemma Itoa_no_colon: "CHR 0x3A \<notin> set (Itoa i)"
proof -
  have "CHR 0x3A \<notin> set (nat_digits n)" for n
    using nat_digits_set [of n] by (auto simp: less_eq_char_def)
  then show ?thesis by (simp add: Itoa_def)
qed

text \<open>The documented behaviour of \<open>net.Listen\<close>: a port that is given is the port listened on.\<close>

definition binds :: "(string \<Rightarrow> TCPAddr option) \<Rightarrow> bool" where
  "binds listen \<longleftrightarrow>
     (\<forall>host p a. p \<noteq> 0 \<longrightarrow> listen (host @ '':'' @ Itoa p) = Some a \<longrightarrow> tcp_port a = p)"

text \<open>A node that listens remembers the port.\<close>

definition listens :: "node \<Rightarrow> bool" where
  "listens n \<longleftrightarrow> (\<exists>s a. n_srv n = Some (s, a) \<and> serving commandTable s \<and> port n = tcp_port a)"

lemma start_listens: "listens (start_on (NewServer, a) n)"
  by (simp add: listens_def start_on_def started)

lemma StartAddr_listens: "StartAddr listen addr n = (True, n') \<Longrightarrow> listens n' \<and> n_rq n' = n_rq n"
  by (auto simp: StartAddr_def NewServer_at_def start_listens split: option.splits) (simp add: start_on_def)

lemma Start_listens: "Start listen n = (True, n') \<Longrightarrow> listens n' \<and> n_rq n' = n_rq n"
  by (auto simp: Start_def NewServer_at_def start_listens split: option.splits) (simp add: start_on_def)

lemma restart_node:
  assumes "binds listen" "listens n" "port n \<noteq> 0" "Restart_node listen (Close_node n) = (ok, n')"
  shows "n_rq n' = n_rq n \<and>
    (if ok then listens n' \<and> Port n' = Port n \<and> listen (''127.0.0.1:'' @ Itoa (port n)) = map_option snd (n_srv n')
     else n' = Close_node n)"
proof -
  have sep: "''127.0.0.1:'' @ Itoa (port n) = ''127.0.0.1'' @ '':'' @ Itoa (port n)" by simp
  obtain s a where sa: "n_srv n = Some (s, a)" "port n = tcp_port a" using assms(2) by (auto simp: listens_def)
  show ?thesis
  proof (cases "listen (''127.0.0.1:'' @ Itoa (port n))")
    case None
    then show ?thesis using assms(4) sa by (auto simp: node_defs)
  next
    case (Some b)
    with assms(1,3) sep have "tcp_port b = port n" unfolding binds_def by metis
    with Some show ?thesis using assms(4) sa by (auto simp: node_defs listens_def started)
  qed
qed

subsection \<open>What survives a restart of the process\<close>

text \<open>
  The documented behaviour of \<open>gob\<close> on a type with fields none of which is exported, such as
  \<open>RedisDB\<close>: \<open>Encode\<close> fails before it writes a value, so what it wrote does not depend on it, and
  \<open>Decode\<close> finds no value there and leaves its target alone.
\<close>

definition no_exported_fields :: "((int, RedisDB) fmap \<Rightarrow> string) \<Rightarrow>
    (string \<Rightarrow> (int, RedisDB) fmap \<Rightarrow> (int, RedisDB) fmap) \<Rightarrow> bool" where
  "no_exported_fields encode decode \<longleftrightarrow>
     (\<exists>header. (\<forall>d. encode d = header) \<and> (\<forall>d. decode header d = d))"

text \<open>The files such an encoder leaves.\<close>

definition valueless :: "((int, RedisDB) fmap \<Rightarrow> string) \<Rightarrow> dump \<Rightarrow> bool" where
  "valueless encode f \<longleftrightarrow> f = Missing \<or> (\<exists>d. f = Bytes (encode d))"

lemma save_valueless:
  assumes "no_exported_fields encode decode" "valueless encode f"
  obtains d where "Save encode f n = Some (Bytes (encode d))"
proof -
  from assms obtain h where "\<forall>d. encode d = h" by (auto simp: no_exported_fields_def)
  with assms(2) have "Save encode f n = Some (Bytes (encode fmempty))"
    by (auto simp: valueless_def Save_def Let_def)
  then show thesis by (rule that)
qed

lemma save_loop_valueless:
  "no_exported_fields encode decode \<Longrightarrow> valueless encode f \<Longrightarrow>
     \<exists>f'. save_loop encode p ticks f = Some f' \<and> valueless encode f'"
proof (induction ticks arbitrary: f)
  case (Cons n ticks)
  obtain d where "Save encode f n = Some (Bytes (encode d))" using save_valueless [OF Cons.prems] .
  moreover have "valueless encode (Bytes (encode d))" by (auto simp: valueless_def)
  ultimately show ?case using Cons by auto
qed simp

lemma load_valueless:
  assumes "no_exported_fields encode decode" "valueless encode f"
  shows "Load decode f n = Some n"
  using assms by (auto simp: no_exported_fields_def valueless_def Load_def)

text \<open>A run of the program with a session leaves a file from which the next run loads nothing.\<close>

lemma main_forgets:
  assumes "no_exported_fields encode decode" "valueless encode f"
    and "main listen encode decode r re args session f = Some f'"
  shows "valueless encode f' \<and>
    RunAddr listen' decode r' re' addr f' = Some (StartAddr listen' addr (NewNode r' re'))"
proof -
  obtain n where n: "RunAddr listen decode r re (main_addr args) f = Some (True, n)"
    using assms(3) by (auto simp: main_def Let_def split: if_splits)
  obtain ticks n' where s: "session n = (ticks, n')" by force
  obtain f1 where f1: "save_loop encode 10 ticks f = Some f1" "valueless encode f1"
    using save_loop_valueless [OF assms(1,2)] by blast
  obtain d where "Save encode f1 n' = Some (Bytes (encode d))" using save_valueless [OF assms(1) f1(2)] .
  with assms(3) n s f1(1) have "f' = Bytes (encode d)" by (simp add: main_def)
  then have "valueless encode f'" by (auto simp: valueless_def)
  with load_valueless [OF assms(1) this] show ?thesis by (simp add: RunAddr_def)
qed

text \<open>
  With an encoding that can be read back the round trip would hold, the missing truncation
  notwithstanding.
\<close>

lemma save_load:
  assumes "\<And>d rest e. decode (encode d @ rest) e = d" "Save encode f n = Some f'"
  shows "\<exists>n'. Load decode f' m = Some n' \<and> dbs (n_rq n') = dbs (n_rq n)"
  using assms(1) [of _ "[]"] assms by (auto simp: Save_def Load_def Let_def split: dump.splits)

end
