(* ===== verification/Examples.thy ===== *)
theory Examples
  imports World Proto Node
begin

text \<open>
  Concrete states the properties are instantiated on: a database with two lists and three
  sets, a server with it, a connection, and short executions.
\<close>

definition exdb :: RedisDB where
  "exdb = \<lparr>db_id = 0,
     keys = fmap_of_list [(''l'', ''list''), (''m'', ''list''), (''s'', ''set''), (''t'', ''set''), (''e'', ''set'')],
     listKeys = fmap_of_list [(''l'', [''a'', ''b'', ''a'', ''c'']), (''m'', [''z''])],
     setKeys = fmap_of_list [(''s'', {|''x'', ''y''|}), (''t'', {|''y''|}), (''e'', {||})],
     keyVersion = fmempty\<rparr>"

definition exm :: RediQueue where
  "exm = \<lparr>password = [], dbs = fmap_of_list [(0, exdb)], m_selectedDB = 0, signal = 0,
     rand = (\<lambda>_. 0), re_compile = go_fragment\<rparr>"

definition expeer :: peer where
  "expeer = \<lparr>wbuf = [], closed = False, Ctx = Some new_connCtx\<rparr>"

definition extx :: "txCmd list \<Rightarrow> peer" where
  "extx cbs = \<lparr>wbuf = [], closed = False, Ctx = Some (new_connCtx\<lparr>transaction := Some cbs\<rparr>)\<rparr>"

lemma exdb_values [simp]:
  "value_of exdb ''l'' = Some (VList [''a'', ''b'', ''a'', ''c''])" "value_of exdb ''m'' = Some (VList [''z''])"
  "value_of exdb ''s'' = Some (VSet {|''x'', ''y''|})" "value_of exdb ''t'' = Some (VSet {|''y''|})"
  "value_of exdb ''e'' = Some (VSet {||})" "value_of exdb ''n'' = None"
  by (simp_all add: value_of_def exdb_def list_at_def set_at_def fmlookup_of_list)

lemma exdb_ats [simp]:
  "set_at ''s'' exdb = {|''x'', ''y''|}" "set_at ''t'' exdb = {|''y''|}" "set_at ''n'' exdb = {||}"
  "list_at ''l'' exdb = [''a'', ''b'', ''a'', ''c'']" "list_at ''n'' exdb = []"
  by (simp_all add: exdb_def list_at_def set_at_def fmlookup_of_list)

lemma exdb_wf [simp]: "wf_db exdb"
  by (auto simp: wf_db_def wf_entry_def exdb_def fmlookup_of_list)

lemma exdb_id [simp]: "db_id exdb = 0"
  by (simp add: exdb_def)

lemma exm_db [simp]: "the_db exm 0 = exdb" "i \<noteq> 0 \<Longrightarrow> the_db exm i = newRedisDB i"
  by (simp_all add: the_db_def exm_def fmlookup_of_list)

lemma exm_wf [simp]: "wf_m exm"
  unfolding wf_m_def
proof
  fix i
  show "wf_db (the_db exm i) \<and> db_id (the_db exm i) = i" by (cases "i = 0") simp_all
qed

lemma exm_simps [simp]: "password exm = []" "re_compile exm = go_fragment" "signal exm = 0"
  by (simp_all add: exm_def)

lemma expeer_simps [simp]:
  "ctx expeer = new_connCtx" "wbuf expeer = []" "selectedDB new_connCtx = 0" "transaction new_connCtx = None"
  "dirtyTransaction new_connCtx = False" "watching new_connCtx = None" "authenticated new_connCtx = False"
  "ctx (extx cbs) = new_connCtx\<lparr>transaction := Some cbs\<rparr>" "wbuf (extx cbs) = []"
  "ctx new_peer = new_connCtx" "wbuf new_peer = []"
  by (simp_all add: expeer_def extx_def ctx_def new_connCtx_def new_peer_def)

lemma expeer_ok [simp]: "peer_ok expeer" "peer_ok new_peer" "peer_ok (extx cbs) = list_all tx_ok cbs"
  by (simp_all add: peer_ok_def)

definition exworld :: world where
  "exworld = new_world (\<lambda>_. 0) go_fragment"

text \<open>A client blocked on a list, which the next client fills.\<close>

definition ex_block :: "event list" where
  "ex_block = [Connect 1, Request 1 [''blpop'', ''k'', ''0''], Park 1]"

definition ex_push :: "event list" where
  "ex_push = ex_block @ [Connect 2, Request 2 [''RPUSH'', ''k'', ''v'']]"

definition after :: "event list \<Rightarrow> world" where
  "after es = (case run_events es exworld of Some w \<Rightarrow> w | None \<Rightarrow> exworld)"

lemma exworld_reachable [simp]: "reachable ok exworld"
  unfolding exworld_def by (rule reachable.init)

lemma after_reachable:
  "list_all ok es \<Longrightarrow> run_events es exworld \<noteq> None \<Longrightarrow> reachable ok (after es)"
  by (auto simp: after_def intro: run_events_reachable [OF exworld_reachable])

lemma after_eval: "case run_events es exworld of None \<Rightarrow> False | Some w \<Rightarrow> P w \<Longrightarrow>
    run_events es exworld \<noteq> None \<and> P (after es)"
  by (auto simp: after_def split: option.splits)

definition blocked_on :: "string list \<Rightarrow> int \<Rightarrow> nat \<Rightarrow> conn option \<Rightarrow> bool" where
  "blocked_on ks t g k \<longleftrightarrow>
     (case k of None \<Rightarrow> False
      | Some k \<Rightarrow> phase k = Parked (BXpop ks Left) t g \<and> selectedDB (ctx (cl k)) = 0)"

lemma ex_block_events: "list_all orderly ex_block" "list_all event_ok ex_block" "list_all event_ok ex_push"
  by code_simp+

lemma ex_block_run:
  "run_events ex_block exworld \<noteq> None \<and>
   blocked_on [''k''] 0 0 (fmlookup (conns (after ex_block)) 1) \<and>
   signal (rq (after ex_block)) = 0 \<and> lock (after ex_block) = Free \<and> listening (after ex_block)"
  by (rule after_eval) code_simp

lemma ex_push_run:
  "run_events ex_push exworld \<noteq> None \<and>
   blocked_on [''k''] 0 0 (fmlookup (conns (after ex_push)) 1) \<and>
   signal (rq (after ex_push)) = 1 \<and> lock (after ex_push) = Free \<and>
   value_of (the_db (rq (after ex_push)) 0) ''k'' = Some (VList [''v''])"
  by (rule after_eval) code_simp

lemma ex_blocked:
  obtains k where "reachable orderly (after ex_block)" "fmlookup (conns (after ex_block)) 1 = Some k"
    "phase k = Parked (BXpop [''k''] Left) 0 0" "signal (rq (after ex_block)) = 0"
    "lock (after ex_block) = Free"
  using ex_block_run after_reachable [OF ex_block_events(1)]
  by (auto simp: blocked_on_def split: option.splits)

text \<open>A client that waits with a timeout, and one whose request has arrived and not been handled.\<close>

definition ex_timer :: "event list" where
  "ex_timer = [Connect 1, Request 1 [''BLPOP'', ''k'', ''1''], Park 1]"

definition ex_arrived :: "event list" where
  "ex_arrived = [Connect 1, Arrive 1 [''LLEN'', ''k'']]"

text \<open>A network on which two addresses can be listened on, and what a session of the program may leave.\<close>

definition ex_listen :: "string \<Rightarrow> TCPAddr option" where
  "ex_listen addr =
     (if addr = '':6300'' then Some \<lparr>IP = ''::'', tcp_port = 6300\<rparr>
      else if addr = ''127.0.0.1:6300'' then Some \<lparr>IP = ''127.0.0.1'', tcp_port = 6300\<rparr>
      else None)"

definition ex_session :: "node \<Rightarrow> node list \<times> node" where
  "ex_session n = ([], n\<lparr>n_rq := (n_rq n)\<lparr>dbs := fmap_of_list [(0, exdb)]\<rparr>\<rparr>)"

lemma last_part:
  "a @ x # u = b @ x # v \<Longrightarrow> x \<notin> set u \<Longrightarrow> x \<notin> set v \<Longrightarrow> u = v"
proof (induction a arbitrary: b)
  case Nil
  then show ?case by (cases b) auto
next
  case (Cons y a)
  then show ?case by (cases b) auto
qed

lemma Itoa_6300: "Itoa 6300 = ''6300''"
  by (simp add: Itoa_def nat_digits.simps digit_def char_of_def bit_0)

lemma ex_listen_cases:
  "ex_listen addr = Some a \<Longrightarrow> tcp_port a = 6300 \<and> (\<exists>host. addr = host @ CHR 0x3A # ''6300'')"
proof -
  assume l: "ex_listen addr = Some a"
  then have "addr = [] @ CHR 0x3A # ''6300'' \<or> addr = ''127.0.0.1'' @ CHR 0x3A # ''6300''"
    unfolding ex_listen_def by (cases "addr = '':6300''"; cases "addr = ''127.0.0.1:6300''") simp_all
  moreover have "tcp_port a = 6300"
    using l unfolding ex_listen_def by (cases "addr = '':6300''"; cases "addr = ''127.0.0.1:6300''") auto
  ultimately show ?thesis by blast
qed

lemma ex_binds: "binds ex_listen"
  unfolding binds_def
proof (intro allI impI)
  fix host p a
  assume "p \<noteq> 0" and l: "ex_listen (host @ '':'' @ Itoa p) = Some a"
  from ex_listen_cases [OF l] obtain h where
    t: "tcp_port a = 6300" and h: "host @ CHR 0x3A # Itoa p = h @ CHR 0x3A # ''6300''" by auto
  have "Itoa p = ''6300''"
    by (rule last_part [OF h Itoa_no_colon]) simp
  then have "Itoa p = Itoa 6300" by (simp only: Itoa_6300)
  then have "p = 6300" by (rule Itoa_inj)
  with t show "tcp_port a = p" by simp
qed

lemma ex_started:
  obtains n where "StartAddr ex_listen '':6300'' (NewNode (\<lambda>_. 0) go_fragment) = (True, n)"
    "Addr n = Some ''[::]:6300''" "port n = 6300" "Port n = Some ''6300''"
proof
  let ?a = "\<lparr>IP = ''::'', tcp_port = 6300\<rparr>"
  let ?n = "start_on (NewServer, ?a) (NewNode (\<lambda>_. 0) go_fragment)"
  have l: "ex_listen '':6300'' = Some ?a" by (simp add: ex_listen_def)
  show "StartAddr ex_listen '':6300'' (NewNode (\<lambda>_. 0) go_fragment) = (True, ?n)"
    by (simp only: StartAddr_def NewServer_at_def l option.map option.case)
  show "Addr ?n = Some ''[::]:6300''"
    by (simp add: Addr_def server_Addr_def start_on_def TCPAddr_String_def Itoa_6300)
  show "port ?n = 6300" by (simp add: start_on_def)
  show "Port ?n = Some ''6300''" by (simp add: Port_def server_Addr_def start_on_def Itoa_6300)
qed

end
