(* ===== verification/Effects.thy ===== *)
theory Effects
  imports Examples
begin

text \<open>
  What single commands do to the lists, sets and keys, spelt out on the concrete database, with an
  example each. The abstract machine of theory Semantics covers them all at once.
\<close>

text \<open>LREM removes the first count, the last count or all elements equal to the value, keeps the others in
  order, and answers how many it removed; it deletes the key when none is left.\<close>
lemma lrem_removes:
  assumes "wf_db db" "in_int cnt" "cnt \<noteq> min_int" "value_of db key = Some (VList l)"
  shows "\<exists>db' n. lrem_body key cnt value db =
      Some (db', [TInt (int (length l) - int (length (lrem_ref cnt value l)))]) \<and> 0 < n \<and>
      changed key (list_val (lrem_ref cnt value l)) n db db'"
  using assms by (rule lrem_spec)

lemma lrem_removes_example:
  "\<exists>db'. lrem_body ''l'' (-1) ''a'' exdb = Some (db', [TInt 1]) \<and>
     value_of db' ''l'' = Some (VList [''a'', ''b'', ''c''])"
  using lrem_removes [OF exdb_wf _ _ exdb_values(1), of "-1" "''a''"]
  by (auto simp: lrem_ref_def list_val_def int_bounds changed_value numeral_eq_Suc)

text \<open>LSET replaces one element, counted from either end, exactly when the index is in range; LINDEX reads the
  same element.\<close>
lemma lset_lindex:
  assumes "wf_db db" "value_of db key = Some (VList l)" "j = norm_index (length l) i"
  shows "if 0 \<le> j \<and> j < int (length l)
    then lindex_body key i db = Some (db, [TBulk (l ! nat j)]) \<and>
      (\<exists>db'. lset_body key i v db = Some (db', [TInline ''OK'']) \<and> changed key (Some (VList (l[nat j := v]))) 1 db db')
    else lindex_body key i db = Some (db, [TNull]) \<and> lset_body key i v db = Some (db, [TError msgOutOfRange])"
  using lset_spec [OF assms(1,2), of i v] lindex_spec [OF assms(1), of key i] assms(2,3)
  by (auto simp: Let_def split: if_splits)

lemma lset_lindex_example:
  "lindex_body ''l'' (-1) exdb = Some (exdb, [TBulk ''c'']) \<and>
   lset_body ''l'' 4 ''v'' exdb = Some (exdb, [TError msgOutOfRange])"
  using lset_lindex [OF exdb_wf exdb_values(1) refl, of "-1"] lset_lindex [OF exdb_wf exdb_values(1) refl, of 4 "''v''"]
  by (simp add: norm_index_def)

text \<open>RPOPLPUSH takes the last element of the source, answers it and puts it in front of the destination; with
  one key for both it rotates the list.\<close>
lemma rpoplpush_transfers:
  assumes "wf_db db" "value_of db src = Some (VList l)" "list_or_absent db dst"
  shows "\<exists>db' g. rpoplpush_body src dst db = Some (db', [TBulk (last l)]) \<and> wf_db db' \<and> evolves g db db' \<and>
    value_of db' =
      (if src = dst then (value_of db)(src := Some (VList (last l # butlast l)))
       else (value_of db)(src := (if butlast l = [] then None else Some (VList (butlast l))),
                          dst := Some (VList (last l # list_at dst db))))"
  using rpoplpush_body_spec(4) [OF assms(1-3)] unfolding rotated_def list_val_def .

lemma rpoplpush_transfers_example:
  "\<exists>db'. rpoplpush_body ''m'' ''n'' exdb = Some (db', [TBulk ''z'']) \<and> value_of db' ''m'' = None \<and>
     value_of db' ''n'' = Some (VList [''z''])"
  using rpoplpush_transfers [OF exdb_wf exdb_values(2), of "''n''"] by (auto simp: list_or_absent_def)

text \<open>RENAME moves the value to the new name, over whatever was there, and changes no third key; RENAMENX does
  so only when the new name is free.\<close>
lemma rename_moves:
  assumes "wf_db db" "value_of db src = Some v" "src \<noteq> dst"
  shows "\<exists>db'. rename_body src dst db = Some (db', [TInline ''OK'']) \<and> wf_db db' \<and>
    value_of db' = (value_of db)(dst := Some v, src := None) \<and>
    renamenx_body src dst db = (if value_of db dst = None then Some (db', [TInt 1]) else Some (db, [TInt 0]))"
proof -
  obtain db' where r: "rename_body src dst db = Some (db', [TInline ''OK''])" "wf_db db'"
    "value_of db' = (value_of db)(dst := Some v, src := None)"
    using rename_spec(1) [OF assms(1,2,3)] by auto
  with renamenx_eq [OF assms(1), of src dst] assms(2) show ?thesis by auto
qed

lemma rename_moves_example:
  "\<exists>db'. rename_body ''l'' ''m'' exdb = Some (db', [TInline ''OK'']) \<and> value_of db' ''l'' = None \<and>
     value_of db' ''m'' = Some (VList [''a'', ''b'', ''a'', ''c'']) \<and>
     renamenx_body ''l'' ''m'' exdb = Some (exdb, [TInt 0])"
  using rename_moves [OF exdb_wf exdb_values(1), of "''m''"] by auto

text \<open>MOVE to another database takes the key there exactly when it exists here and not there, answers which
  of the two happened, and leaves all other databases and keys alone.\<close>
lemma move_between_databases:
  assumes "wf_m m" "selectedDB (ctx c) = i" "i \<noteq> j"
    and "b \<longleftrightarrow> value_of (the_db m i) key \<noteq> None \<and> value_of (the_db m j) key = None"
  shows "\<exists>m'. move_cb key j m c = Some (m', WriteInt (if b then 1 else 0) c) \<and>
    (if b then changed key None 1 (the_db m i) (the_db m' i) \<and>
       changed key (value_of (the_db m i) key) 1 (the_db m j) (the_db m' j) \<and>
       (\<forall>d. d \<noteq> i \<longrightarrow> d \<noteq> j \<longrightarrow> the_db m' d = the_db m d)
     else \<forall>d. the_db m' d = the_db m d)"
  using move_cb_spec [OF assms(1), of c j key] assms(2-4) by auto

lemma move_between_databases_example:
  "\<exists>m'. move_cb ''l'' 3 exm expeer = Some (m', WriteInt 1 expeer) \<and>
     value_of (the_db m' 3) ''l'' = Some (VList [''a'', ''b'', ''a'', ''c'']) \<and> value_of (the_db m' 0) ''l'' = None"
  using move_between_databases [OF exm_wf, of expeer 0 3 True "''l''"] by (auto simp: changed_value)

text \<open>SADD and SREM answer how many members were new or were there, and change the set by exactly these; SREM
  deletes the key with its last member.\<close>
lemma sadd_srem:
  assumes "wf_db db"
  shows "if holds_list db key
    then sadd_body key es db = Some (db, [TError msgWrongType]) \<and> srem_body key es db = Some (db, [TError msgWrongType])
    else (\<exists>db'. sadd_body key es db = Some (db', [TInt (int (fcard (fset_of_list es |-| set_at key db)))]) \<and>
          changed key (Some (VSet (set_at key db |\<union>| fset_of_list es))) 1 db db') \<and>
      (\<exists>db'. srem_body key es db = Some (db', [TInt (int (fcard (set_at key db |\<inter>| fset_of_list es)))]) \<and>
          wf_db db' \<and> (value_of db key \<noteq> None \<longrightarrow> value_of db' = (value_of db)(key := set_val (set_at key db |-| fset_of_list es))) \<and>
          (value_of db key = None \<longrightarrow> db' = db))"
proof (cases "value_of db key" rule: option.exhaust)
  case None
  then show ?thesis using sadd_spec(2) [OF assms, of key es] assms
    by (auto simp: holds_list_def set_or_absent_def srem_body_def lookup_simps)
next
  case (Some v)
  show ?thesis
  proof (cases v)
    case (VList l)
    then show ?thesis using Some sadd_spec(1) [OF assms, of key es] key_facts(2) [OF assms, of key l]
      by (auto simp: holds_list_def srem_body_def)
  next
    case (VSet s)
    have "set_at key db = s" using key_facts(3) [OF assms] Some VSet by auto
    then show ?thesis
      using Some VSet sadd_spec(2) [OF assms, of key es] srem_spec [OF assms, of key s es]
      by (auto simp: holds_list_def set_or_absent_def changed_def)
  qed
qed

lemma sadd_srem_example:
  "\<exists>db'. srem_body ''t'' [''y'', ''q''] exdb = Some (db', [TInt 1]) \<and> value_of db' ''t'' = None"
proof -
  have e: "{|''y''|} |\<inter>| fset_of_list [''y'', ''q''] = {|''y''|}" "{|''y''|} |-| fset_of_list [''y'', ''q''] = {||}"
    "fcard {|''y''|} = 1"
    by code_simp+
  from sadd_srem [OF exdb_wf, of "''t''" "[''y'', ''q'']"] show ?thesis
    by (simp only: exdb_ats e) (auto simp: holds_list_def set_val_def)
qed

text \<open>SMOVE takes the member out of the source, deleting it with its last member, and into the destination; no
  other key changes, and moving within one set leaves it as it is.\<close>
lemma smove_transfers:
  assumes "wf_db db" "value_of db src = Some (VSet s)" "member |\<in>| s" "\<not> holds_list db dst"
  shows "\<exists>db' g. smove_body src dst member db = Some (db', [TInt 1]) \<and> wf_db db' \<and> evolves g db db' \<and>
    value_of db' =
      (if src = dst then value_of db
       else (value_of db)(src := set_val (s |-| {|member|}), dst := Some (VSet (finsert member (set_at dst db)))))"
  using smove_spec [OF assms(1-3), of dst] assms(4) by (simp add: moved_def set_or_absent_iff)

lemma smove_transfers_example:
  "\<exists>db'. smove_body ''t'' ''e'' ''y'' exdb = Some (db', [TInt 1]) \<and> value_of db' ''t'' = None \<and>
     value_of db' ''e'' = Some (VSet {|''y''|})"
proof -
  have e: "set_at ''e'' exdb = {||}" "{|''y''|} |-| {|''y''|} = ({||} :: setKey)"
    using key_facts(3) [OF exdb_wf exdb_values(5)] by auto
  from smove_transfers [OF exdb_wf exdb_values(4), of "''y''" "''e''"] e show ?thesis
    by (auto simp: holds_list_def set_val_def)
qed

text \<open>SRANDMEMBER on a non-empty set changes nothing and answers members only: one, up to count distinct ones, or
  for a negative count that many with repetitions.\<close>
lemma srandmember_picks:
  assumes "wf_db db" "value_of db key = Some (VSet s)" "s \<noteq> {||}" "in_int cnt" "cnt \<noteq> min_int"
    and "withCount \<or> 0 \<le> cnt"
  shows "\<exists>r' xs. srandmember_body key cnt withCount r db =
      Some (db, r', if withCount then TLen (int (length xs)) # map TBulk xs else [TBulk (hd xs)]) \<and>
    set xs \<subseteq> fset s \<and> (\<not> withCount \<longrightarrow> xs \<noteq> []) \<and>
    (withCount \<and> cnt < 0 \<longrightarrow> length xs = nat (- cnt)) \<and>
    (withCount \<and> 0 \<le> cnt \<longrightarrow> distinct xs \<and> length xs = min (nat cnt) (fcard s))"
  using srandmember_spec [OF assms(1-5), of withCount r] assms(6) by blast

lemma srandmember_picks_example:
  "\<exists>r' xs. srandmember_body ''s'' (-3) True (\<lambda>_. 0) exdb = Some (exdb, r', TLen 3 # map TBulk xs)"
  using srandmember_picks [OF exdb_wf exdb_values(3), of "-3" True "\<lambda>_. 0"] by (fastforce simp: int_bounds)

end
