(* ===== verification/Queues.thy ===== *)
theory Queues
  imports Direct
begin

text \<open>
  A list key as a queue and as a stack: pushes at one end and pops at the other (or the same) end
  of a key refine the operations on an abstract list. The interface is a locale; it is
  interpreted on the bodies of the push and pop commands and on the direct methods.
\<close>

datatype qop = Enq "string list" | Deq

fun other_end :: "leftright \<Rightarrow> leftright" where
  "other_end Left = Right"
| "other_end Right = Left"

text \<open>The abstract machine: a list from whose head elements are taken.\<close>

fun queue_ops :: "(string list \<Rightarrow> string list \<Rightarrow> string list) \<Rightarrow> qop list \<Rightarrow> string list \<Rightarrow>
    string list \<times> token list list" where
  "queue_ops join [] q = (q, [])"
| "queue_ops join (Enq vs # ops) q =
     (let q = join vs q; (q', rs) = queue_ops join ops q in (q', [TInt (int (length q))] # rs))"
| "queue_ops join (Deq # ops) [] = (let (q', rs) = queue_ops join ops [] in (q', [TNull] # rs))"
| "queue_ops join (Deq # ops) (x # q) = (let (q', rs) = queue_ops join ops q in (q', [TBulk x] # rs))"

definition at_back :: "string list \<Rightarrow> string list \<Rightarrow> string list" where
  "at_back vs q = q @ vs"

definition at_front :: "string list \<Rightarrow> string list \<Rightarrow> string list" where
  "at_front vs q = rev vs @ q"

text \<open>The requests of one key in a row.\<close>

fun run_ops :: "(string list \<Rightarrow> RedisDB \<Rightarrow> (RedisDB \<times> token list) option) \<Rightarrow>
    (RedisDB \<Rightarrow> (RedisDB \<times> token list) option) \<Rightarrow> qop list \<Rightarrow> RedisDB \<Rightarrow> (RedisDB \<times> token list list) option" where
  "run_ops enq deq [] db = Some (db, [])"
| "run_ops enq deq (Enq vs # ops) db =
     do { (db, r) \<leftarrow> enq vs db; (db, rs) \<leftarrow> run_ops enq deq ops db; Some (db, r # rs) }"
| "run_ops enq deq (Deq # ops) db =
     do { (db, r) \<leftarrow> deq db; (db, rs) \<leftarrow> run_ops enq deq ops db; Some (db, r # rs) }"

fun qop_ok :: "qop \<Rightarrow> bool" where
  "qop_ok (Enq vs) = (vs \<noteq> [])"
| "qop_ok Deq = True"

definition others_kept :: "string \<Rightarrow> RedisDB \<Rightarrow> RedisDB \<Rightarrow> bool" where
  "others_kept key db db' \<longleftrightarrow> (\<forall>k. k \<noteq> key \<longrightarrow> value_of db' k = value_of db k)"

lemma others_kept_refl [simp]: "others_kept key db db"
  by (simp add: others_kept_def)

lemma others_kept_trans: "others_kept key a b \<Longrightarrow> others_kept key b c \<Longrightarrow> others_kept key a c"
  by (simp add: others_kept_def)

lemma changed_others: "changed key v n db db' \<Longrightarrow> others_kept key db db'"
  by (simp add: others_kept_def changed_value)

subsection \<open>The interface\<close>

locale list_queue =
  fixes enq :: "string list \<Rightarrow> RedisDB \<Rightarrow> (RedisDB \<times> token list) option"
    and deq :: "RedisDB \<Rightarrow> (RedisDB \<times> token list) option"
    and join :: "string list \<Rightarrow> string list \<Rightarrow> string list"
    and content :: "RedisDB \<Rightarrow> string list"
    and inv :: "RedisDB \<Rightarrow> bool"
    and key :: string
  assumes enq_law: "inv db \<Longrightarrow> vs \<noteq> [] \<Longrightarrow>
      \<exists>db'. enq vs db = Some (db', [TInt (int (length (join vs (content db))))]) \<and> inv db' \<and>
        content db' = join vs (content db) \<and> others_kept key db db'"
    and deq_law: "inv db \<Longrightarrow> content db = x # q \<Longrightarrow>
      \<exists>db'. deq db = Some (db', [TBulk x]) \<and> inv db' \<and> content db' = q \<and> others_kept key db db'"
    and deq_empty: "inv db \<Longrightarrow> content db = [] \<Longrightarrow> deq db = Some (db, [TNull])"
begin

lemma simulates:
  assumes "inv db" "list_all qop_ok ops" "queue_ops join ops (content db) = (q, rs)"
  shows "\<exists>db'. run_ops enq deq ops db = Some (db', rs) \<and> inv db' \<and> content db' = q \<and> others_kept key db db'"
  using assms
proof (induction ops arbitrary: db q rs)
  case Nil
  then show ?case by simp
next
  case (Cons op ops)
  show ?case
  proof (cases op)
    case (Enq vs)
    obtain db1 where 1: "enq vs db = Some (db1, [TInt (int (length (join vs (content db))))])" "inv db1"
      "content db1 = join vs (content db)" "others_kept key db db1"
      using enq_law [OF Cons.prems(1), of vs] Cons.prems(2) Enq by auto
    obtain rs1 where rs1: "queue_ops join ops (content db1) = (q, rs1)"
      "rs = [TInt (int (length (join vs (content db))))] # rs1"
      using Cons.prems(3) Enq 1(3) by (auto simp: Let_def split: prod.splits)
    from Cons.IH [OF 1(2) _ rs1(1)] Cons.prems(2) 1 rs1(2) Enq show ?thesis
      by (auto intro: others_kept_trans)
  next
    case Deq
    show ?thesis
    proof (cases "content db")
      case Nil
      obtain rs1 where rs1: "queue_ops join ops (content db) = (q, rs1)" "rs = [TNull] # rs1"
        using Cons.prems(3) Deq Nil by (auto split: prod.splits)
      from Cons.IH [OF Cons.prems(1) _ rs1(1)] deq_empty [OF Cons.prems(1) Nil] Cons.prems(2) rs1(2) Deq
      show ?thesis by auto
    next
      case (Cons x p)
      obtain db1 where 1: "deq db = Some (db1, [TBulk x])" "inv db1" "content db1 = p" "others_kept key db db1"
        using deq_law [OF Cons.prems(1) Cons] by auto
      obtain rs1 where rs1: "queue_ops join ops (content db1) = (q, rs1)" "rs = [TBulk x] # rs1"
        using Cons.prems(3) Deq Cons 1(3) by (auto split: prod.splits)
      from Cons.IH [OF 1(2) _ rs1(1)] Cons.prems(2) 1 rs1(2) Deq show ?thesis
        by (auto intro: others_kept_trans)
    qed
  qed
qed

end

subsection \<open>The commands of a key\<close>

definition view :: "leftright \<Rightarrow> string \<Rightarrow> RedisDB \<Rightarrow> string list" where
  "view lr key db = (case lr of Left \<Rightarrow> list_at key db | Right \<Rightarrow> rev (list_at key db))"

definition list_key_ok :: "string \<Rightarrow> RedisDB \<Rightarrow> bool" where
  "list_key_ok key db \<longleftrightarrow> wf_db db \<and> list_or_absent db key"

lemma list_val_at:
  assumes "changed key (list_val l) n db db'"
  shows "list_at key db' = l" "list_key_ok key db'"
proof -
  have w: "wf_db db'" and v: "value_of db' key = list_val l"
    using assms changed_wf changed_value by auto
  then show "list_at key db' = l" by (cases "l = []") (simp_all add: list_val_def list_at_simps)
  show "list_key_ok key db'" using w v by (auto simp: list_key_ok_def list_or_absent_def list_val_def)
qed

lemma list_val_ne: "l \<noteq> [] \<Longrightarrow> list_val l = Some (VList l)"
  by (simp add: list_val_def)

lemma list_key_cases:
  assumes "list_key_ok key db"
  shows "list_at key db = [] \<Longrightarrow> value_of db key = None"
    and "list_at key db \<noteq> [] \<Longrightarrow> value_of db key = Some (VList (list_at key db))"
  using assms value_of_VList [of db key]
  by (auto simp: list_key_ok_def list_or_absent_def list_at_simps)

lemma xpush_view:
  assumes "list_key_ok key db" "vs \<noteq> []"
  shows "\<exists>db'. xpush_body key vs lr db = Some (db', [TInt (int (length vs + length (list_at key db)))]) \<and>
    list_key_ok key db' \<and> list_at key db' = pushed lr vs (list_at key db) \<and> others_kept key db db'"
proof -
  have "wf_db db" "list_or_absent db key" using assms(1) by (simp_all add: list_key_ok_def)
  from xpush_spec(2) [OF this(1) assms(2) this(2), of lr] obtain db' where
    r: "xpush_body key vs lr db = Some (db', [TInt (int (length vs + length (list_at key db)))])"
    and c: "changed key (list_val (pushed lr vs (list_at key db))) (length vs) db db'"
    using assms(2) by (auto simp: list_val_ne)
  show ?thesis using r list_val_at [OF c] changed_others [OF c] by auto
qed

lemma xpop_view:
  assumes "list_key_ok key db" "list_at key db \<noteq> []"
  shows "\<exists>db'. xpop_body key lr db = Some (db', [TBulk (fst (popped lr (list_at key db)))]) \<and>
    list_key_ok key db' \<and> list_at key db' = snd (popped lr (list_at key db)) \<and> others_kept key db db'"
proof -
  have "wf_db db" using assms(1) by (simp add: list_key_ok_def)
  from xpop_spec(3) [OF this list_key_cases(2) [OF assms], of lr] obtain db' n where
    r: "xpop_body key lr db = Some (db', [TBulk (fst (popped lr (list_at key db)))])"
    and c: "changed key (list_val (snd (popped lr (list_at key db)))) n db db'" by auto
  show ?thesis using r list_val_at [OF c] changed_others [OF c] by auto
qed

lemma xpop_view_empty:
  assumes "list_key_ok key db" "view end key db = []"
  shows "xpop_body key lr db = Some (db, [TNull])"
  using assms list_key_cases(1) [OF assms(1)]
  by (auto simp: view_def list_key_ok_def xpop_spec(1) split: leftright.splits)

lemma view_popped:
  assumes "view lr key db = x # q"
  shows "list_at key db \<noteq> []" "fst (popped lr (list_at key db)) = x"
    "view lr key db' = q \<longleftrightarrow> list_at key db' = snd (popped lr (list_at key db))"
proof -
  show "list_at key db \<noteq> []" "fst (popped lr (list_at key db)) = x"
    using assms by (cases lr, auto simp: view_def popped_def rev_eq_Cons_iff)+
  show "view lr key db' = q \<longleftrightarrow> list_at key db' = snd (popped lr (list_at key db))"
    using assms by (cases lr) (auto simp: view_def popped_def rev_eq_Cons_iff)
qed

interpretation fifo: list_queue "\<lambda>vs. xpush_body key vs lr" "xpop_body key (other_end lr)" at_back
    "view (other_end lr) key" "list_key_ok key" key for key lr
proof unfold_locales
  fix db :: RedisDB and vs :: "string list"
  assume "list_key_ok key db" "vs \<noteq> []"
  from xpush_view [OF this, of lr]
  show "\<exists>db'. xpush_body key vs lr db =
      Some (db', [TInt (int (length (at_back vs (view (other_end lr) key db))))]) \<and> list_key_ok key db' \<and>
      view (other_end lr) key db' = at_back vs (view (other_end lr) key db) \<and> others_kept key db db'"
    by (cases lr) (auto simp: at_back_def view_def pushed_def add.commute)
next
  fix db x q
  assume ok: "list_key_ok key db" and v: "view (other_end lr) key db = x # q"
  from xpop_view [OF ok view_popped(1) [OF v], of "other_end lr"] view_popped(2,3) [OF v]
  show "\<exists>db'. xpop_body key (other_end lr) db = Some (db', [TBulk x]) \<and> list_key_ok key db' \<and>
      view (other_end lr) key db' = q \<and> others_kept key db db'" by auto
next
  fix db
  assume "list_key_ok key db" "view (other_end lr) key db = []"
  then show "xpop_body key (other_end lr) db = Some (db, [TNull])" by (rule xpop_view_empty)
qed

interpretation lifo: list_queue "\<lambda>vs. xpush_body key vs lr" "xpop_body key lr" at_front
    "view lr key" "list_key_ok key" key for key lr
proof unfold_locales
  fix db :: RedisDB and vs :: "string list"
  assume "list_key_ok key db" "vs \<noteq> []"
  from xpush_view [OF this, of lr]
  show "\<exists>db'. xpush_body key vs lr db = Some (db', [TInt (int (length (at_front vs (view lr key db))))]) \<and>
      list_key_ok key db' \<and> view lr key db' = at_front vs (view lr key db) \<and> others_kept key db db'"
    by (cases lr) (auto simp: at_front_def view_def pushed_def)
next
  fix db x q
  assume ok: "list_key_ok key db" and v: "view lr key db = x # q"
  from xpop_view [OF ok view_popped(1) [OF v], of lr] view_popped(2,3) [OF v]
  show "\<exists>db'. xpop_body key lr db = Some (db', [TBulk x]) \<and> list_key_ok key db' \<and>
      view lr key db' = q \<and> others_kept key db db'" by auto
next
  fix db
  assume "list_key_ok key db" "view lr key db = []"
  then show "xpop_body key lr db = Some (db, [TNull])" by (rule xpop_view_empty)
qed

text \<open>When the last element is popped the key is gone.\<close>

lemma view_Nil:
  assumes "list_key_ok key db"
  shows "view lr key db = [] \<longleftrightarrow> value_of db key = None"
proof -
  have "view lr key db = [] \<longleftrightarrow> list_at key db = []"
    by (cases lr) (simp_all add: view_def)
  also have "\<dots> \<longleftrightarrow> value_of db key = None"
    using list_key_cases [OF assms] by fastforce
  finally show ?thesis .
qed

end
