(* ===== verification/Wire.thy ===== *)
theory Wire
  imports Server
begin

text \<open>
  The bytes of the replies, as a client sees them. As long as no error or status line contains a
  carriage return, the items of the output stream can be told apart, and so can the replies; the
  error for an unknown command is the place where a client decides what the line contains.
\<close>

fun line_safe :: "token \<Rightarrow> bool" where
  "line_safe (TError e) = (CHR 0x0D \<notin> set e)"
| "line_safe (TInline s) = (CHR 0x0D \<notin> set s)"
| "line_safe _ = True"

lemma cut_line:
  assumes "CHR 0x0D \<notin> set s" "CHR 0x0D \<notin> set t" "s @ crlf @ x = t @ crlf @ y"
  shows "s = t \<and> x = y"
  using assms
proof (induction s arbitrary: t)
  case Nil
  then show ?case by (cases t) (auto simp: crlf_def)
next
  case (Cons a s)
  then show ?case by (cases t) (auto simp: crlf_def)
qed

lemma nat_digits_no_cr [simp]: "CHR 0x0D \<notin> set (nat_digits n)"
proof -
  have "CHR 0x0D \<notin> {c. CHR ''0'' \<le> c \<and> c \<le> CHR ''9''}" by (simp add: less_eq_char_def)
  then show ?thesis using nat_digits_set [of n] by blast
qed

lemma Itoa_no_cr [simp]: "CHR 0x0D \<notin> set (Itoa i)"
  by (simp add: Itoa_def)

lemma Itoa_length: "Itoa (int n) \<noteq> ''-1''"
  by (simp add: Itoa_def)

text \<open>The first line of an item, and what follows it.\<close>

fun first_line :: "token \<Rightarrow> string" where
  "first_line (TError e) = ''-'' @ e"
| "first_line (TInline s) = ''+'' @ s"
| "first_line (TBulk s) = ''$'' @ Itoa (int (length s))"
| "first_line TNull = ''$-1''"
| "first_line (TLen n) = ''*'' @ Itoa n"
| "first_line (TInt i) = '':'' @ Itoa i"

fun more :: "token \<Rightarrow> string" where
  "more (TBulk s) = s @ crlf"
| "more _ = []"

lemma wire_lines: "wire t = first_line t @ crlf @ more t"
  by (cases t) simp_all

lemma first_line_no_cr: "line_safe t \<Longrightarrow> CHR 0x0D \<notin> set (first_line t)"
  by (cases t) simp_all

lemma first_line_cases:
  assumes "first_line t = first_line u"
  shows "t = u \<or> (\<exists>a b. t = TBulk a \<and> u = TBulk b \<and> length a = length b)"
  using assms Itoa_length Itoa_length [symmetric] by (cases t; cases u) (auto dest: Itoa_inj)

lemma wire_cut:
  assumes "line_safe t" "line_safe u" "wire t @ x = wire u @ y"
  shows "t = u \<and> x = y"
proof -
  have "first_line t @ crlf @ (more t @ x) = first_line u @ crlf @ (more u @ y)"
    using assms(3) by (simp add: wire_lines)
  from cut_line [OF _ _ this] have l: "first_line t = first_line u" and m: "more t @ x = more u @ y"
    using first_line_no_cr assms(1,2) by auto
  from first_line_cases [OF l] m show ?thesis by (auto simp: crlf_def)
qed

lemma wire_all_cut:
  assumes "list_all line_safe a" "list_all line_safe b" "wire_all a @ x = wire_all b @ y"
  shows "\<exists>c. a = b @ c \<or> b = a @ c"
  using assms
proof (induction a arbitrary: b)
  case Nil
  then show ?case by auto
next
  case (Cons t a)
  show ?case
  proof (cases b)
    case (Cons u b')
    have "wire t @ (wire_all a @ x) = wire u @ (wire_all b' @ y)"
      using Cons.prems(3) Cons by (simp add: wire_all_def)
    from wire_cut [OF _ _ this] Cons.prems(1,2) Cons
    have tu: "t = u" and rest: "wire_all a @ x = wire_all b' @ y" by auto
    from Cons.IH [OF _ _ rest] Cons.prems(1,2) Cons tu show ?thesis by auto
  qed simp
qed

lemma replies_cut:
  assumes "reply a" "reply b" "list_all line_safe a" "list_all line_safe b" "wire_all a @ x = wire_all b @ y"
  shows "a = b \<and> x = y"
proof -
  from wire_all_cut [OF assms(3-5)] obtain c where "a @ [] = b @ c \<or> a @ c = b @ []" by auto
  then have "a = b" using reply_prefix_free [OF assms(1,2)] by blast
  then show ?thesis using assms(5) by simp
qed

subsection \<open>The unknown command\<close>

lemma command_names_no_cr: "list_all (\<lambda>n. CHR 0x0D \<notin> set n) (map fst commandTable)"
  by (simp add: commandTable_def commands_defs)

text \<open>Case folding works on two bytes at most, none of them ASCII: it can be done on both sides of a line end.\<close>

lemma folding_bytes [simp]:
  "upper_byte CHR 0x0A = CHR 0x0A" "lower_byte CHR 0x0A = CHR 0x0A" "upper_byte CHR 0x0D = CHR 0x0D"
  "lower_byte CHR 0x0D = CHR 0x0D" "upper_byte CHR ''+'' = CHR ''+''" "lower_byte CHR ''+'' = CHR ''+''"
  by code_simp+

lemma ToUpper_cr: "ToUpper (a @ CHR 0x0D # b) = ToUpper a @ CHR 0x0D # ToUpper b"
  by (induction a rule: ToUpper.induct) (auto simp: take_Cons' Cons_eq_append_conv append_eq_Cons_conv)

lemma ToLower_cr: "ToLower (a @ CHR 0x0D # b) = ToLower a @ CHR 0x0D # ToLower b"
  by (induction a rule: ToLower.induct) (auto simp: take_Cons' append_eq_Cons_conv)

lemma folding_line [simp]:
  "ToUpper (CHR 0x0A # CHR ''+'' # b) = CHR 0x0A # CHR ''+'' # ToUpper b"
  "ToLower (CHR 0x0A # CHR ''+'' # b) = CHR 0x0A # CHR ''+'' # ToLower b"
  by simp_all

lemma unknown_with_cr: "map_of commandTable (a @ crlf @ b) = None"
proof -
  have "a @ crlf @ b \<notin> set (map fst commandTable)"
    using command_names_no_cr unfolding list_all_iff by (auto simp: crlf_def simp del: set_map)
  then show ?thesis by (simp add: map_of_eq_None_iff)
qed

lemma split_error:
  "wire_all [TError (''ERR unknown command '' @ [CHR 0x27] @ ToLower (ToUpper (a @ (crlf @ ''+'') @ b)) @ [CHR 0x27])] =
   wire_all [TError (''ERR unknown command '' @ [CHR 0x27] @ ToLower (ToUpper a)),
     TInline (ToLower (ToUpper b) @ [CHR 0x27])]"
  by (simp add: wire_all_def crlf_def ToUpper_cr ToLower_cr)

lemma unknown_two_lines:
  assumes "serving commandTable s"
  shows "\<exists>c'. dispatch s m c ((a @ (crlf @ ''+'') @ b) # args) = Some (s, Finished m c') \<and>
    wire_all (wbuf c') = wire_all (wbuf c @ [TError (''ERR unknown command '' @ [CHR 0x27] @ ToLower (ToUpper a)),
      TInline (ToLower (ToUpper b) @ [CHR 0x27])])"
proof -
  have "ToUpper (a @ (crlf @ ''+'') @ b) = ToUpper a @ crlf @ (''+'' @ ToUpper b)"
    by (simp add: crlf_def ToUpper_cr)
  then have "map_of commandTable (ToUpper (a @ (crlf @ ''+'') @ b)) = None"
    by (simp only: unknown_with_cr)
  then have "dispatch s m c ((a @ (crlf @ ''+'') @ b) # args) =
    Some (s, Finished m (WriteError (errUnknownCommand (ToUpper (a @ (crlf @ ''+'') @ b))) c))"
    using assms by (simp add: serving_def dispatch_def)
  then show ?thesis
    using split_error [of a b] by (simp add: WriteError_def errUnknownCommand_def)
qed

end
