(* ===== verification/Ledger.thy ===== *)
theory Ledger
  imports World
begin

text \<open>
  The server as a queue between clients: every element a push was acknowledged for is in a list or
  was delivered to exactly one client that popped it. The account is kept along an execution, from
  the requests and the replies the clients see.
\<close>

subsection \<open>What is stored\<close>

fun elems :: "val option \<Rightarrow> string multiset" where
  "elems (Some (VList l)) = mset l"
| "elems _ = {#}"

definition stored_db :: "RedisDB \<Rightarrow> string multiset" where
  "stored_db db = (\<Sum>k \<in> set (allKeys db). elems (value_of db k))"

definition stored :: "RediQueue \<Rightarrow> string multiset" where
  "stored m = (\<Sum>i \<in> fset (fmdom (dbs m)). stored_db (the_db m i))"

lemma sum_at:
  fixes f g :: "'a \<Rightarrow> 'b multiset"
  assumes "finite I" "j \<in> I" "\<forall>i \<in> I. i \<noteq> j \<longrightarrow> g i = f i"
  shows "sum g I + f j = sum f I + g j"
proof -
  have "sum g (I - {j}) = sum f (I - {j})" using assms(3) by (intro sum.cong) auto
  then show ?thesis using sum.remove [OF assms(1,2), of f] sum.remove [OF assms(1,2), of g]
    by (simp add: add.commute add.left_commute)
qed

lemma stored_db_over:
  assumes "finite K" "set (allKeys db) \<subseteq> K"
  shows "stored_db db = (\<Sum>k \<in> K. elems (value_of db k))"
  unfolding stored_db_def using assms by (intro sum.mono_neutral_left) (auto simp: set_allKeys)

lemma stored_db_upd:
  assumes "value_of db' = (value_of db)(k := v)"
  shows "stored_db db' + elems (value_of db k) = stored_db db + elems v"
proof -
  let ?K = "insert k (set (allKeys db) \<union> set (allKeys db'))"
  have "(\<Sum>j \<in> ?K. elems (value_of db' j)) + elems (value_of db k) =
      (\<Sum>j \<in> ?K. elems (value_of db j)) + elems (value_of db' k)"
    using assms by (intro sum_at) auto
  moreover have "stored_db db = (\<Sum>j \<in> ?K. elems (value_of db j))" "stored_db db' = (\<Sum>j \<in> ?K. elems (value_of db' j))"
    by (rule stored_db_over; auto)+
  ultimately show ?thesis using assms by simp
qed

lemma stored_db_cong: "value_of db' = value_of db \<Longrightarrow> stored_db db' = stored_db db"
  using stored_db_upd [of db' db undefined "value_of db undefined"] by simp

lemma stored_new [simp]: "stored_db (newRedisDB i) = {#}"
  by (simp add: stored_db_def)

lemma stored_over:
  assumes "finite I" "fset (fmdom (dbs m)) \<subseteq> I"
  shows "stored m = (\<Sum>i \<in> I. stored_db (the_db m i))"
  unfolding stored_def using assms
  by (intro sum.mono_neutral_left) (auto simp: the_db_def fmdom_notD)

lemma stored_upd:
  assumes "\<forall>j. j \<noteq> i \<longrightarrow> the_db m' j = the_db m j"
  shows "stored m' + stored_db (the_db m i) = stored m + stored_db (the_db m' i)"
proof -
  let ?I = "insert i (fset (fmdom (dbs m)) \<union> fset (fmdom (dbs m')))"
  have "(\<Sum>j \<in> ?I. stored_db (the_db m' j)) + stored_db (the_db m i) =
      (\<Sum>j \<in> ?I. stored_db (the_db m j)) + stored_db (the_db m' i)"
    using assms by (intro sum_at) auto
  moreover have "stored m = (\<Sum>j \<in> ?I. stored_db (the_db m j))" "stored m' = (\<Sum>j \<in> ?I. stored_db (the_db m' j))"
    by (rule stored_over; auto)+
  ultimately show ?thesis by simp
qed

lemma stored_cong: "\<forall>j. the_db m' j = the_db m j \<Longrightarrow> stored m' = stored m"
  using stored_upd [of undefined m' m] by simp

subsection \<open>What requests and replies say\<close>

fun pushes :: "string list \<Rightarrow> token list \<Rightarrow> string multiset" where
  "pushes vs [TInt n] = (if 0 < n then mset vs else {#})"
| "pushes vs _ = {#}"

fun pops :: "token list \<Rightarrow> string multiset" where
  "pops [TBulk x] = {#x#}"
| "pops _ = {#}"

fun bpops :: "token list \<Rightarrow> string multiset" where
  "bpops [TLen n, TBulk k, TBulk x] = {#x#}"
| "bpops _ = {#}"

definition none :: "token list \<Rightarrow> string multiset" where
  "none ts = {#}"

lemma none_simps [simp]: "none ts = {#}"
  by (simp add: none_def)

definition moves :: "(token list \<Rightarrow> string multiset) \<Rightarrow> (token list \<Rightarrow> string multiset) \<Rightarrow>
    RedisDB \<Rightarrow> RedisDB \<Rightarrow> token list \<Rightarrow> bool" where
  "moves P D db db' ts \<longleftrightarrow> stored_db db' + D ts = stored_db db + P ts"

lemma moves_same: "P ts = {#} \<Longrightarrow> D ts = {#} \<Longrightarrow> moves P D db db ts"
  by (simp add: moves_def)

lemma moves_changed:
  assumes "changed k v n db db'" "elems v + D ts = elems (value_of db k) + P ts"
  shows "moves P D db db' ts"
proof -
  have "stored_db db' + elems (value_of db k) = stored_db db + elems v"
    using assms(1) by (intro stored_db_upd) (simp add: changed_def)
  then have "stored_db db' + D ts + elems (value_of db k) = stored_db db + (elems v + D ts)"
    by (simp add: ac_simps)
  also have "\<dots> = stored_db db + P ts + elems (value_of db k)" by (simp only: assms(2)) (simp add: ac_simps)
  finally show ?thesis by (simp add: moves_def)
qed

lemma elems_list_val [simp]: "elems (list_val l) = mset l"
  by (simp add: list_val_def)

lemma mset_popped: "l \<noteq> [] \<Longrightarrow> add_mset (fst (popped lr l)) (mset (snd (popped lr l))) = mset l"
proof (cases lr)
  case Left
  assume "l \<noteq> []"
  then show ?thesis using Left by (cases l) (simp_all add: popped_def)
next
  case Right
  assume "l \<noteq> []"
  then show ?thesis using Right by (cases l rule: rev_cases) (simp_all add: popped_def)
qed

lemma mset_pushed: "mset (pushed lr vs l) = mset vs + mset l"
  by (cases lr) (simp_all add: pushed_def)

lemma elems_list_at: "wf_db db \<Longrightarrow> elems (value_of db k) = mset (list_at k db)"
  by (cases rule: key_cases [of db k]) (simp_all add: list_at_simps)

lemma xpush_moves:
  assumes "wf_db db" "vs \<noteq> []" "xpush_body key vs lr db = Some (db', ts)"
  shows "moves (pushes vs) none db db' ts"
proof (cases "list_or_absent db key")
  case False
  then obtain t where "value_of db key = Some (VSet t)"
    by (cases rule: key_cases [of db key]) (auto simp: list_or_absent_def)
  from xpush_spec(1) [OF assms(1,2) this, of lr] assms(3) show ?thesis by (auto simp: moves_def)
next
  case True
  from xpush_spec(2) [OF assms(1,2) True, of lr] assms(3)
  have ts: "ts = [TInt (int (length vs + length (list_at key db)))]"
    and c: "changed key (Some (VList (pushed lr vs (list_at key db)))) (length vs) db db'" by auto
  have "0 < int (length vs + length (list_at key db))" using assms(2) by (cases vs) simp_all
  then show ?thesis unfolding ts
    by (intro moves_changed [OF c]) (simp add: mset_pushed elems_list_at [OF assms(1)] del: of_nat_add)
qed

lemma xpushx_moves:
  assumes "wf_db db" "vs \<noteq> []" "xpushx_body key vs lr db = Some (db', ts)"
  shows "moves (pushes vs) none db db' ts"
  using assms xpush_moves [OF assms(1,2), of key lr db' ts]
  by (auto simp: xpushx_spec moves_same split: if_splits)

lemma xpop_moves:
  assumes "wf_db db" "xpop_body key lr db = Some (db', ts)"
  shows "moves none pops db db' ts"
proof (cases rule: key_cases [of db key])
  case absent
  then show ?thesis using xpop_spec(1) [OF assms(1), of key lr] assms(2) by (auto simp: moves_def)
next
  case (set s)
  then show ?thesis using xpop_spec(2) [OF assms(1) set, of lr] assms(2) by (auto simp: moves_def)
next
  case (list l)
  from xpop_spec(3) [OF assms(1) list, of lr] obtain n where
    "ts = [TBulk (fst (popped lr l))]" "changed key (list_val (snd (popped lr l))) n db db'"
    using assms(2) by auto
  then show ?thesis using list key_facts(2) [OF assms(1) list]
    by (intro moves_changed) (auto simp: mset_popped)
qed

lemma bxpop_moves:
  assumes "wf_db db" "bxpop_body ks lr db = Some (fin, db', ts)"
  shows "moves none bpops db db' ts"
proof (cases "find (\<lambda>k. value_of db k \<noteq> None) ks")
  case None
  then show ?thesis using assms by (auto simp: bxpop_eq moves_def)
next
  case (Some key)
  then have "value_of db key \<noteq> None" by (auto simp: find_Some_iff)
  then consider (list) l where "value_of db key = Some (VList l)" | (set) s where "value_of db key = Some (VSet s)"
    by (cases rule: key_cases [of db key]) auto
  then show ?thesis
  proof cases
    case set
    then show ?thesis using assms Some by (auto simp: bxpop_eq moves_def)
  next
    case (list l)
    obtain db1 n where p: "pop lr key db = Some (fst (popped lr l), db1)"
      "changed key (list_val (snd (popped lr l))) n db db1" using pop_spec [OF assms(1) list] .
    with assms Some list have "db' = db1" "ts = [TLen 2, TBulk key, TBulk (fst (popped lr l))]"
      by (simp_all add: bxpop_eq)
    then show ?thesis using p(2) list key_facts(2) [OF assms(1) list]
      by (intro moves_changed) (auto simp: mset_popped)
  qed
qed

text \<open>A transfer between lists changes the sum of nothing.\<close>

lemma rotated_stored:
  assumes "wf_db db" "value_of db src = Some (VList l)" "list_or_absent db dst" "value_of db' = rotated src dst db l"
  shows "stored_db db' = stored_db db"
proof -
  have l: "mset l = add_mset (last l) (mset (butlast l))"
    using mset_popped [of l Right] key_facts(2) [OF assms(1,2)] by (simp add: popped_def)
  show ?thesis
  proof (cases "src = dst")
    case True
    then have "value_of db' = (value_of db)(src := Some (VList (last l # butlast l)))"
      using assms(4) by (simp add: rotated_def)
    from stored_db_upd [OF this] assms(2) l show ?thesis by simp
  next
    case False
    obtain db1 where "changed src (list_val (butlast l)) 1 db db1"
      using listPop_spec [OF assms(1,2)] by (metis list_val_def)
    then have v: "value_of db1 = (value_of db)(src := list_val (butlast l))" by (simp add: changed_def)
    then have "value_of db' = (value_of db1)(dst := Some (VList (last l # list_at dst db)))"
      using assms(4) False by (simp add: rotated_def)
    from stored_db_upd [OF v] stored_db_upd [OF this] show ?thesis
      using assms(2) l v False elems_list_at [OF assms(1), of dst] by (simp add: ac_simps)
  qed
qed

lemma rpoplpush_moves:
  assumes "wf_db db" "rpoplpush_body src dst db = Some (db', ts)"
  shows "stored_db db' = stored_db db"
proof (cases "\<exists>l. value_of db src = Some (VList l) \<and> list_or_absent db dst")
  case True
  then obtain l where l: "value_of db src = Some (VList l)" "list_or_absent db dst" by blast
  from rpoplpush_body_spec(4) [OF assms(1) l] assms(2) have "value_of db' = rotated src dst db l" by auto
  with rotated_stored [OF assms(1) l] show ?thesis by simp
next
  case False
  then show ?thesis using rpoplpush_body_spec(1-3) [OF assms(1)] assms(2)
    by (cases rule: key_cases [of db src]; cases rule: key_cases [of db dst])
      (auto simp: list_or_absent_def)
qed

lemma brpoplpush_moves:
  assumes "wf_db db" "brpoplpush_body src dst db = Some (fin, db', ts)"
  shows "stored_db db' = stored_db db"
  using assms rpoplpush_moves [OF assms(1), of src dst]
  by (auto simp: brpoplpush_eq split: if_splits)

subsection \<open>Closures\<close>

definition settles :: "(token list \<Rightarrow> string multiset) \<Rightarrow> (token list \<Rightarrow> string multiset) \<Rightarrow>
    RediQueue \<Rightarrow> peer \<Rightarrow> RediQueue \<Rightarrow> peer \<Rightarrow> bool" where
  "settles P D m c m' c' \<longleftrightarrow> (\<exists>ts. c' = emit ts c \<and> stored m' + D ts = stored m + P ts)"

lemma put_db_stored:
  assumes "stored_db db' + d = stored_db (the_db m i) + p" "\<forall>j. the_db m' j = (if j = i then db' else the_db m j)"
  shows "stored m' + d = stored m + p"
proof -
  have "stored m' + stored_db (the_db m i) = stored m + stored_db db'"
    using stored_upd [of i m' m] assms(2) by auto
  then have "stored m' + stored_db (the_db m i) + d = stored m + (stored_db db' + d)" by (simp add: ac_simps)
  also have "\<dots> = stored m + p + stored_db (the_db m i)" by (simp only: assms(1)) (simp add: ac_simps)
  finally show ?thesis by (simp add: ac_simps)
qed

lemma on_db_settles:
  assumes "on_db (det f) m c = Some (m', c')"
    and "\<And>db' ts. f (the_db m (selectedDB (ctx c))) = Some (db', ts) \<Longrightarrow>
      moves P D (the_db m (selectedDB (ctx c))) db' ts"
  shows "settles P D m c m' c'"
proof -
  obtain db' ts where f: "f (the_db m (selectedDB (ctx c))) = Some (db', ts)"
    and m': "m' = (put_db (selectedDB (ctx c)) db' (snd (m_db (selectedDB (ctx c)) m)))\<lparr>rand := rand m\<rparr>" and c': "c' = emit ts c"
    using assms(1) by (auto simp: on_db_def det_def case_prod_unfold Let_def split: option.splits)
  have "stored m' + D ts = stored m + P ts"
    using assms(2) [OF f] unfolding moves_def
    by (rule put_db_stored [where i = "selectedDB (ctx c)"]) (simp add: m')
  then show ?thesis using c' by (auto simp: settles_def)
qed

text \<open>The closures of the queue commands, and those that only look.\<close>

fun looks :: "txCmd \<Rightarrow> bool" where
  "looks (TxLlen key) = True"
| "looks (TxLindex key i) = True"
| "looks (TxLrange key i j) = True"
| "looks (TxType key) = True"
| "looks (TxExists ks) = True"
| "looks TxDbsize = True"
| "looks _ = False"

lemma looks_settles:
  assumes "looks cb" "run_txCmd cb m c = Some (m', c')"
  shows "settles none none m c m' c'"
  using assms
  by (cases cb)
    (auto elim!: on_db_settles simp: moves_def llen_body_def lindex_body_def lrange_body_def type_body_def
      exists_body_def dbsize_body_def Let_def case_prod_unfold split: option.splits if_splits)

lemma queue_settles:
  assumes "wf_m m"
  shows "vs \<noteq> [] \<Longrightarrow> run_txCmd (TxXpush key vs lr) m c = Some (m', c') \<Longrightarrow> settles (pushes vs) none m c m' c'"
    and "vs \<noteq> [] \<Longrightarrow> run_txCmd (TxXpushx key vs lr) m c = Some (m', c') \<Longrightarrow> settles (pushes vs) none m c m' c'"
    and "run_txCmd (TxXpop key lr) m c = Some (m', c') \<Longrightarrow> settles none pops m c m' c'"
    and "run_txCmd (TxRpoplpush src dst) m c = Some (m', c') \<Longrightarrow> settles none none m c m' c'"
proof -
  have wf: "wf_db (the_db m (selectedDB (ctx c)))" using assms by auto
  show "vs \<noteq> [] \<Longrightarrow> run_txCmd (TxXpush key vs lr) m c = Some (m', c') \<Longrightarrow> settles (pushes vs) none m c m' c'"
    using xpush_moves [OF wf] by (auto intro: on_db_settles)
  show "vs \<noteq> [] \<Longrightarrow> run_txCmd (TxXpushx key vs lr) m c = Some (m', c') \<Longrightarrow> settles (pushes vs) none m c m' c'"
    using xpushx_moves [OF wf] by (auto intro: on_db_settles)
  show "run_txCmd (TxXpop key lr) m c = Some (m', c') \<Longrightarrow> settles none pops m c m' c'"
    using xpop_moves [OF wf] by (auto intro: on_db_settles)
  show "run_txCmd (TxRpoplpush src dst) m c = Some (m', c') \<Longrightarrow> settles none none m c m' c'"
    using rpoplpush_moves [OF wf] by (auto intro!: on_db_settles simp: moves_def)
qed

fun block_pops :: "blockCmd \<Rightarrow> token list \<Rightarrow> string multiset" where
  "block_pops (BXpop ks lr) = bpops"
| "block_pops (BRpoplpush src dst) = none"

lemma block_settles:
  assumes "wf_m m" "run_block b m c = Some (fin, m', c')"
  shows "settles none (block_pops b) m c m' c'"
proof -
  let ?i = "selectedDB (ctx c)"
  have wf: "wf_db (the_db m ?i)" using assms(1) by auto
  obtain db' ts where b: "block_body b (the_db m ?i) = Some (fin, db', ts)"
    and m': "m' = put_db ?i db' (snd (m_db ?i m))" "c' = emit ts c"
    using assms(2) by (auto simp: run_block_def case_prod_unfold Let_def split: option.splits)
  have "moves none (block_pops b) (the_db m ?i) db' ts"
    using b bxpop_moves [OF wf] brpoplpush_moves [OF wf]
    by (cases b) (auto simp: moves_def)
  then have "stored m' + block_pops b ts = stored m + none ts"
    unfolding moves_def by (rule put_db_stored [where i = ?i]) (simp add: m')
  then show ?thesis using m'(2) by (auto simp: settles_def)
qed

subsection \<open>Requests\<close>

definition quiet :: "(token list \<Rightarrow> string multiset) \<Rightarrow> bool" where
  "quiet F \<longleftrightarrow> (\<forall>e. F [TError e] = {#})"

lemma quiet_simps [simp]: "quiet none" "quiet (pushes vs)" "quiet pops" "quiet bpops" "quiet (block_pops b)"
  by (simp_all add: quiet_def) (cases b; simp)

text \<open>A connection outside of a transaction that goes on.\<close>

definition plain :: "peer \<Rightarrow> bool" where
  "plain c \<longleftrightarrow> \<not> inTx c \<and> \<not> closed c"

lemma plain_simps [simp]: "plain (emit ts c) = plain c" "plain (getCtx c) = plain c" "plain (setDirty c) = plain c"
  by (auto simp: plain_def inTx_def getCtx_def setDirty_def ctx_def split: option.splits)

fun squares :: "(token list \<Rightarrow> string multiset) \<Rightarrow> (token list \<Rightarrow> string multiset) \<Rightarrow>
    RediQueue \<Rightarrow> peer \<Rightarrow> hres option \<Rightarrow> bool" where
  "squares P D m c None \<longleftrightarrow> True"
| "squares P D m c (Some (Finished m' c')) \<longleftrightarrow>
     plain c' \<and> (\<exists>ts. wbuf c' = wbuf c @ ts \<and> stored m' + D ts = stored m + P ts)"
| "squares P D m c (Some (Waiting m' c' b t)) \<longleftrightarrow> plain c' \<and> wbuf c' = wbuf c \<and> stored m' = stored m"

lemma squares_reply:
  "plain c' \<Longrightarrow> wbuf c' = wbuf c @ ts \<Longrightarrow> stored m' = stored m \<Longrightarrow> P ts = {#} \<Longrightarrow> D ts = {#} \<Longrightarrow>
     squares P D m c (Some (Finished m' c'))"
  by auto

lemma squares_usage: "quiet P \<Longrightarrow> quiet D \<Longrightarrow> plain c \<Longrightarrow> squares P D m c (usage m c msg)"
  unfolding usage_def
  by (rule squares_reply [where ts = "[TError msg]"]) (simp_all add: WriteError_def quiet_def)

lemma squares_authed:
  assumes "quiet P" "quiet D" "plain c"
    and "\<And>c'. plain c' \<Longrightarrow> wbuf c' = wbuf c \<Longrightarrow> squares P D m c' (k c')"
  shows "squares P D m c (authed m c k)"
proof (cases "may_use m c")
  case False
  then show ?thesis using assms(1-3) unfolding authed_no [OF False]
    by (intro squares_reply [where ts = "[TError ''NOAUTH Authentication required.'']"])
      (simp_all add: WriteError_def quiet_def)
next
  case True
  let ?c = "if password m = [] then c else getCtx c"
  have c: "plain ?c" "wbuf ?c = wbuf c" using assms(3) wrote_getCtx [of c] by (auto simp: wrote_def)
  have "squares P D m ?c (k ?c)" using assms(4) [OF c] .
  then show ?thesis unfolding authed_ok [OF True] using c(2)
    by (cases "k ?c" rule: option.exhaust; cases "the (k ?c)") auto
qed

lemma stored_fields [simp]: "stored (Broadcast m) = stored m" "stored (RequireAuth pw m) = stored m"
  "stored (Select i m) = stored m"
  by (rule stored_cong; simp add: the_db_Select)+

lemma squares_withTx:
  assumes "plain c" "\<And>c m' c'. run_txCmd cb m c = Some (m', c') \<Longrightarrow> settles P D m c m' c'"
  shows "squares P D m c (withTx m c cb)"
proof -
  have t: "\<not> inTx (getCtx c)" using assms(1) by (simp add: plain_def)
  have w: "wbuf (getCtx c) = wbuf c" using wrote_getCtx [of c] by (simp add: wrote_def)
  show ?thesis
  proof (cases "run_txCmd cb m (getCtx c)")
    case None
    then show ?thesis using t by (simp add: withTx_def Let_def)
  next
    case (Some x)
    obtain m' c' where x: "x = (m', c')" by (cases x)
    with assms(2) [of "getCtx c" m' c'] Some obtain ts where
      ts: "c' = emit ts (getCtx c)" "stored m' + D ts = stored m + P ts"
      by (auto simp: settles_def)
    have "withTx m c cb = Some (Finished (Broadcast m') c')" using t Some x by (simp add: withTx_def Let_def)
    then show ?thesis using ts w assms(1) by auto
  qed
qed

lemma squares_blocking:
  assumes "wf_m m" "plain c"
  shows "squares none (block_pops b) m c (blocking m c timeout b)"
proof -
  have t: "\<not> inTx (getCtx c)" using assms(2) by (simp add: plain_def)
  have w: "wbuf (getCtx c) = wbuf c" using wrote_getCtx [of c] by (simp add: wrote_def)
  from assms(1) show ?thesis
  proof (cases rule: run_block_Some [of m b "getCtx c"])
    case (waits m')
    then show ?thesis using t w assms(2) stored_cong [of m' m] by (simp add: blocking_def Let_def)
  next
    case (serves m' ts)
    from block_settles [OF assms(1) serves(1)] obtain us where
      "emit ts (getCtx c) = emit us (getCtx c)" and s: "stored m' + block_pops b us = stored m + none us"
      by (auto simp: settles_def)
    then have "us = ts" by (metis emit_simps(1) same_append_eq)
    with s serves(1) show ?thesis using t w assms(2) by (auto simp: blocking_def Let_def)
  qed
qed

text \<open>What a request says a client put in or took out, given its reply.\<close>

definition pushed_by :: "string \<Rightarrow> string list \<Rightarrow> token list \<Rightarrow> string multiset" where
  "pushed_by n args = (if n \<in> {''LPUSH'', ''RPUSH'', ''LPUSHX'', ''RPUSHX''} then pushes (tl args) else none)"

definition popped_by :: "string \<Rightarrow> token list \<Rightarrow> string multiset" where
  "popped_by n =
     (if n \<in> {''LPOP'', ''RPOP''} then pops else if n \<in> {''BLPOP'', ''BRPOP''} then bpops else none)"

definition queue_names :: "string list" where
  "queue_names = [''LPUSH'', ''RPUSH'', ''LPUSHX'', ''RPUSHX'', ''LPOP'', ''RPOP'', ''BLPOP'', ''BRPOP'',
     ''RPOPLPUSH'', ''BRPOPLPUSH'', ''LLEN'', ''LINDEX'', ''LRANGE'', ''TYPE'', ''EXISTS'', ''DBSIZE'',
     ''PING'', ''ECHO'', ''AUTH'', ''SELECT'']"

lemma tl_ne: "\<not> length args < 2 \<Longrightarrow> tl args \<noteq> []"
  by (cases args; cases "tl args") auto

lemma squares_push:
  assumes "wf_m m" "plain c"
  shows "squares (pushes (tl args)) none m c (cmdXpush lr m c n args)"
    and "squares (pushes (tl args)) none m c (cmdXpushx lr m c n args)"
  using assms queue_settles(1,2) [OF assms(1) tl_ne]
  by (auto simp: cmdXpush_def cmdXpushx_def intro!: squares_usage squares_authed squares_withTx)

lemma squares_pop: "wf_m m \<Longrightarrow> plain c \<Longrightarrow> squares none pops m c (cmdXpop lr m c n args)"
  using queue_settles(3)
  by (auto simp: cmdXpop_def intro!: squares_usage squares_authed squares_withTx split: list.split)

lemma squares_bpop: "wf_m m \<Longrightarrow> plain c \<Longrightarrow> squares none bpops m c (cmdBXpop lr m c n args)"
  using squares_blocking [of m _ "BXpop ks lr" t for ks t]
  by (auto simp: cmdBXpop_def intro!: squares_usage squares_authed split: option.split)

lemma squares_transfer:
  assumes "wf_m m" "plain c"
  shows "squares none none m c (cmdRpoplpush m c n args)" "squares none none m c (cmdBrpoplpush m c n args)"
  using assms queue_settles(4) [OF assms(1)] squares_blocking [OF assms(1), of _ "BRpoplpush src dst" t for src dst t]
  by (auto simp: cmdRpoplpush_def cmdBrpoplpush_def intro!: squares_usage squares_authed squares_withTx
      split: list.split option.split)

lemma squares_looks: "plain c \<Longrightarrow> looks cb \<Longrightarrow> squares none none m c (withTx m c cb)"
  using squares_withTx looks_settles by blast

lemma squares_look:
  assumes "wf_m m" "plain c"
  shows "squares none none m c (cmdLlen m c n args)" "squares none none m c (cmdLindex m c n args)"
    "squares none none m c (cmdLrange m c n args)" "squares none none m c (cmdType m c n args)"
    "squares none none m c (cmdExists m c n args)" "squares none none m c (cmdDbsize m c n args)"
  using assms
  by (auto simp: cmdLlen_def cmdLindex_def cmdLrange_def cmdType_def cmdExists_def cmdDbsize_def
      intro!: squares_usage squares_authed squares_looks split: list.split option.split)

lemma squares_connection:
  assumes "wf_m m" "plain c"
  shows "squares none none m c (cmdPing m c n args)" "squares none none m c (cmdEcho m c n args)"
    "squares none none m c (cmdAuth m c n args)" "squares none none m c (cmdSelect m c n args)"
  using assms
  by (auto simp: cmdPing_def cmdEcho_def cmdAuth_def cmdSelect_def write_defs setAuthenticated_def Let_def
      plain_def inTx_def intro!: squares_usage squares_authed split: list.split option.split)

lemma squares_all:
  assumes "wf_m m" "plain c"
  shows "list_all (\<lambda>(n, h). n \<in> set queue_names \<longrightarrow>
    squares (pushed_by n args) (popped_by n) m c (h m c n args)) commandTable"
  using squares_push [OF assms] squares_pop [OF assms] squares_bpop [OF assms] squares_transfer [OF assms]
    squares_look [OF assms] squares_connection [OF assms]
  by (simp add: commandTable_def commands_defs queue_names_def pushed_by_def popped_by_def
      cmdLpush_def cmdRpush_def cmdLpushx_def cmdRpushx_def cmdLpop_def cmdRpop_def cmdBlpop_def cmdBrpop_def)

subsection \<open>The account of an execution\<close>

definition queue_request :: "string list \<Rightarrow> bool" where
  "queue_request args \<longleftrightarrow> args \<noteq> [] \<and> ToUpper (hd args) \<in> set queue_names"

fun queue_event :: "event \<Rightarrow> bool" where
  "queue_event (Arrive i args) \<longleftrightarrow> queue_request args"
| "queue_event (Request i args) \<longleftrightarrow> queue_request args"
| "queue_event (Api (ASelect i)) \<longleftrightarrow> True"
| "queue_event (Api (ARequireAuth pw)) \<longleftrightarrow> True"
| "queue_event (Api a) \<longleftrightarrow> False"
| "queue_event e \<longleftrightarrow> True"

text \<open>The reply a connection got in a step.\<close>

definition news :: "nat \<Rightarrow> world \<Rightarrow> world \<Rightarrow> token list" where
  "news i w w' =
     (case (fmlookup (conns w) i, fmlookup (conns w') i) of
        (Some k, Some k') \<Rightarrow> drop (length (wbuf (cl k))) (wbuf (cl k'))
      | _ \<Rightarrow> [])"

text \<open>The request a step answers.\<close>

fun answers :: "event \<Rightarrow> world \<Rightarrow> string list option" where
  "answers (Request i args) w = Some args"
| "answers (Run i) w =
     (case fmlookup (conns w) i of
        Some k \<Rightarrow> (case phase k of Called args \<Rightarrow> Some args | _ \<Rightarrow> None)
      | None \<Rightarrow> None)"
| "answers e w = None"

fun conn_of :: "event \<Rightarrow> nat" where
  "conn_of (Request i args) = i"
| "conn_of (Run i) = i"
| "conn_of (Wake i) = i"
| "conn_of _ = 0"

definition put_in :: "event \<Rightarrow> world \<Rightarrow> world \<Rightarrow> string multiset" where
  "put_in e w w' =
     (case answers e w of
        Some args \<Rightarrow> pushed_by (ToUpper (hd args)) (tl args) (news (conn_of e) w w')
      | None \<Rightarrow> {#})"

definition taken_out :: "event \<Rightarrow> world \<Rightarrow> world \<Rightarrow> string multiset" where
  "taken_out e w w' =
     (case answers e w of
        Some args \<Rightarrow> popped_by (ToUpper (hd args)) (news (conn_of e) w w')
      | None \<Rightarrow>
          (case (e, fmlookup (conns w) (conn_of e)) of
             (Wake i, Some k) \<Rightarrow> (case phase k of Parked b t g \<Rightarrow> block_pops b (news i w w') | _ \<Rightarrow> {#})
           | _ \<Rightarrow> {#}))"

inductive account :: "world \<Rightarrow> string multiset \<Rightarrow> string multiset \<Rightarrow> bool" where
  init: "account (new_world r re) {#} {#}"
| step: "account w P D \<Longrightarrow> queue_event e \<Longrightarrow> step e w = Stepped w' \<Longrightarrow>
    account w' (P + put_in e w w') (D + taken_out e w w')"

definition all_plain :: "world \<Rightarrow> bool" where
  "all_plain w \<longleftrightarrow>
     (\<forall>i k. fmlookup (conns w) i = Some k \<longrightarrow>
        plain (cl k) \<and> (\<forall>args. phase k = Called args \<longrightarrow> queue_request args))"

definition balanced :: "event \<Rightarrow> world \<Rightarrow> world \<Rightarrow> bool" where
  "balanced e w w' \<longleftrightarrow>
     all_plain w' \<and> stored (rq w') + taken_out e w w' = stored (rq w) + put_in e w w'"

lemma queue_request_ok: "queue_request args \<Longrightarrow> request_ok args"
proof -
  assume "queue_request args"
  then have "ToUpper (hd args) \<noteq> ''SRANDMEMBER''" by (auto simp: queue_request_def queue_names_def)
  then show ?thesis by (simp add: request_ok_def)
qed

lemma queue_event_ok: "queue_event e \<Longrightarrow> event_ok e"
proof (cases e)
  case (Api a)
  assume "queue_event e"
  then show ?thesis using Api by (cases a) simp_all
qed (simp_all add: queue_request_ok)

lemma empty_flows [simp]: "pushed_by n args [] = {#}" "popped_by n [] = {#}"
  by (simp_all add: pushed_by_def popped_by_def)

text \<open>The balance of a step that answers a request, whichever event it is.\<close>

lemma handle_balanced:
  assumes ok: "world_ok w" and pl: "all_plain w" and e: "queue_request args"
    and runs: "runs i k args w" and st: "handle i k args w = Stepped w'"
  shows "all_plain w' \<and>
    stored (rq w') + popped_by (ToUpper (hd args)) (news i w w') =
    stored (rq w) + pushed_by (ToUpper (hd args)) (tl args) (news i w w')"
proof -
  obtain k0 where k: "fmlookup (conns w) i = Some k0" "cl k = cl k0" using runs by (auto simp: runs_def)
  note w = world_okD [OF ok k(1)]
  have plk: "plain (cl k)" using pl k by (simp add: all_plain_def)
  obtain s r where d: "dispatch (srv w) (rq w) (cl k) args = Some (s, r)"
    using st by (auto simp: handle_def split: option.splits if_splits)
  let ?n = "ToUpper (hd args)"
  obtain h where h: "(?n, h) \<in> set commandTable" "h (rq w) (cl k) ?n (tl args) = Some r"
  proof -
    obtain a rest where a: "args = a # rest" using e by (cases args) (auto simp: queue_request_def)
    obtain h where "map_of commandTable (ToUpper a) = Some h"
    proof -
      have "set queue_names \<subseteq> fst ` set commandTable"
        by (simp add: queue_names_def commandTable_def commands_defs)
      then show thesis using e a that by (fastforce simp: queue_request_def dest: weak_map_of_SomeI)
    qed
    then show thesis using that d w(2) a
      by (auto simp: dispatch_def serving_def Let_def split: option.splits dest: map_of_SomeD)
  qed
  have sq: "squares (pushed_by ?n (tl args)) (popped_by ?n) (rq w) (cl k) (Some r)"
    using squares_all [OF w(1) plk, of "tl args"] h e by (auto simp: list_all_iff queue_request_def)
  show ?thesis
  proof (cases r)
    case (Finished m c)
    then obtain ts where c: "plain c" "wbuf c = wbuf (cl k) @ ts"
      "stored m + popped_by ?n ts = stored (rq w) + pushed_by ?n (tl args) ts" using sq by auto
    have "w' = put_conn i (k\<lparr>cl := c, phase := Idle\<rparr>) (w\<lparr>srv := s, rq := m\<rparr>)"
      using st d Finished c(1) by (simp add: handle_def plain_def split: if_splits)
    then show ?thesis using c k pl by (auto simp: all_plain_def news_def put_conn_def)
  next
    case (Waiting m c b t)
    then have c: "plain c" "wbuf c = wbuf (cl k)" "stored m = stored (rq w)" using sq by auto
    have "w' = put_conn i (k\<lparr>cl := c, phase := Trying b t\<rparr>)
        (w\<lparr>srv := s, rq := m, lock := Held i\<rparr>)"
      using st d Waiting by (simp add: handle_def split: if_splits)
    then show ?thesis using c k pl by (auto simp: all_plain_def news_def put_conn_def)
  qed
qed

lemma request_balanced:
  assumes "world_ok w" "all_plain w" "queue_event (Request i args)" "do_request i args w = Stepped w'"
  shows "balanced (Request i args) w w'"
  using assms(1,4)
proof (rule request_cases)
  fix k :: conn
  assume "runs i (k\<lparr>requests := Suc (requests k)\<rparr>) args w" "handle i (k\<lparr>requests := Suc (requests k)\<rparr>) args w = Stepped w'"
  from handle_balanced [OF assms(1,2) _ this] assms(3) show ?thesis
    by (simp add: balanced_def put_in_def taken_out_def)
qed

lemma run_balanced:
  assumes "world_ok w" "all_plain w" "do_run i w = Stepped w'"
  shows "balanced (Run i) w w'"
  using assms(1,3)
proof (rule run_cases)
  fix k :: conn and args
  assume k: "fmlookup (conns w) i = Some k" "phase k = Called args"
    and r: "runs i k args w" "handle i k args w = Stepped w'"
  have "queue_request args" using assms(2) k by (simp add: all_plain_def)
  from handle_balanced [OF assms(1,2) this r] k show ?thesis
    by (simp add: balanced_def put_in_def taken_out_def)
qed

lemma wake_balanced:
  assumes ok: "world_ok w" and pl: "all_plain w" and st: "do_wake i w = Stepped w'"
  shows "balanced (Wake i) w w'"
proof -
  obtain k b t g where k: "fmlookup (conns w) i = Some k" "phase k = Parked b t g" "lock w = Free"
    using st by (auto simp: do_wake_def split: option.splits phase.splits if_splits)
  note w = world_okD [OF ok k(1)]
  have plk: "plain (cl k)" using pl k(1) by (simp add: all_plain_def)
  obtain fin m c where r: "run_block b (rq w) (cl k) = Some (fin, m, c)"
    using st k by (auto simp: do_wake_def split: option.splits if_splits)
  from block_settles [OF w(1) r] obtain ts where ts: "c = emit ts (cl k)"
    "stored m + block_pops b ts = stored (rq w)" by (auto simp: settles_def)
  have "rq w' = m" "conns w' = fmupd i (k\<lparr>cl := c, phase := if fin then Idle else Trying b t\<rparr>) (conns w)"
    using st k r by (auto simp: do_wake_def put_conn_def split: if_splits bool.splits)
  then show ?thesis using ts k pl plk
    by (auto simp: balanced_def all_plain_def news_def put_in_def taken_out_def)
qed

lemma others_balanced:
  assumes "all_plain w"
  shows "do_connect i w = Stepped w' \<Longrightarrow> balanced (Connect i) w w'"
    and "queue_event (Arrive i args) \<Longrightarrow> do_arrive i args w = Stepped w' \<Longrightarrow> balanced (Arrive i args) w w'"
    and "do_park i w = Stepped w' \<Longrightarrow> balanced (Park i) w w'"
    and "do_timeout i w = Stepped w' \<Longrightarrow> balanced (Timeout i) w w'"
    and "do_drained i w = Stepped w' \<Longrightarrow> balanced (Drained i) w w'"
    and "do_disconnect i w = Stepped w' \<Longrightarrow> balanced (Disconnect i) w w'"
    and "do_close_start w = Stepped w' \<Longrightarrow> balanced CloseStart w w'"
    and "do_close_end w = Stepped w' \<Longrightarrow> balanced CloseEnd w w'"
    and "do_restart w = Stepped w' \<Longrightarrow> balanced Restart w w'"
    and "queue_event (Api a) \<Longrightarrow> do_api a w = Stepped w' \<Longrightarrow> balanced (Api a) w w'"
proof -
  have new: "plain new_peer" by (simp add: plain_def inTx_def new_peer_def ctx_def new_connCtx_def)
  show "do_connect i w = Stepped w' \<Longrightarrow> balanced (Connect i) w w'"
    "do_drained i w = Stepped w' \<Longrightarrow> balanced (Drained i) w w'"
    "do_disconnect i w = Stepped w' \<Longrightarrow> balanced (Disconnect i) w w'"
    "do_close_start w = Stepped w' \<Longrightarrow> balanced CloseStart w w'"
    "do_close_end w = Stepped w' \<Longrightarrow> balanced CloseEnd w w'"
    "do_restart w = Stepped w' \<Longrightarrow> balanced Restart w w'"
    using assms new
    by (auto simp: step_defs balanced_def all_plain_def put_conn_def drop_conn_def put_in_def taken_out_def
        split: if_splits option.splits phase.splits)
  show "queue_event (Arrive i args) \<Longrightarrow> do_arrive i args w = Stepped w' \<Longrightarrow> balanced (Arrive i args) w w'"
    using assms by (elim arrive_cases) (auto simp: balanced_def all_plain_def put_conn_def put_in_def taken_out_def)
  show "do_park i w = Stepped w' \<Longrightarrow> balanced (Park i) w w'"
    using assms by (elim park_cases) (auto simp: balanced_def all_plain_def put_conn_def put_in_def taken_out_def elim: after_park.elims)
  show "do_timeout i w = Stepped w' \<Longrightarrow> balanced (Timeout i) w w'"
    using assms by (elim timeout_cases)
      (auto simp: balanced_def all_plain_def put_conn_def onTimeout_def WriteNull_def put_in_def taken_out_def
        elim: after_timeout.elims)
  show "queue_event (Api a) \<Longrightarrow> do_api a w = Stepped w' \<Longrightarrow> balanced (Api a) w w'"
    using assms by (cases a) (auto simp: balanced_def all_plain_def do_api_def put_in_def taken_out_def split: if_splits)
qed

lemma step_balanced:
  assumes "world_ok w" "all_plain w" "queue_event e" "step e w = Stepped w'"
  shows "balanced e w w'"
  using assms(3,4) request_balanced [OF assms(1,2)] run_balanced [OF assms(1,2)] wake_balanced [OF assms(1,2)] others_balanced [OF assms(2)]
  by (cases e; simp only: step.simps; blast)

lemma account_balances:
  "account w P D \<Longrightarrow> world_ok w \<and> all_plain w \<and> stored (rq w) + D = P"
proof (induction rule: account.induct)
  case (init r re)
  have "stored (NewRediQueue r re) = {#}" by (simp add: stored_def the_db_def NewRediQueue_def)
  then show ?case by simp (simp add: all_plain_def new_world_def)
next
  case (step w P D e w')
  have ok: "world_ok w'" using step_ok queue_event_ok step by blast
  have "balanced e w w'" using step_balanced step by blast
  then have b: "all_plain w'" "stored (rq w') + taken_out e w w' = stored (rq w) + put_in e w w'"
    by (simp_all add: balanced_def)
  have "stored (rq w') + (D + taken_out e w w') = (stored (rq w') + taken_out e w w') + D"
    by (simp add: ac_simps)
  also have "\<dots> = stored (rq w) + D + put_in e w w'" by (simp only: b(2)) (simp add: ac_simps)
  finally show ?case using ok b(1) step by simp
qed

text \<open>The account of a given execution.\<close>

fun book :: "event list \<Rightarrow> world \<Rightarrow> string multiset \<Rightarrow> string multiset \<Rightarrow>
    (world \<times> string multiset \<times> string multiset) option" where
  "book [] w P D = Some (w, P, D)"
| "book (e # es) w P D =
     (case step e w of
        Stepped w' \<Rightarrow> book es w' (P + put_in e w w') (D + taken_out e w w')
      | _ \<Rightarrow> None)"

lemma book_account:
  "account w P D \<Longrightarrow> list_all queue_event es \<Longrightarrow> book es w P D = Some (w', P', D') \<Longrightarrow> account w' P' D'"
  by (induction es w P D rule: book.induct) (auto split: outcome.splits intro: account.step)

end
