(* ===== verification/Semantics.thy ===== *)
theory Semantics
  imports Tx
begin

text \<open>
  What the commands mean: an abstract machine on the keyspace, a map from keys to lists and sets
  that knows nothing of the type map, the two value maps and the version counters. Every closure
  without random choices implements it, and so does a whole transaction.
\<close>

type_synonym keyspace = "string \<Rightarrow> val option"

definition list_in :: "keyspace \<Rightarrow> string \<Rightarrow> listKey" where
  "list_in V k = (case V k of Some (VList l) \<Rightarrow> l | _ \<Rightarrow> [])"

definition set_in :: "keyspace \<Rightarrow> string \<Rightarrow> setKey" where
  "set_in V k = (case V k of Some (VSet s) \<Rightarrow> s | _ \<Rightarrow> {||})"

fun is_list :: "val option \<Rightarrow> bool" where
  "is_list (Some (VList l)) = True"
| "is_list _ = False"

fun is_set :: "val option \<Rightarrow> bool" where
  "is_set (Some (VSet s)) = True"
| "is_set _ = False"

text \<open>A command on a key that holds a list, or a set: the reply when there is none, and what it does.\<close>

definition on_list :: "keyspace \<Rightarrow> string \<Rightarrow> token list \<Rightarrow> (listKey \<Rightarrow> keyspace \<times> token list) \<Rightarrow> keyspace \<times> token list" where
  "on_list V key absent f =
     (case V key of
        None \<Rightarrow> (V, absent)
      | Some (VSet s) \<Rightarrow> (V, [TError msgWrongType])
      | Some (VList l) \<Rightarrow> f l)"

definition on_set :: "keyspace \<Rightarrow> string \<Rightarrow> token list \<Rightarrow> (setKey \<Rightarrow> keyspace \<times> token list) \<Rightarrow> keyspace \<times> token list" where
  "on_set V key absent f =
     (case V key of
        None \<Rightarrow> (V, absent)
      | Some (VList l) \<Rightarrow> (V, [TError msgWrongType])
      | Some (VSet s) \<Rightarrow> f s)"

definition sem_push :: "string \<Rightarrow> string list \<Rightarrow> leftright \<Rightarrow> keyspace \<Rightarrow> keyspace \<times> token list" where
  "sem_push key vs lr V =
     (if is_set (V key) then (V, [TError msgWrongType])
      else let l = pushed lr vs (list_in V key) in (V(key := Some (VList l)), [TInt (int (length l))]))"

definition sem_pop :: "string \<Rightarrow> leftright \<Rightarrow> listKey \<Rightarrow> keyspace \<Rightarrow> keyspace" where
  "sem_pop key lr l V = V(key := list_val (snd (popped lr l)))"

definition sem_transfer :: "string \<Rightarrow> string \<Rightarrow> keyspace \<Rightarrow> keyspace \<times> token list" where
  "sem_transfer src dst V =
     on_list V src [TNull] (\<lambda>l.
       if is_set (V dst) then (V, [TError msgWrongType])
       else let V' = sem_pop src Right l V
            in (V'(dst := Some (VList (last l # list_in V' dst))), [TBulk (last l)]))"

text \<open>The set operations; the first key counts for an intersection, another one only if it is a set.\<close>

definition sem_diff :: "keyspace \<Rightarrow> string list \<Rightarrow> setKey option" where
  "sem_diff V ks =
     (if list_ex (\<lambda>k. is_list (V k)) ks then None
      else Some (ffilter (\<lambda>e. list_all (\<lambda>k. e |\<notin>| set_in V k) (tl ks)) (set_in V (hd ks))))"

definition sem_union :: "keyspace \<Rightarrow> string list \<Rightarrow> setKey option" where
  "sem_union V ks =
     (if list_ex (\<lambda>k. is_list (V k)) ks then None
      else Some (fold (\<lambda>k s. s |\<union>| set_in V k) ks {||}))"

definition sem_inter :: "keyspace \<Rightarrow> string list \<Rightarrow> setKey option" where
  "sem_inter V ks =
     (if is_list (V (hd ks)) then None
      else Some (ffilter (\<lambda>e. list_all (\<lambda>k. is_set (V k) \<longrightarrow> e |\<in>| set_in V k) (tl ks)) (set_in V (hd ks))))"

definition sem_store :: "string \<Rightarrow> setKey option \<Rightarrow> keyspace \<Rightarrow> keyspace \<times> token list" where
  "sem_store dest r V =
     (case r of
        None \<Rightarrow> (V, [TError msgWrongType])
      | Some s \<Rightarrow> (V(dest := Some (VSet s)), [TInt (int (fcard s))]))"

fun insert_near :: "bool \<Rightarrow> string \<Rightarrow> string \<Rightarrow> listKey \<Rightarrow> listKey" where
  "insert_near before pivot v [] = []"
| "insert_near before pivot v (x # l) =
     (if x = pivot then (if before then v # x # l else x # v # l) else x # insert_near before pivot v l)"

fun type_name :: "val option \<Rightarrow> string" where
  "type_name None = ''none''"
| "type_name (Some (VList l)) = ''list''"
| "type_name (Some (VSet s)) = ''set''"

fun sem :: "txCmd \<Rightarrow> keyspace \<Rightarrow> keyspace \<times> token list" where
  "sem (TxDel ks) V =
     (\<lambda>k. if k \<in> set ks then None else V k, [TInt (int (length (filter (\<lambda>k. V k \<noteq> None) (remdups ks))))])"
| "sem (TxType key) V = (V, [TInline (type_name (V key))])"
| "sem (TxExists ks) V = (V, [TInt (int (length (filter (\<lambda>k. V k \<noteq> None) ks)))])"
| "sem (TxRename a b) V =
     (case V a of
        None \<Rightarrow> (V, [TError msgKeyNotFound])
      | Some v \<Rightarrow> (V(b := Some v, a := None), [TInline ''OK'']))"
| "sem (TxRenamenx a b) V =
     (case V a of
        None \<Rightarrow> (V, [TError msgKeyNotFound])
      | Some v \<Rightarrow> if V b \<noteq> None then (V, [TInt 0]) else (V(b := Some v, a := None), [TInt 1]))"
| "sem TxDbsize V = (V, [TInt (int (card {k. V k \<noteq> None}))])"
| "sem TxFlushdb V = (\<lambda>_. None, [TInline ''OK''])"
| "sem TxUnwatch V = (V, [TInline ''OK''])"
| "sem (TxLindex key i) V =
     on_list V key [TNull] (\<lambda>l. let j = norm_index (length l) i
       in (V, [if 0 \<le> j \<and> j < int (length l) then TBulk (l ! nat j) else TNull]))"
| "sem (TxLlen key) V = on_list V key [TInt 0] (\<lambda>l. (V, [TInt (int (length l))]))"
| "sem (TxLrange key a b) V =
     on_list V key [TLen 0] (\<lambda>l. let r = range_ref a b l in (V, TLen (int (length r)) # map TBulk r))"
| "sem (TxLtrim key a b) V =
     on_list V key [TInline ''OK''] (\<lambda>l. (V(key := list_val (range_ref a b l)), [TInline ''OK'']))"
| "sem (TxLrem key cnt v) V =
     on_list V key [TInt 0] (\<lambda>l. let r = lrem_ref cnt v l
       in (V(key := list_val r), [TInt (int (length l) - int (length r))]))"
| "sem (TxLset key i v) V =
     on_list V key [TError msgKeyNotFound] (\<lambda>l. let j = norm_index (length l) i
       in if 0 \<le> j \<and> j < int (length l) then (V(key := Some (VList (l[nat j := v]))), [TInline ''OK''])
          else (V, [TError msgOutOfRange]))"
| "sem (TxLinsert key w pivot v) V =
     on_list V key [TInt 0] (\<lambda>l. let r = insert_near (w < 0) pivot v l
       in if pivot \<in> set l then (V(key := Some (VList r)), [TInt (int (length r))]) else (V, [TInt (-1)]))"
| "sem (TxXpop key lr) V =
     on_list V key [TNull] (\<lambda>l. (sem_pop key lr l V, [TBulk (fst (popped lr l))]))"
| "sem (TxXpush key vs lr) V = sem_push key vs lr V"
| "sem (TxXpushx key vs lr) V = (if V key = None then (V, [TInt 0]) else sem_push key vs lr V)"
| "sem (TxRpoplpush src dst) V = sem_transfer src dst V"
| "sem (TxBlocking (BRpoplpush src dst)) V = sem_transfer src dst V"
| "sem (TxBlocking (BXpop ks lr)) V =
     (case find (\<lambda>k. V k \<noteq> None) ks of
        None \<Rightarrow> (V, [TNull])
      | Some key \<Rightarrow>
          on_list V key [TNull] (\<lambda>l. (sem_pop key lr l V, [TLen 2, TBulk key, TBulk (fst (popped lr l))])))"
| "sem (TxSadd key es) V =
     (if is_list (V key) then (V, [TError msgWrongType])
      else let s = set_in V key; s' = s |\<union>| fset_of_list es
           in (V(key := Some (VSet s')), [TInt (int (fcard (s' |-| s)))]))"
| "sem (TxSrem key es) V =
     on_set V key [TInt 0] (\<lambda>s. let s' = s |-| fset_of_list es
       in (V(key := set_val s'), [TInt (int (fcard (s |-| s')))]))"
| "sem (TxScard key) V = on_set V key [TInt 0] (\<lambda>s. (V, [TInt (int (fcard s))]))"
| "sem (TxSismember key v) V = on_set V key [TInt 0] (\<lambda>s. (V, [TInt (if v |\<in>| s then 1 else 0)]))"
| "sem (TxSmembers key) V =
     on_set V key [TLen 0] (\<lambda>s. (V, TLen (int (fcard s)) # map TBulk (sorted_list_of_fset s)))"
| "sem (TxSmove src dst v) V =
     on_set V src [TInt 0] (\<lambda>s.
       if is_list (V dst) then (V, [TError msgWrongType])
       else if v |\<notin>| s then (V, [TInt 0])
       else let V' = V(src := set_val (s |-| {|v|}))
            in (V'(dst := Some (VSet (finsert v (set_in V' dst)))), [TInt 1]))"
| "sem (TxSdiffstore dest ks) V = sem_store dest (sem_diff V ks) V"
| "sem (TxSunionstore dest ks) V = sem_store dest (sem_union V ks) V"
| "sem (TxSinterstore dest ks) V = sem_store dest (sem_inter V ks) V"
| "sem _ V = (V, [])"

text \<open>
  Which closures have a meaning here, and when: not the random ones, those on several databases or
  patterns; the arguments excluded are those the handlers never pass, the two integers whose
  successor or negation wraps, and the rename of a key to itself.
\<close>

fun sem_ok :: "txCmd \<Rightarrow> keyspace \<Rightarrow> bool" where
  "sem_ok (TxDel ks) V = True"
| "sem_ok (TxType key) V = True"
| "sem_ok (TxExists ks) V = True"
| "sem_ok (TxRename a b) V = (a \<noteq> b \<or> V a = None)"
| "sem_ok (TxRenamenx a b) V = True"
| "sem_ok TxDbsize V = True"
| "sem_ok TxFlushdb V = True"
| "sem_ok TxUnwatch V = True"
| "sem_ok (TxLindex key i) V = True"
| "sem_ok (TxLlen key) V = True"
| "sem_ok (TxLrange key a b) V = (in_int b \<and> b \<noteq> max_int \<and> int (length (list_in V key)) \<le> max_int)"
| "sem_ok (TxLtrim key a b) V = (in_int b \<and> b \<noteq> max_int \<and> int (length (list_in V key)) \<le> max_int)"
| "sem_ok (TxLrem key cnt v) V = (in_int cnt \<and> cnt \<noteq> min_int)"
| "sem_ok (TxLset key i v) V = True"
| "sem_ok (TxLinsert key w pivot v) V = True"
| "sem_ok (TxXpop key lr) V = True"
| "sem_ok (TxXpush key vs lr) V = (vs \<noteq> [])"
| "sem_ok (TxXpushx key vs lr) V = (vs \<noteq> [])"
| "sem_ok (TxRpoplpush src dst) V = True"
| "sem_ok (TxBlocking b) V = True"
| "sem_ok (TxSadd key es) V = True"
| "sem_ok (TxSrem key es) V = True"
| "sem_ok (TxScard key) V = True"
| "sem_ok (TxSismember key v) V = True"
| "sem_ok (TxSmembers key) V = True"
| "sem_ok (TxSmove src dst v) V = True"
| "sem_ok (TxSdiffstore dest ks) V = (ks \<noteq> [])"
| "sem_ok (TxSunionstore dest ks) V = (ks \<noteq> [])"
| "sem_ok (TxSinterstore dest ks) V = (ks \<noteq> [])"
| "sem_ok _ V = False"

text \<open>
  The same for the server: the keyspaces of all databases, the selected one given. Only MOVE and
  FLUSHALL reach beyond the selected one.
\<close>

type_synonym keyspaces = "int \<Rightarrow> keyspace"

fun meaning :: "txCmd \<Rightarrow> int \<Rightarrow> keyspaces \<Rightarrow> keyspaces \<times> token list" where
  "meaning TxFlushall i W = (\<lambda>_ _. None, [TInline ''OK''])"
| "meaning (TxMove key target) i W =
     (if i = target then (W, [TError ''ERR source and destination objects are the same''])
      else if W i key = None \<or> W target key \<noteq> None then (W, [TInt 0])
      else (W(i := (W i)(key := None), target := (W target)(key := W i key)), [TInt 1]))"
| "meaning cb i W = (let (V, ts) = sem cb (W i) in (W(i := V), ts))"

fun meaningful :: "txCmd \<Rightarrow> int \<Rightarrow> keyspaces \<Rightarrow> bool" where
  "meaningful TxFlushall i W = True"
| "meaningful (TxMove key target) i W = True"
| "meaningful cb i W = sem_ok cb (W i)"

text \<open>A queue of commands, one after the other, and its replies in order.\<close>

fun meanings :: "txCmd list \<Rightarrow> int \<Rightarrow> keyspaces \<Rightarrow> keyspaces \<times> token list" where
  "meanings [] i W = (W, [])"
| "meanings (cb # cbs) i W =
     (let (W, ts) = meaning cb i W; (W, us) = meanings cbs i W in (W, ts @ us))"

fun all_meaningful :: "txCmd list \<Rightarrow> int \<Rightarrow> keyspaces \<Rightarrow> bool" where
  "all_meaningful [] i W = True"
| "all_meaningful (cb # cbs) i W \<longleftrightarrow>
     meaningful cb i W \<and> all_meaningful cbs i (fst (meaning cb i W))"

text \<open>The keyspaces a server stands for.\<close>

definition contents :: "RediQueue \<Rightarrow> keyspaces" where
  "contents m = (\<lambda>i. value_of (the_db m i))"

subsection \<open>Bodies\<close>

definition implements :: "RedisDB \<Rightarrow> (RedisDB \<times> token list) option \<Rightarrow> keyspace \<times> token list \<Rightarrow> bool" where
  "implements db res W \<longleftrightarrow>
     (\<exists>db'. res = Some (db', snd W) \<and> wf_db db' \<and> db_id db' = db_id db \<and> value_of db' = fst W)"

named_theorems implemented

lemma implements_read [simp]: "wf_db db \<Longrightarrow> implements db (Some (db, ts)) (value_of db, ts)"
  by (simp add: implements_def)

lemma implements_changed:
  "changed k v n db db' \<Longrightarrow> V = (value_of db)(k := v) \<Longrightarrow> ts = us \<Longrightarrow> implements db (Some (db', ts)) (V, us)"
  by (auto simp: implements_def changed_def)

lemma implements_evolves:
  "wf_db db' \<Longrightarrow> evolves g db db' \<Longrightarrow> value_of db' = V \<Longrightarrow> ts = us \<Longrightarrow> implements db (Some (db', ts)) (V, us)"
  by (auto simp: implements_def evolves_def)

lemma on_list_simps [simp]:
  "V k = None \<Longrightarrow> on_list V k absent f = (V, absent)"
  "V k = Some (VSet s) \<Longrightarrow> on_list V k absent f = (V, [TError msgWrongType])"
  "V k = Some (VList l) \<Longrightarrow> on_list V k absent f = f l"
  by (simp_all add: on_list_def)

lemma on_set_simps [simp]:
  "V k = None \<Longrightarrow> on_set V k absent f = (V, absent)"
  "V k = Some (VList l) \<Longrightarrow> on_set V k absent f = (V, [TError msgWrongType])"
  "V k = Some (VSet s) \<Longrightarrow> on_set V k absent f = f s"
  by (simp_all add: on_set_def)

lemma in_simps [simp]:
  "V k = None \<Longrightarrow> list_in V k = []" "V k = Some (VSet s) \<Longrightarrow> list_in V k = []"
  "V k = Some (VList l) \<Longrightarrow> list_in V k = l"
  "V k = None \<Longrightarrow> set_in V k = {||}" "V k = Some (VList l) \<Longrightarrow> set_in V k = {||}"
  "V k = Some (VSet s) \<Longrightarrow> set_in V k = s"
  by (simp_all add: list_in_def set_in_def)

lemma list_in_value: "wf_db db \<Longrightarrow> list_in (value_of db) k = list_at k db"
  by (cases rule: key_cases [of db k]) (simp_all add: key_facts)

lemma set_in_value: "wf_db db \<Longrightarrow> set_in (value_of db) k = set_at k db"
  by (cases rule: key_cases [of db k]) (simp_all add: lookup_simps)

lemma is_list_value: "is_list (value_of db k) = holds_list db k"
  by (cases rule: key_cases [of db k]) (simp_all add: holds_list_def)

lemma is_set_value: "is_set (value_of db k) = (\<not> list_or_absent db k)"
  by (cases rule: key_cases [of db k]) (simp_all add: list_or_absent_def)

lemmas value_in = list_in_value set_in_value is_list_value is_set_value

lemma insert_near_split:
  "pivot \<notin> set xs \<Longrightarrow> insert_near before pivot v (xs @ pivot # ys) =
     (if before then xs @ v # pivot # ys else xs @ pivot # v # ys)"
  by (induction xs) auto

lemma implements_lindex [implemented]:
  "wf_db db \<Longrightarrow> implements db (lindex_body key i db) (sem (TxLindex key i) (value_of db))"
  by (cases rule: key_cases [of db key]) (simp_all add: lindex_spec Let_def)

lemma implements_llen [implemented]:
  "wf_db db \<Longrightarrow> implements db (llen_body key db) (sem (TxLlen key) (value_of db))"
  by (cases rule: key_cases [of db key]) (simp_all add: llen_spec)

lemma implements_lrange [implemented]:
  assumes "wf_db db" "sem_ok (TxLrange key a b) (value_of db)"
  shows "implements db (lrange_body key a b db) (sem (TxLrange key a b) (value_of db))"
proof -
  have "lrange_body key a b db = Some (db, snd (sem (TxLrange key a b) (value_of db)))"
    by (subst lrange_spec [OF assms(1)], use assms(2) in \<open>auto simp: on_list_def Let_def split: option.split val.split\<close>)
  with assms(1) show ?thesis
    by (cases rule: key_cases [of db key]) (simp_all add: Let_def)
qed

lemma implements_ltrim [implemented]:
  assumes "wf_db db" "sem_ok (TxLtrim key a b) (value_of db)"
  shows "implements db (ltrim_body key a b db) (sem (TxLtrim key a b) (value_of db))"
proof (cases rule: key_cases [of db key])
  case (list l)
  from ltrim_spec [OF assms(1) list] assms(2) list obtain db'
    where "ltrim_body key a b db = Some (db', [TInline ''OK''])"
      "changed key (list_val (range_ref a b l)) 1 db db'" by fastforce
  with list show ?thesis by (simp add: implements_changed)
qed (use assms(1) in \<open>simp_all add: ltrim_body_def key_facts\<close>)

lemma implements_lrem [implemented]:
  assumes "wf_db db" "sem_ok (TxLrem key cnt v) (value_of db)"
  shows "implements db (lrem_body key cnt v db) (sem (TxLrem key cnt v) (value_of db))"
proof (cases rule: key_cases [of db key])
  case (list l)
  from assms(2) have "in_int cnt" "cnt \<noteq> min_int" by auto
  from lrem_spec [OF assms(1) this list, of v] list show ?thesis
    by (auto simp: Let_def intro: implements_changed)
qed (use assms(1) in \<open>simp_all add: lrem_body_def key_facts\<close>)

lemma implements_lset [implemented]:
  assumes "wf_db db"
  shows "implements db (lset_body key i v db) (sem (TxLset key i v) (value_of db))"
proof (cases rule: key_cases [of db key])
  case (list l)
  from lset_spec [OF assms list, of i v] list assms show ?thesis
    by (auto simp: Let_def intro: implements_changed split: if_splits)
qed (use assms in \<open>simp_all add: lset_body_def key_facts\<close>)

lemma implements_linsert [implemented]:
  assumes "wf_db db"
  shows "implements db (linsert_body key w pivot v db) (sem (TxLinsert key w pivot v) (value_of db))"
proof (cases rule: key_cases [of db key])
  case (list l)
  show ?thesis
  proof (cases "pivot \<in> set l")
    case True
    then obtain xs ys where l: "l = xs @ pivot # ys" "pivot \<notin> set xs" by (metis split_list_first)
    from linsert_spec(4) [OF assms list [unfolded l(1)] l(2), of w v] list l show ?thesis
      by (auto simp: insert_near_split Let_def intro!: implements_changed)
  qed (use assms list linsert_spec(3) [OF assms list] in \<open>simp add: Let_def\<close>)
qed (use assms in \<open>simp_all add: linsert_spec\<close>)

lemma implements_xpop [implemented]:
  assumes "wf_db db"
  shows "implements db (xpop_body key lr db) (sem (TxXpop key lr) (value_of db))"
proof (cases rule: key_cases [of db key])
  case (list l)
  from xpop_spec(3) [OF assms list, of lr] list show ?thesis
    by (auto simp: sem_pop_def intro: implements_changed)
qed (use assms in \<open>simp_all add: xpop_spec\<close>)

lemma implements_push:
  assumes "wf_db db" "vs \<noteq> []"
  shows "implements db (xpush_body key vs lr db) (sem_push key vs lr (value_of db))"
proof (cases "list_or_absent db key")
  case True
  from xpush_spec(2) [OF assms True, of lr] True assms(1) show ?thesis
    by (auto simp: sem_push_def value_in Let_def intro: implements_changed)
next
  case False
  then obtain s where "value_of db key = Some (VSet s)"
    by (cases rule: key_cases [of db key]) (auto simp: list_or_absent_def)
  from xpush_spec(1) [OF assms this] False assms(1) show ?thesis
    by (simp add: sem_push_def value_in)
qed

lemma implements_xpush [implemented]:
  "wf_db db \<Longrightarrow> sem_ok (TxXpush key vs lr) (value_of db) \<Longrightarrow>
     implements db (xpush_body key vs lr db) (sem (TxXpush key vs lr) (value_of db))"
  by (simp add: implements_push)

lemma implements_xpushx [implemented]:
  "wf_db db \<Longrightarrow> sem_ok (TxXpushx key vs lr) (value_of db) \<Longrightarrow>
     implements db (xpushx_body key vs lr db) (sem (TxXpushx key vs lr) (value_of db))"
  by (simp add: xpushx_spec implements_push)

lemma rotated_eq:
  "wf_db db \<Longrightarrow> rotated src dst db l =
     (let V = sem_pop src Right l (value_of db) in V(dst := Some (VList (last l # list_in V dst))))"
  if "value_of db src = Some (VList l)"
  using that by (auto simp: rotated_def sem_pop_def popped_def list_val_def list_in_def list_in_value [symmetric] Let_def)

lemma implements_transfer:
  assumes "wf_db db"
  shows "implements db (rpoplpush_body src dst db) (sem_transfer src dst (value_of db))"
proof (cases rule: key_cases [of db src])
  case (list l)
  show ?thesis
  proof (cases "list_or_absent db dst")
    case True
    from rpoplpush_body_spec(4) [OF assms list True] obtain db' g
      where "rpoplpush_body src dst db = Some (db', [TBulk (last l)])" "wf_db db'" "evolves g db db'"
        "value_of db' = rotated src dst db l" by blast
    then show ?thesis using True list
      by (simp add: sem_transfer_def is_set_value rotated_eq [OF list assms] Let_def implements_evolves)
  next
    case False
    then obtain s where s: "value_of db dst = Some (VSet s)"
      by (cases rule: key_cases [of db dst]) (auto simp: list_or_absent_def)
    from rpoplpush_body_spec(3) [OF assms list s] list s assms show ?thesis by (simp add: sem_transfer_def)
  qed
qed (use assms in \<open>simp_all add: sem_transfer_def rpoplpush_body_spec\<close>)

lemma implements_rpoplpush [implemented]:
  "wf_db db \<Longrightarrow> implements db (rpoplpush_body src dst db) (sem (TxRpoplpush src dst) (value_of db))"
  by (simp add: implements_transfer)

lemma implements_sadd [implemented]:
  assumes "wf_db db"
  shows "implements db (sadd_body key es db) (sem (TxSadd key es) (value_of db))"
proof (cases "holds_list db key")
  case True
  with sadd_spec(1) [OF assms True] assms show ?thesis by (simp add: is_list_value)
next
  case False
  have eq: "(s |\<union>| t) |-| s = t |-| s" for s t :: setKey by auto
  from sadd_spec(2) [OF assms, of key es] False show ?thesis
    by (auto simp: is_list_value set_in_value [OF assms] set_or_absent_iff Let_def eq intro: implements_changed)
qed

lemma implements_srem [implemented]:
  assumes "wf_db db"
  shows "implements db (srem_body key es db) (sem (TxSrem key es) (value_of db))"
proof (cases rule: key_cases [of db key])
  case (set s)
  have eq: "s |-| (s |-| t) = s |\<inter>| t" for t by auto
  from srem_spec [OF assms set, of es] set show ?thesis
    by (auto simp: Let_def eq intro: implements_changed)
qed (use assms in \<open>simp_all add: srem_body_def key_facts\<close>)

lemma implements_scard [implemented]:
  "wf_db db \<Longrightarrow> implements db (scard_body key db) (sem (TxScard key) (value_of db))"
  by (cases rule: key_cases [of db key]) (simp_all add: scard_spec holds_list_def lookup_simps fcard_fempty)

lemma implements_sismember [implemented]:
  "wf_db db \<Longrightarrow> implements db (sismember_body key v db) (sem (TxSismember key v) (value_of db))"
  by (cases rule: key_cases [of db key]) (simp_all add: sismember_spec holds_list_def lookup_simps)

lemma implements_smembers [implemented]:
  "wf_db db \<Longrightarrow> implements db (smembers_body key db) (sem (TxSmembers key) (value_of db))"
  by (cases rule: key_cases [of db key]) (simp_all add: smembers_spec holds_list_def lookup_simps fcard_fempty)

lemma implements_smove [implemented]:
  assumes "wf_db db"
  shows "implements db (smove_body src dst v db) (sem (TxSmove src dst v) (value_of db))"
proof (cases rule: key_cases [of db src])
  case (set s)
  note noop = smove_noop(3,4) [OF assms set]
  show ?thesis
  proof (cases "v |\<in>| s \<and> set_or_absent db dst")
    case True
    then have "moved src dst v db s = fst (sem (TxSmove src dst v) (value_of db))"
      using set by (auto simp: moved_def set_or_absent_iff is_list_value Let_def set_in_def set_val_def
          set_in_value [OF assms, symmetric] fun_eq_iff)
    with smove_spec [OF assms set, of v dst] True set show ?thesis
      by (auto simp: set_or_absent_iff is_list_value Let_def intro: implements_evolves)
  next
    case False
    with noop assms set show ?thesis by (auto simp: set_or_absent_iff is_list_value)
  qed
qed (use assms in \<open>simp_all add: smove_noop holds_list_def\<close>)

text \<open>The set operations, and the commands that store their result.\<close>

lemma fold_union: "fold (\<lambda>k s. s |\<union>| f k) ks s = s |\<union>| ffUnion (fset_of_list (map f ks))"
  by (induction ks arbitrary: s) (auto simp: funion_assoc)

lemma sem_diff_eq: "wf_db db \<Longrightarrow> setDiff (k # ks) db =
    Some (case sem_diff (value_of db) (k # ks) of None \<Rightarrow> Inl msgWrongType | Some s \<Rightarrow> Inr s)"
  by (auto simp: setDiff_spec sem_diff_def value_in list_ex_iff list_all_iff)

lemma sem_union_eq: "wf_db db \<Longrightarrow> setUnion (k # ks) db =
    Some (case sem_union (value_of db) (k # ks) of None \<Rightarrow> Inl msgWrongType | Some s \<Rightarrow> Inr s)"
  by (auto simp: setUnion_spec sem_union_def value_in list_ex_iff fold_union)

lemma sem_inter_eq: "wf_db db \<Longrightarrow> setInter (k # ks) db =
    Some (case sem_inter (value_of db) (k # ks) of None \<Rightarrow> Inl msgWrongType | Some s \<Rightarrow> Inr s)"
proof -
  assume wf: "wf_db db"
  have eq: "(is_set (value_of db j) \<longrightarrow> e |\<in>| set_at j db) \<longleftrightarrow> (\<forall>t. value_of db j = Some (VSet t) \<longrightarrow> e |\<in>| t)" for j e
    using wf by (cases rule: key_cases [of db j]) (simp_all add: lookup_simps)
  show ?thesis
    by (simp add: setInter_spec [OF wf] sem_inter_def is_list_value set_in_value [OF wf] list_all_iff eq)
qed

context set_operation
begin

lemma implements_store:
  assumes "wf_db db"
    and "setop (k # ks) db = Some (case r of None \<Rightarrow> Inl msgWrongType | Some s \<Rightarrow> Inr s)"
  shows "implements db (store_set setop dest (k # ks) db) (sem_store dest r (value_of db))"
proof (cases r)
  case None
  with assms show ?thesis by (simp add: store_set_def sem_store_def)
next
  case (Some s)
  with assms store_set_spec [of db k ks s dest] show ?thesis
    by (auto simp: sem_store_def intro: implements_changed)
qed

end

lemma implements_diffstore [implemented]:
  assumes "wf_db db" "sem_ok (TxSdiffstore dest ks) (value_of db)"
  shows "implements db (sdiffstore_body dest ks db) (sem (TxSdiffstore dest ks) (value_of db))"
  using assms diff.implements_store [OF assms(1) sem_diff_eq [OF assms(1)]]
  by (cases ks) (simp_all add: sdiffstore_body_def)

lemma implements_unionstore [implemented]:
  assumes "wf_db db" "sem_ok (TxSunionstore dest ks) (value_of db)"
  shows "implements db (sunionstore_body dest ks db) (sem (TxSunionstore dest ks) (value_of db))"
  using assms union.implements_store [OF assms(1) sem_union_eq [OF assms(1)]]
  by (cases ks) (simp_all add: sunionstore_body_def)

lemma implements_interstore [implemented]:
  assumes "wf_db db" "sem_ok (TxSinterstore dest ks) (value_of db)"
  shows "implements db (sinterstore_body dest ks db) (sem (TxSinterstore dest ks) (value_of db))"
  using assms inter.implements_store [OF assms(1) sem_inter_eq [OF assms(1)]]
  by (cases ks) (simp_all add: sinterstore_body_def)

text \<open>The generic commands.\<close>

lemma implements_del [implemented]:
  assumes "wf_db db"
  shows "implements db (del_body ks db) (sem (TxDel ks) (value_of db))"
proof -
  have "card {k \<in> set ks. value_of db k \<noteq> None} = length (filter (\<lambda>k. value_of db k \<noteq> None) (remdups ks))"
    using distinct_card [of "filter (\<lambda>k. value_of db k \<noteq> None) (remdups ks)"] by simp
  with del_loop_spec [OF assms, of ks 0] show ?thesis
    by (auto simp: del_body_def implements_def evolves_def)
qed

lemma implements_type [implemented]:
  "wf_db db \<Longrightarrow> implements db (type_body key db) (sem (TxType key) (value_of db))"
  by (cases rule: key_cases [of db key]) (simp_all add: type_body_def key_facts)

lemma implements_exists [implemented]:
  "wf_db db \<Longrightarrow> implements db (exists_body ks db) (sem (TxExists ks) (value_of db))"
  by (simp add: exists_body_def exists_loop_eq)

lemma implements_rename [implemented]:
  assumes "wf_db db" "sem_ok (TxRename a b) (value_of db)"
  shows "implements db (rename_body a b db) (sem (TxRename a b) (value_of db))"
proof (cases "value_of db a")
  case (Some v)
  with rename_spec(1) [OF assms(1) Some, of b] assms(2) show ?thesis
    by (auto intro: implements_evolves)
qed (use assms(1) in \<open>simp add: rename_body_def db_exists_iff\<close>)

lemma implements_renamenx [implemented]:
  assumes "wf_db db"
  shows "implements db (renamenx_body a b db) (sem (TxRenamenx a b) (value_of db))"
proof (cases "value_of db a")
  case None
  with assms show ?thesis by (simp add: renamenx_body_def db_exists_iff)
next
  case (Some v)
  show ?thesis
  proof (cases "value_of db b")
    case None
    with Some have "a \<noteq> b" by auto
    from rename_spec(1) [OF assms Some this] Some None assms show ?thesis
      by (auto simp: renamenx_eq intro: implements_evolves)
  qed (use assms Some in \<open>simp add: renamenx_eq\<close>)
qed

lemma implements_dbsize [implemented]:
  "wf_db db \<Longrightarrow> implements db (dbsize_body db) (sem TxDbsize (value_of db))"
proof -
  have "fset (fmdom (keys db)) = {k. value_of db k \<noteq> None}" using fmdom_keys by blast
  then show "wf_db db \<Longrightarrow> ?thesis" by (simp add: dbsize_body_def fcard.rep_eq)
qed

lemma implements_flushdb [implemented]:
  "wf_db db \<Longrightarrow> implements db (flushdb_body db) (sem TxFlushdb (value_of db))"
  by (simp add: implements_def flushdb_body_def)

text \<open>A blocking command that runs inside a transaction: served at once, or a null reply.\<close>

definition one_try :: "RedisDB \<Rightarrow> (bool \<times> RedisDB \<times> token list) option \<Rightarrow> (RedisDB \<times> token list) option" where
  "one_try db res = map_option (\<lambda>(fin, db', ts). (db', if fin then ts else [TNull])) res"

lemma implements_block [implemented]:
  assumes "wf_db db"
  shows "implements db (one_try db (block_body b db)) (sem (TxBlocking b) (value_of db))"
proof (cases b)
  case (BRpoplpush src dst)
  have "one_try db (brpoplpush_body src dst db) = rpoplpush_body src dst db"
    using rpoplpush_body_spec(1) [OF assms, of src dst]
    by (auto simp: one_try_def brpoplpush_eq [OF assms] option.map_comp option.map_ident o_def case_prod_unfold)
  with implements_transfer [OF assms] BRpoplpush show ?thesis by simp
next
  case (BXpop ks lr)
  show ?thesis
  proof (cases "find (\<lambda>k. value_of db k \<noteq> None) ks")
    case None
    with assms BXpop show ?thesis by (simp add: bxpop_eq one_try_def)
  next
    case (Some key)
    then have "value_of db key \<noteq> None" by (auto simp: find_Some_iff)
    then show ?thesis
    proof (cases rule: key_cases [of db key])
      case (list l)
      from pop_spec [OF assms list, of lr] obtain db' n where
        "pop lr key db = Some (fst (popped lr l), db')" "changed key (list_val (snd (popped lr l))) n db db'" .
      with BXpop Some list assms show ?thesis
        by (auto simp: bxpop_eq one_try_def sem_pop_def intro: implements_changed)
    qed (use BXpop Some assms in \<open>simp_all add: bxpop_eq one_try_def\<close>)
  qed
qed

subsection \<open>Commands and transactions\<close>

text \<open>A call of a closure gives the replies and the keyspaces of \<open>W\<close>.\<close>

definition performs :: "(RediQueue \<times> peer) option \<Rightarrow> RediQueue \<Rightarrow> peer \<Rightarrow> keyspaces \<times> token list \<Rightarrow> bool" where
  "performs res m c W \<longleftrightarrow>
     (\<exists>m'. res = Some (m', emit (snd W) c) \<and> wf_m m' \<and> same_env m m' \<and> contents m' = fst W)"

lemma performs_on_db:
  assumes "wf_m m" "implements (the_db m (selectedDB (ctx c))) (f (the_db m (selectedDB (ctx c)))) W"
  shows "performs (on_db (det f) m c) m c ((contents m)(selectedDB (ctx c) := fst W), snd W)"
proof -
  let ?i = "selectedDB (ctx c)"
  have id: "db_id (the_db m ?i) = ?i" using assms(1) by auto
  obtain db' where r: "f (the_db m ?i) = Some (db', snd W)" "wf_db db'" "db_id db' = ?i" "value_of db' = fst W"
    using assms(2) id by (auto simp: implements_def)
  let ?m' = "put_db ?i db' (snd (m_db ?i m))\<lparr>rand := rand m\<rparr>"
  have "on_db (det f) m c = Some (?m', emit (snd W) c)"
    using r(1) by (simp add: on_db_def det_def case_prod_unfold Let_def)
  moreover have "wf_m ?m'" using wf_m_put [OF _ r(2,3), of "snd (m_db ?i m)"] assms(1) by simp
  moreover have "same_env m ?m'" by (simp add: same_env_def)
  moreover have "contents ?m' = (contents m)(?i := fst W)" using r(4) by (auto simp: contents_def fun_eq_iff)
  ultimately show ?thesis by (auto simp: performs_def)
qed

lemma performs_block:
  assumes "wf_m m"
  shows "performs (blocking_cb b m c) m c
    ((contents m)(selectedDB (ctx c) := fst (sem (TxBlocking b) (contents m (selectedDB (ctx c))))),
     snd (sem (TxBlocking b) (contents m (selectedDB (ctx c)))))"
proof -
  let ?i = "selectedDB (ctx c)" and ?W = "sem (TxBlocking b) (contents m (selectedDB (ctx c)))"
  have wf: "wf_db (the_db m ?i)" and id: "db_id (the_db m ?i) = ?i" using assms by auto
  from implements_block [OF wf, of b] id obtain fin db' ts where
    r: "block_body b (the_db m ?i) = Some (fin, db', ts)" "wf_db db'" "db_id db' = ?i"
      "value_of db' = fst ?W" and ts: "snd ?W = (if fin then ts else [TNull])"
    by (auto simp: implements_def one_try_def contents_def)
  have "serves (the_db m ?i) (block_body b (the_db m ?i))"
    by (cases b) (simp_all add: serves_bxpop serves_brpoplpush wf)
  with r(1) have none: "\<not> fin \<Longrightarrow> ts = []" by (auto simp: serves_def)
  let ?m' = "put_db ?i db' (snd (m_db ?i m))"
  have "blocking_cb b m c = Some (?m', emit (snd ?W) c)"
    using r(1) ts none by (auto simp: blocking_cb_def run_block_def onTimeout_def WriteNull_def case_prod_unfold Let_def)
  moreover have "wf_m ?m'" using wf_m_put [OF _ r(2,3), of "snd (m_db ?i m)"] assms by simp
  moreover have "same_env m ?m'" by (simp add: same_env_def)
  moreover have "contents ?m' = (contents m)(?i := fst ?W)" using r(4) by (auto simp: contents_def fun_eq_iff)
  ultimately show ?thesis by (auto simp: performs_def)
qed

lemma performs_move:
  assumes "wf_m m"
  shows "performs (move_cb key target m c) m c (meaning (TxMove key target) (selectedDB (ctx c)) (contents m))"
proof (cases "selectedDB (ctx c) = target")
  case True
  with assms show ?thesis by (simp add: move_cb_def performs_def WriteError_def)
next
  case False
  let ?i = "selectedDB (ctx c)"
  obtain b m' where r: "move_cb key target m c = Some (m', WriteInt (if b then 1 else 0) c)" and env: "same_env m m'"
    and b: "b \<longleftrightarrow> value_of (the_db m ?i) key \<noteq> None \<and> value_of (the_db m target) key = None"
    and d: "if b then
       changed key None 1 (the_db m ?i) (the_db m' ?i) \<and>
       changed key (value_of (the_db m ?i) key) 1 (the_db m target) (the_db m' target) \<and>
       (\<forall>j. j \<noteq> ?i \<longrightarrow> j \<noteq> target \<longrightarrow> the_db m' j = the_db m j)
     else \<forall>j. the_db m' j = the_db m j"
    using move_cb_spec [OF assms False, of key] by blast
  have wf: "wf_m m'" using move.cb_wf [OF assms r] .
  have "contents m' = fst (meaning (TxMove key target) ?i (contents m))"
    using b d False by (auto simp: contents_def changed_def fun_eq_iff split: if_splits)
  moreover have "WriteInt (if b then 1 else 0) c = emit (snd (meaning (TxMove key target) ?i (contents m))) c"
    using b False by (auto simp: WriteInt_def contents_def)
  ultimately show ?thesis using r env wf by (simp add: performs_def)
qed

lemma performs_flushall:
  assumes "wf_m m"
  shows "performs (flushall_cb m c) m c (meaning TxFlushall i (contents m))"
proof -
  have eq: "flushall_cb m c = Some (flushAll m, emit [TInline ''OK''] c)"
    by (simp add: flushall_cb_def write_defs)
  have "value_of (the_db (flushAll m) j) = (\<lambda>_. None)" for j
    by (simp add: the_db_flushAll)
  moreover from eq flushall.cb_wf [OF assms eq] flushall.cb_env [OF assms eq]
  have "wf_m (flushAll m)" "same_env m (flushAll m)" by simp_all
  ultimately show ?thesis using eq by (simp add: performs_def contents_def fun_eq_iff)
qed

lemma performs_unwatch:
  "wf_m m \<Longrightarrow> performs (unwatch_cb m c) m c (meaning TxUnwatch i (contents m))"
  by (simp add: performs_def unwatch_cb_def WriteOK_def WriteInline_def)

text \<open>Every closure that has a meaning performs it.\<close>

lemma run_performs:
  assumes wf: "wf_m m" and ok: "meaningful cb (selectedDB (ctx c)) (contents m)"
  shows "performs (run_txCmd cb m c) m c (meaning cb (selectedDB (ctx c)) (contents m))"
proof -
  let ?i = "selectedDB (ctx c)"
  have eq: "value_of (the_db m ?i) = contents m ?i" by (simp add: contents_def)
  have wfd: "wf_db (the_db m ?i)" using wf by auto
  note body = implemented [OF wfd, unfolded eq]
  have one: "implements (the_db m ?i) (f (the_db m ?i)) (sem cb (contents m ?i)) \<Longrightarrow>
      performs (on_db (det f) m c) m c
        ((contents m)(?i := fst (sem cb (contents m ?i))), snd (sem cb (contents m ?i)))" for f cb
    by (rule performs_on_db [OF wf])
  show ?thesis
  proof (cases cb)
    case TxFlushall
    with performs_flushall [OF wf] show ?thesis by (metis run_txCmd.simps(3))
  next
    case TxUnwatch
    with performs_unwatch [OF wf] show ?thesis by (metis run_txCmd.simps(5))
  next
    case (TxMove key target)
    with performs_move [OF wf] show ?thesis by (metis run_txCmd.simps(9))
  qed (use ok in \<open>simp_all add: case_prod_unfold Let_def one body performs_block [OF wf] del: sem.simps\<close>)
qed

lemma run_all_performs:
  assumes "wf_m m" "all_meaningful cbs (selectedDB (ctx c)) (contents m)"
  shows "performs (run_all run_txCmd cbs m c) m c (meanings cbs (selectedDB (ctx c)) (contents m))"
  using assms
proof (induction cbs arbitrary: m c)
  case Nil
  then show ?case by (simp add: performs_def)
next
  case (Cons cb cbs)
  let ?i = "selectedDB (ctx c)"
  let ?W = "meaning cb ?i (contents m)"
  from run_performs [OF Cons.prems(1), of cb c] Cons.prems(2) obtain m1 where
    r: "run_txCmd cb m c = Some (m1, emit (snd ?W) c)" "wf_m m1" "same_env m m1" "contents m1 = fst ?W"
    by (auto simp: performs_def)
  from Cons.IH [OF r(2), of "emit (snd ?W) c"] Cons.prems(2) r(4) obtain m2 where
    "run_all run_txCmd cbs m1 (emit (snd ?W) c) = Some (m2, emit (snd (meanings cbs ?i (contents m1))) (emit (snd ?W) c))"
    "wf_m m2" "same_env m1 m2" "contents m2 = fst (meanings cbs ?i (contents m1))"
    by (auto simp: performs_def)
  with r same_env_trans [OF r(3)] show ?case
    by (auto simp: performs_def case_prod_unfold Let_def)
qed

lemma contents_eq: "\<forall>i. the_db m' i = the_db m i \<Longrightarrow> contents m' = contents m"
  by (simp add: contents_def)

lemma contents_Broadcast [simp]: "contents (Broadcast m) = contents m"
  by (simp add: contents_def)

lemma exec_performs:
  assumes "wf_m m" "may_use m c" "transaction (ctx c) = Some cbs" "\<not> dirtyTransaction (ctx c)"
    and "\<not> stale m (watching (ctx c))" "all_meaningful cbs (selectedDB (ctx c)) (contents m)"
  shows "\<exists>m' c'. cmdExec m c cmd [] = Some (Finished m' c') \<and> \<not> inTx c' \<and>
    contents m' = fst (meanings cbs (selectedDB (ctx c)) (contents m)) \<and>
    wbuf c' = wbuf c @ TLen (int (length cbs)) # snd (meanings cbs (selectedDB (ctx c)) (contents m))"
proof -
  from exec_cases [OF assms(2-4), of cmd] assms(5) obtain m1 where
    m1: "\<forall>i. the_db m1 i = the_db m i" and
    ex: "cmdExec m c cmd [] = do {
         (m, c) \<leftarrow> run_all run_txCmd cbs m1 (WriteLen (int (length cbs)) (getCtx c));
         Some (Finished (Broadcast m) (stopTx c))
       }" by (metis (no_types, lifting))
  let ?c = "WriteLen (int (length cbs)) (getCtx c)"
  have sel: "selectedDB (ctx ?c) = selectedDB (ctx c)" by (simp add: write_defs)
  have wf1: "wf_m m1" using m1 assms(1) by (simp add: wf_m_def)
  from run_all_performs [OF wf1, of cbs ?c] assms(6) sel contents_eq [OF m1] obtain m2 where
    "run_all run_txCmd cbs m1 ?c = Some (m2, emit (snd (meanings cbs (selectedDB (ctx c)) (contents m))) ?c)"
    "contents m2 = fst (meanings cbs (selectedDB (ctx c)) (contents m))"
    by (auto simp: performs_def)
  with ex show ?thesis by (simp add: inTx_def write_defs)
qed

end
