(* ===== verification/Choices.thy ===== *)
theory Choices
  imports Semantics
begin

text \<open>
  The commands whose outcome the machine of theory Semantics does not determine: those that choose at random, list
  a set in the order Go iterates over a map, or match patterns with the regular expression package \<open>re\<close>.
  \<open>allowed\<close> says which contents and which reply each may leave; with it every closure of the source has a meaning.
\<close>

definition bulks :: "string list \<Rightarrow> token list" where
  "bulks xs = TLen (int (length xs)) # map TBulk xs"

definition page :: "string list \<Rightarrow> token list" where
  "page xs = TLen 2 # TBulk ''0'' # bulks xs"

definition keys_in :: "keyspace \<Rightarrow> string list" where
  "keys_in V = sorted_list_of_set {k. V k \<noteq> None}"

definition matched :: "(string \<Rightarrow> (string \<Rightarrow> bool) option) \<Rightarrow> string option \<Rightarrow> string list \<Rightarrow> string list \<Rightarrow> bool" where
  "matched re match xs ys \<longleftrightarrow> (case match of None \<Rightarrow> ys = xs | Some p \<Rightarrow> matchKeys re xs p = Some ys)"

text \<open>The members of a set, each once, in any order.\<close>

definition members_reply :: "setKey option \<Rightarrow> token list \<Rightarrow> bool" where
  "members_reply r ts \<longleftrightarrow>
     (case r of
        None \<Rightarrow> ts = [TError msgWrongType]
      | Some s \<Rightarrow> \<exists>xs. distinct xs \<and> set xs = fset s \<and> ts = bulks xs)"

text \<open>SPOP of \<open>n\<close> members, with or without a count given.\<close>

definition spopped :: "string \<Rightarrow> int \<Rightarrow> bool \<Rightarrow> keyspace \<Rightarrow> keyspace \<Rightarrow> token list \<Rightarrow> bool" where
  "spopped key n wc V V' ts \<longleftrightarrow>
     (case V key of
        None \<Rightarrow> V' = V \<and> ts = (if wc then [TLen 0] else [TNull])
      | Some (VList l) \<Rightarrow> V' = V \<and> ts = [TError msgWrongType]
      | Some (VSet s) \<Rightarrow>
          \<exists>ds. distinct ds \<and> set ds \<subseteq> fset s \<and> length ds = min (nat n) (fcard s) \<and>
            V' = (if ds = [] then V else V(key := set_val (s |-| fset_of_list ds))) \<and>
            ts = (if wc then bulks ds else case ds of [] \<Rightarrow> [TNull] | d # _ \<Rightarrow> [TBulk d]))"

definition picked :: "setKey \<Rightarrow> int \<Rightarrow> bool \<Rightarrow> token list \<Rightarrow> bool" where
  "picked s cnt wc ts \<longleftrightarrow>
     (if \<not> wc then \<exists>x. x |\<in>| s \<and> ts = [TBulk x]
      else \<exists>xs. set xs \<subseteq> fset s \<and> ts = bulks xs \<and>
        (if cnt < 0 then length xs = nat (- cnt) else distinct xs \<and> length xs = min (nat cnt) (fcard s)))"

fun allowed :: "(string \<Rightarrow> (string \<Rightarrow> bool) option) \<Rightarrow> txCmd \<Rightarrow> keyspace \<Rightarrow> keyspace \<Rightarrow> token list \<Rightarrow> bool" where
  "allowed re TxRandomkey V V' ts \<longleftrightarrow>
     V' = V \<and> (if V = Map.empty then ts = [TNull] else \<exists>k. V k \<noteq> None \<and> ts = [TBulk k])"
| "allowed re (TxKeys p) V V' ts \<longleftrightarrow> V' = V \<and> (\<exists>xs. matched re (Some p) (keys_in V) xs \<and> ts = bulks xs)"
| "allowed re (TxScan cursor match) V V' ts \<longleftrightarrow>
     V' = V \<and> (if cursor \<noteq> 0 then ts = page [] else \<exists>xs. matched re match (keys_in V) xs \<and> ts = page xs)"
| "allowed re (TxSscan key cursor match) V V' ts \<longleftrightarrow>
     V' = V \<and>
     (if cursor \<noteq> 0 then ts = page []
      else if is_list (V key) then ts = [TError msgWrongType]
      else \<exists>xs. matched re match (sorted_list_of_fset (set_in V key)) xs \<and> ts = page xs)"
| "allowed re (TxSdiff ks) V V' ts \<longleftrightarrow> V' = V \<and> members_reply (sem_diff V ks) ts"
| "allowed re (TxSunion ks) V V' ts \<longleftrightarrow> V' = V \<and> members_reply (sem_union V ks) ts"
| "allowed re (TxSinter ks) V V' ts \<longleftrightarrow> V' = V \<and> members_reply (sem_inter V ks) ts"
| "allowed re (TxSpop key args) V V' ts \<longleftrightarrow>
     (case args of
        [] \<Rightarrow> spopped key 1 False V V' ts
      | a # rest \<Rightarrow>
          (case Atoi a of
             None \<Rightarrow> V' = V \<and> ts = [TError msgInvalidInt]
           | Some n \<Rightarrow>
               if rest \<noteq> [] then V' = V \<and> ts = [TError msgInvalidInt] else spopped key n True V V' ts))"
| "allowed re (TxSrandmember key cnt wc) V V' ts \<longleftrightarrow>
     V' = V \<and>
     (case V key of
        None \<Rightarrow> ts = [TNull]
      | Some (VList l) \<Rightarrow> ts = [TError msgWrongType]
      | Some (VSet s) \<Rightarrow> picked s cnt wc ts)"
| "allowed re cb V V' ts \<longleftrightarrow> (V', ts) = sem cb V"

text \<open>The closures that are new here, and the requirements on all.\<close>

fun chooses :: "txCmd \<Rightarrow> bool" where
  "chooses TxRandomkey = True"
| "chooses (TxKeys p) = True"
| "chooses (TxScan cursor match) = True"
| "chooses (TxSscan key cursor match) = True"
| "chooses (TxSdiff ks) = True"
| "chooses (TxSunion ks) = True"
| "chooses (TxSinter ks) = True"
| "chooses (TxSpop key args) = True"
| "chooses (TxSrandmember key cnt wc) = True"
| "chooses _ = False"

definition covered :: "txCmd \<Rightarrow> int \<Rightarrow> keyspaces \<Rightarrow> bool" where
  "covered cb i W \<longleftrightarrow> (if chooses cb then tx_ok cb else meaningful cb i W)"

definition yields :: "(string \<Rightarrow> (string \<Rightarrow> bool) option) \<Rightarrow> txCmd \<Rightarrow> int \<Rightarrow> keyspaces \<Rightarrow> keyspaces \<Rightarrow> token list \<Rightarrow> bool" where
  "yields re cb i W W' ts \<longleftrightarrow>
     (if chooses cb then \<exists>V'. W' = W(i := V') \<and> allowed re cb (W i) V' ts else (W', ts) = meaning cb i W)"

subsection \<open>Bodies\<close>

definition may :: "RedisDB \<Rightarrow> (RedisDB \<times> rng \<times> token list) option \<Rightarrow> (keyspace \<Rightarrow> token list \<Rightarrow> bool) \<Rightarrow> bool" where
  "may db res P \<longleftrightarrow> (\<forall>db' r ts. res = Some (db', r, ts) \<longrightarrow> P (value_of db') ts)"

lemma keys_in_value: "keys_in (value_of db) = allKeys db"
proof -
  have "fset (fmdom (keys db)) = {k. value_of db k \<noteq> None}" using fmdom_keys by blast
  then show ?thesis by (simp add: keys_in_def allKeys_def sorted_list_of_fset.rep_eq)
qed

lemma may_randomkey: "may db (randomkey_body r db) (allowed re TxRandomkey (value_of db))"
  using randomkey_spec [of r db] by (auto simp: may_def)

lemma may_keys: "may db (det (keys_body re p) r db) (allowed re (TxKeys p) (value_of db))"
  by (auto simp: may_def det_def keys_body_def matched_def keys_in_value bulks_def)

lemma may_scan: "may db (det (scan_body re cursor match) r db) (allowed re (TxScan cursor match) (value_of db))"
  by (auto simp: may_def det_def scan_body_def matched_def keys_in_value bulks_def page_def Let_def split: option.splits)

lemma may_sscan:
  assumes "wf_db db"
  shows "may db (det (sscan_body re key cursor match) r db) (allowed re (TxSscan key cursor match) (value_of db))"
  using not_set_iff [OF assms, of key]
  by (auto simp: may_def det_def sscan_body_def matched_def bulks_def page_def is_list_value set_in_value [OF assms]
      setMembers_def Let_def split: option.splits)

lemma may_list_set:
  assumes "wf_db db"
    and "setop (k # ks) db = Some (case res of None \<Rightarrow> Inl msgWrongType | Some s \<Rightarrow> Inr s)"
  shows "may db (list_set setop (k # ks) r db) (\<lambda>V ts. V = value_of db \<and> members_reply res ts)"
proof (cases res)
  case None
  with assms(2) show ?thesis by (simp add: may_def list_set_def members_reply_def)
next
  case (Some s)
  obtain order r' where o: "range_order r (sorted_list_of_fset s) = (order, r')" by force
  then have m: "mset order = mset (sorted_list_of_fset s)" by (metis fst_conv mset_range_order)
  have "set order = fset s" using m by (metis set_mset_mset sorted_list_of_fset_simps(1))
  moreover have "distinct order" using m by (metis mset_eq_imp_distinct_iff sorted_list_of_fset.rep_eq distinct_sorted_list_of_set)
  moreover have "length order = fcard s" using calculation by (metis distinct_card fcard.rep_eq)
  ultimately show ?thesis using assms(2) Some o
    by (auto simp: may_def list_set_def members_reply_def bulks_def)
qed

lemma may_sdiff:
  assumes "wf_db db" "tx_ok (TxSdiff ks)"
  shows "may db (sdiff_body ks r db) (allowed re (TxSdiff ks) (value_of db))"
proof -
  obtain k js where ks: "ks = k # js" using assms(2) by (cases ks) simp_all
  show ?thesis unfolding sdiff_body_def ks allowed.simps by (intro may_list_set sem_diff_eq assms(1))
qed

lemma may_sunion:
  assumes "wf_db db" "tx_ok (TxSunion ks)"
  shows "may db (sunion_body ks r db) (allowed re (TxSunion ks) (value_of db))"
proof -
  obtain k js where ks: "ks = k # js" using assms(2) by (cases ks) simp_all
  show ?thesis unfolding sunion_body_def ks allowed.simps by (intro may_list_set sem_union_eq assms(1))
qed

lemma may_sinter:
  assumes "wf_db db" "tx_ok (TxSinter ks)"
  shows "may db (sinter_body ks r db) (allowed re (TxSinter ks) (value_of db))"
proof -
  obtain k js where ks: "ks = k # js" using assms(2) by (cases ks) simp_all
  show ?thesis unfolding sinter_body_def ks allowed.simps by (intro may_list_set sem_inter_eq assms(1))
qed

lemma may_spop:
  assumes "wf_db db"
  shows "may db (spop_body key n wc r db) (spopped key n wc (value_of db))"
proof (cases rule: key_cases [of db key])
  case (set s)
  have k: "set_at key db = s" "set_or_absent db key" "db_exists key db" "db_t key db = ''set''"
    using key_facts(3) [OF assms set] set by (auto simp: set_or_absent_def)
  from spop_loop_spec [OF assms k(2), of "nat n" r "[]"] obtain db' r' ds j where
    d: "spop_loop (nat n) key r db [] = Some (db', r', ds)" "distinct ds" "set ds \<subseteq> fset s"
      "length ds = min (nat n) (fcard s)"
      "if ds = [] then db' = db else 0 < j \<and> changed key (set_val (s |-| fset_of_list ds)) j db db'"
    using k(1) by auto
  from d(5) have "value_of db' = (if ds = [] then value_of db else (value_of db)(key := set_val (s |-| fset_of_list ds)))"
    by (auto simp: changed_def split: if_splits)
  with d(1-4) k set show ?thesis by (auto simp: may_def spopped_def spop_body_def bulks_def)
qed (use key_facts [OF assms, of key] in \<open>auto simp: may_def spopped_def spop_body_def\<close>)

lemma may_srandmember:
  assumes "wf_db db" "tx_ok (TxSrandmember key cnt wc)"
  shows "may db (srandmember_body key cnt wc r db) (allowed re (TxSrandmember key cnt wc) (value_of db))"
proof (cases rule: key_cases [of db key])
  case (set s)
  show ?thesis
  proof (cases "s = {||}")
    case True
    with set srandmember_empty [OF assms(1), of key cnt wc r] show ?thesis
      by (auto simp: may_def picked_def bulks_def fcard_fempty split: if_splits)
  next
    case False
    have a: "in_int cnt" "cnt \<noteq> min_int" "\<not> wc \<Longrightarrow> 0 \<le> cnt" using assms(2) by auto
    from srandmember_spec [OF assms(1) set False a(1,2), of wc r] a(3) obtain r' xs where
      b: "srandmember_body key cnt wc r db =
        Some (db, r', if wc then TLen (int (length xs)) # map TBulk xs else [TBulk (hd xs)])"
      "set xs \<subseteq> fset s" "\<not> wc \<longrightarrow> xs \<noteq> []" "wc \<and> cnt < 0 \<longrightarrow> length xs = nat (- cnt)"
      "wc \<and> 0 \<le> cnt \<longrightarrow> distinct xs \<and> length xs = min (nat cnt) (fcard s)" by blast
    have "hd xs |\<in>| s" if "\<not> wc" using b(2,3) that hd_in_set [of xs] by blast
    with b set show ?thesis by (cases wc) (auto simp: may_def picked_def bulks_def)
  qed
qed (use key_facts [OF assms(1), of key] in \<open>auto simp: may_def srandmember_body_def\<close>)

subsection \<open>Closures\<close>

lemma on_db_returns:
  assumes "on_db f m c = Some (m', c')" "i = selectedDB (ctx c)"
  obtains db' r ts where "f (rand m) (the_db m i) = Some (db', r, ts)" "c' = emit ts c"
    "contents m' = (contents m)(i := value_of db')"
proof -
  obtain db' r ts where f: "f (rand m) (the_db m i) = Some (db', r, ts)"
    and m': "m' = (put_db i db' (snd (m_db i m)))\<lparr>rand := r\<rparr>" "c' = emit ts c"
    using assms by (auto simp: on_db_def case_prod_unfold Let_def split: option.splits)
  have "contents m' = (contents m)(i := value_of db')" by (auto simp: m' contents_def fun_eq_iff)
  with f m'(2) that show thesis by blast
qed

lemma on_db_allowed:
  assumes "on_db f m c = Some (m', c')" "i = selectedDB (ctx c)" "may (the_db m i) (f (rand m) (the_db m i)) P"
  shows "\<exists>ts V'. wrote ts c c' \<and> contents m' = (contents m)(i := V') \<and> P V' ts"
  using assms(1,2)
proof (rule on_db_returns)
  fix db' r ts
  assume "f (rand m) (the_db m i) = Some (db', r, ts)" "c' = emit ts c" "contents m' = (contents m)(i := value_of db')"
  with assms(3) show ?thesis by (auto simp: may_def intro!: exI [of _ ts])
qed

lemma spop_allowed:
  assumes "wf_m m" "spop_cb key args m c = Some (m', c')" "i = selectedDB (ctx c)"
  shows "\<exists>ts V'. wrote ts c c' \<and> contents m' = (contents m)(i := V') \<and>
    allowed re (TxSpop key args) (contents m i) V' ts"
proof -
  have wf: "wf_db (the_db m i)" using assms(1) by auto
  have v: "value_of (the_db m i) = contents m i" by (simp add: contents_def)
  have err: "wrote [TError msgInvalidInt] c (WriteError msgInvalidInt (setDirty c))"
    using wrote_trans [OF wrote_setDirty wrote_emit] by (simp add: WriteError_def)
  have same: "contents (snd (m_db i m)) = (contents m)(i := contents m i)" by (auto simp: contents_def)
  note may = may_spop [OF wf, unfolded v]
  consider (none) "args = []" | (bad) a rest where "args = a # rest" "Atoi a = None \<or> rest \<noteq> []"
    | (count) a n where "args = [a]" "Atoi a = Some n" by (cases args; cases "Atoi (hd args)") auto
  then show ?thesis
  proof cases
    case none
    with assms(2) have "on_db (spop_body key 1 False) m c = Some (m', c')" by (simp add: spop_cb_def)
    from on_db_allowed [OF this assms(3) may] none show ?thesis by simp
  next
    case bad
    with assms(2,3) have "m' = snd (m_db i m)" "c' = WriteError msgInvalidInt (setDirty c)"
      by (auto simp: spop_cb_def case_prod_unfold Let_def split: option.splits if_splits)
    with bad err same show ?thesis
      by (intro exI [of _ "[TError msgInvalidInt]"] exI [of _ "contents m i"]) (auto split: option.split)
  next
    case count
    with assms(2) have "on_db (spop_body key n True) m c = Some (m', c')"
      by (simp add: spop_cb_def case_prod_unfold Let_def)
    from on_db_allowed [OF this assms(3) may] count show ?thesis by simp
  qed
qed

text \<open>Apart from SPOP, which may fail before it looks at the database, each of them is one body on the selected
  database.\<close>

lemmas may_bodies = may_randomkey may_keys may_scan may_sscan may_sdiff may_sunion may_sinter may_srandmember

lemma chooses_body:
  assumes "chooses cb" "tx_ok cb" "\<nexists>key args. cb = TxSpop key args" "wf_db (the_db m i)"
  shows "\<exists>f. run_txCmd cb m c = on_db f m c \<and>
    may (the_db m i) (f (rand m) (the_db m i)) (allowed (re_compile m) cb (value_of (the_db m i)))"
  by (insert assms, (cases cb; hypsubst; ((simp; fail) | (rule exI, rule conjI, rule run_txCmd.simps, (rule may_bodies; assumption)))))

lemma choices_yield:
  assumes "wf_m m" "chooses cb" "tx_ok cb" "run_txCmd cb m c = Some (m', c')" "i = selectedDB (ctx c)"
  shows "\<exists>ts V'. wrote ts c c' \<and> contents m' = (contents m)(i := V') \<and> allowed (re_compile m) cb (contents m i) V' ts"
proof (cases "\<exists>key args. cb = TxSpop key args")
  case True
  then show ?thesis using spop_allowed [OF assms(1) _ assms(5)] assms(4) by auto
next
  case False
  have "wf_db (the_db m i)" using assms(1) by auto
  from chooses_body [OF assms(2,3) False this] obtain f where
    f: "on_db f m c = Some (m', c')"
      "may (the_db m i) (f (rand m) (the_db m i)) (allowed (re_compile m) cb (value_of (the_db m i)))"
    using assms(4) by metis
  from on_db_allowed [OF f(1) assms(5) f(2)] show ?thesis by (simp add: contents_def)
qed

text \<open>Every closure that returns leaves what it may.\<close>

lemma run_yields:
  assumes "wf_m m" "covered cb (selectedDB (ctx c)) (contents m)" "run_txCmd cb m c = Some (m', c')"
  shows "\<exists>ts. wrote ts c c' \<and> yields (re_compile m) cb (selectedDB (ctx c)) (contents m) (contents m') ts"
proof (cases "chooses cb")
  case False
  let ?W = "meaning cb (selectedDB (ctx c)) (contents m)"
  from run_performs [OF assms(1), of cb c] assms(2,3) False
  have "c' = emit (snd ?W) c" "contents m' = fst ?W" by (auto simp: covered_def performs_def)
  with False show ?thesis by (intro exI [of _ "snd ?W"]) (simp add: yields_def)
next
  case True
  with assms(2) have "tx_ok cb" by (simp add: covered_def)
  from choices_yield [OF assms(1) True this assms(3) refl] show ?thesis using True by (auto simp: yields_def)
qed

end
