(* ===== verification/Quiesce.thy ===== *)
theory Quiesce
  imports World
begin

text \<open>
  The server comes to rest: with no new request, connection or direct call, the handlers, timers and wake-ups
  can take only so many steps. A broadcast wakes every waiting client, most of which find nothing and wait
  again; \<open>fuel\<close> counts what is left of this.
\<close>

fun internal :: "event \<Rightarrow> bool" where
  "internal (Run i) = True"
| "internal (Park i) = True"
| "internal (Timeout i) = True"
| "internal (Wake i) = True"
| "internal (Drained i) = True"
| "internal _ = False"

text \<open>
  How often a connection may still wake all others: a request may be answered with a broadcast, or first wait
  and then time out.
\<close>

fun calls :: "phase \<Rightarrow> nat" where
  "calls (Called args) = 2"
| "calls (Trying b t) = 1"
| "calls (Parked b t g) = 1"
| "calls _ = 0"

text \<open>How many steps it takes until it sleeps or is done, with no further broadcast.\<close>

fun turns :: "nat \<Rightarrow> phase \<Rightarrow> nat" where
  "turns s (Parked b t g) = (if g < s then 3 else 0)"
| "turns s (Trying b t) = 2"
| "turns s (Late b) = 2"
| "turns s (Draining g) = 1"
| "turns s _ = 0"

definition sum_over :: "(phase \<Rightarrow> nat) \<Rightarrow> world \<Rightarrow> nat" where
  "sum_over f w = (\<Sum>i \<in> fset (fmdom (conns w)). f (phase (the (fmlookup (conns w) i))))"

definition clients :: "world \<Rightarrow> nat" where
  "clients w = fcard (fmdom (conns w))"

definition fuel :: "world \<Rightarrow> nat" where
  "fuel w = sum_over calls w * (3 * clients w + 1) + sum_over (turns (signal (rq w))) w"

lemma sum_over_upd:
  assumes "fmlookup (conns w) i = Some k" "conns w' = fmupd i k' (conns w)"
  shows "sum_over f w' + f (phase k) = sum_over f w + f (phase k')" "clients w' = clients w"
proof -
  have i: "i \<in> fset (fmdom (conns w))" using assms(1) by (meson fmdomI)
  then have dom: "fmdom (conns w') = fmdom (conns w)" using assms(2) by auto
  let ?D = "fset (fmdom (conns w))"
  have "sum_over f w' = f (phase k') + (\<Sum>j \<in> ?D - {i}. f (phase (the (fmlookup (conns w') j))))"
    unfolding sum_over_def dom by (subst sum.remove [of ?D i]) (use i assms(2) in auto)
  also have "(\<Sum>j \<in> ?D - {i}. f (phase (the (fmlookup (conns w') j)))) =
      (\<Sum>j \<in> ?D - {i}. f (phase (the (fmlookup (conns w) j))))"
    by (intro sum.cong) (auto simp: assms(2))
  finally show "sum_over f w' + f (phase k) = sum_over f w + f (phase k')"
    using i assms(1) by (simp add: sum_over_def sum.remove [of ?D i])
  show "clients w' = clients w" by (simp add: clients_def dom)
qed

lemma sum_over_drop:
  assumes "fmlookup (conns w) i = Some k" "conns w' = fmdrop i (conns w)"
  shows "sum_over f w' + f (phase k) = sum_over f w" "clients w' \<le> clients w"
proof -
  let ?D = "fset (fmdom (conns w))"
  have i: "i \<in> ?D" using assms(1) by (meson fmdomI)
  have dom: "fset (fmdom (conns w')) = ?D - {i}" by (auto simp: assms(2))
  have "sum_over f w' = (\<Sum>j \<in> ?D - {i}. f (phase (the (fmlookup (conns w) j))))"
    unfolding sum_over_def dom by (intro sum.cong) (auto simp: assms(2))
  then show "sum_over f w' + f (phase k) = sum_over f w"
    using i assms(1) by (simp add: sum_over_def sum.remove [of ?D i])
  show "clients w' \<le> clients w" by (simp add: clients_def fcard.rep_eq dom card_mono)
qed

lemma turns_bound: "sum_over (turns s) w \<le> 3 * clients w"
proof -
  have le: "turns s p \<le> 3" for p by (cases p) simp_all
  have "sum_over (turns s) w \<le> (\<Sum>i \<in> fset (fmdom (conns w)). 3)"
    unfolding sum_over_def by (intro sum_mono le)
  then show ?thesis by (simp add: clients_def fcard.rep_eq)
qed

text \<open>A step that uses up a broadcast pays for all the turns it may cause.\<close>

lemma fuel_broadcast:
  assumes "sum_over calls w' < sum_over calls w" "clients w' \<le> clients w"
  shows "fuel w' < fuel w"
proof -
  let ?n = "3 * clients w + 1"
  have "fuel w' \<le> sum_over calls w' * (3 * clients w' + 1) + 3 * clients w'"
    using turns_bound by (simp add: fuel_def)
  also have "\<dots> \<le> sum_over calls w' * ?n + 3 * clients w"
    using assms(2) by (intro add_mono mult_le_mono) simp_all
  also have "\<dots> < (sum_over calls w' + 1) * ?n" by simp
  also have "\<dots> \<le> sum_over calls w * ?n" using assms(1) by (intro mult_le_mono) simp_all
  also have "\<dots> \<le> fuel w" by (simp add: fuel_def)
  finally show ?thesis .
qed

lemma fuel_turn:
  assumes "fmlookup (conns w) i = Some k" "conns w' = fmupd i k' (conns w)" "signal (rq w') = signal (rq w)"
    and "calls (phase k') = calls (phase k)" "turns (signal (rq w)) (phase k') < turns (signal (rq w)) (phase k)"
  shows "fuel w' < fuel w"
  using sum_over_upd(1) [OF assms(1,2), of calls] sum_over_upd(2) [OF assms(1,2)] sum_over_upd(1) [OF assms(1,2), of "turns (signal (rq w))"]
    assms(3-5) by (simp add: fuel_def)

lemma fuel_call:
  assumes "fmlookup (conns w) i = Some k" "calls (phase k') < calls (phase k)"
    and "conns w' = fmupd i k' (conns w) \<or> conns w' = fmdrop i (conns w)"
  shows "fuel w' < fuel w"
  using assms(3)
proof
  assume upd: "conns w' = fmupd i k' (conns w)"
  show ?thesis
    using sum_over_upd(1) [OF assms(1) upd, of calls] sum_over_upd(2) [OF assms(1) upd] assms(2) by (intro fuel_broadcast) simp_all
next
  assume drop: "conns w' = fmdrop i (conns w)"
  show ?thesis
    using sum_over_drop(1) [OF assms(1) drop, of calls] sum_over_drop(2) [OF assms(1) drop] assms(2) by (intro fuel_broadcast) simp_all
qed

lemma run_fuel: "world_ok w \<Longrightarrow> do_run i w = Stepped w' \<Longrightarrow> fuel w' < fuel w"
proof -
  assume ok: "world_ok w" and st: "do_run i w = Stepped w'"
  from ok st obtain k args where k: "fmlookup (conns w) i = Some k" "phase k = Called args"
    and h: "handle i k args w = Stepped w'" by (rule run_cases)
  obtain s r where d: "dispatch (srv w) (rq w) (cl k) args = Some (s, r)"
    using h by (auto simp: handle_def split: option.splits if_splits)
  show ?thesis
  proof (cases r)
    case (Finished m c)
    let ?k = "k\<lparr>cl := c, phase := Idle\<rparr>"
    have "conns w' = fmupd i ?k (conns w) \<or> conns w' = fmdrop i (conns w)"
      using h d Finished by (auto simp: handle_def drop_conn_def put_conn_def fmdrop_put Let_def split: if_splits)
    with k(2) show ?thesis by (intro fuel_call [OF k(1), where k' = ?k]) simp_all
  next
    case (Waiting m c b t)
    let ?k = "k\<lparr>cl := c, phase := Trying b t\<rparr>"
    have "conns w' = fmupd i ?k (conns w)"
      using h d Waiting by (auto simp: handle_def put_conn_def split: if_splits)
    with k(2) show ?thesis by (intro fuel_call [OF k(1), where k' = ?k]) simp_all
  qed
qed

lemma park_fuel: "do_park i w = Stepped w' \<Longrightarrow> fuel w' < fuel w"
proof (elim park_cases)
  fix k :: conn
  assume k: "fmlookup (conns w) i = Some k" "holding (phase k)"
    and w': "w' = put_conn i (k\<lparr>phase := after_park (signal (rq w)) (phase k)\<rparr>) (w\<lparr>lock := Free\<rparr>)"
  show ?thesis
    by (rule fuel_turn [OF k(1), where k' = "k\<lparr>phase := after_park (signal (rq w)) (phase k)\<rparr>"])
      (use k(2) in \<open>cases "phase k"; simp add: w' put_conn_def\<close>)+
qed

lemma timeout_fuel: "do_timeout i w = Stepped w' \<Longrightarrow> fuel w' < fuel w"
proof (elim timeout_cases)
  fix k :: conn
  let ?k = "k\<lparr>cl := onTimeout (cl k), phase := after_timeout (phase k)\<rparr>"
  assume k: "fmlookup (conns w) i = Some k" "pending (phase k) = 1" "after_timeout (phase k) \<noteq> phase k"
    and w': "w' = put_conn i ?k (w\<lparr>rq := Broadcast (rq w)\<rparr>)"
  have "calls (phase ?k) < calls (phase k)" using k(3) by (cases "phase k") simp_all
  then show ?thesis by (rule fuel_call [OF k(1)]) (simp add: w' put_conn_def)
qed

lemma wake_fuel: "world_ok w \<Longrightarrow> do_wake i w = Stepped w' \<Longrightarrow> fuel w' < fuel w"
proof -
  assume ok: "world_ok w" and st: "do_wake i w = Stepped w'"
  obtain k b t g where k: "fmlookup (conns w) i = Some k" "phase k = Parked b t g" "g < signal (rq w)"
    using st by (auto simp: do_wake_def split: option.splits phase.splits if_splits)
  note w = world_okD [OF ok k(1)]
  from w(1) show ?thesis
  proof (cases rule: run_block_Some [of "rq w" b "cl k"])
    case (waits m)
    let ?k = "k\<lparr>cl := cl k, phase := Trying b t\<rparr>"
    have "w' = put_conn i ?k (w\<lparr>rq := m, lock := Held i\<rparr>)"
      using st k waits(1) by (simp add: do_wake_def split: if_splits)
    with waits(3) k show ?thesis
      by (intro fuel_turn [OF k(1), where k' = ?k]) (simp_all add: put_conn_def same_env_def)
  next
    case (serves m ts)
    let ?k = "k\<lparr>cl := emit ts (cl k), phase := Idle\<rparr>"
    have "w' = put_conn i ?k (w\<lparr>rq := m\<rparr>)"
      using st k serves(1) by (simp add: do_wake_def split: if_splits)
    with k show ?thesis by (intro fuel_call [OF k(1), where k' = ?k]) (simp_all add: put_conn_def)
  qed
qed

lemma drained_fuel: "do_drained i w = Stepped w' \<Longrightarrow> fuel w' < fuel w"
proof -
  assume st: "do_drained i w = Stepped w'"
  then obtain k g where k: "fmlookup (conns w) i = Some k" "phase k = Draining g"
    "w' = put_conn i (k\<lparr>phase := Idle\<rparr>) w"
    by (auto simp: do_drained_def split: option.splits phase.splits if_splits)
  then show ?thesis by (intro fuel_turn [OF k(1), where k' = "k\<lparr>phase := Idle\<rparr>"]) (simp_all add: put_conn_def)
qed

lemma internal_fuel:
  assumes "world_ok w" "internal e" "step e w = Stepped w'"
  shows "fuel w' < fuel w"
  using assms(2,3) run_fuel [OF assms(1)] park_fuel timeout_fuel wake_fuel [OF assms(1)] drained_fuel
  by (cases e; simp only: step.simps internal.simps; blast)

lemma internal_ok: "internal e \<Longrightarrow> event_ok e"
  by (cases e) simp_all

lemma internal_run:
  "world_ok w \<Longrightarrow> list_all internal es \<Longrightarrow> run_events es w = Some w' \<Longrightarrow> length es + fuel w' \<le> fuel w"
proof (induction es arbitrary: w)
  case (Cons e es)
  then obtain w1 where st: "step e w = Stepped w1" and run: "run_events es w1 = Some w'"
    by (auto split: outcome.splits)
  have "internal e" using Cons.prems(2) by simp
  then have "fuel w1 < fuel w" "world_ok w1"
    using internal_fuel [OF Cons.prems(1) _ st] step_ok [OF Cons.prems(1) _ st] internal_ok by blast+
  with Cons.IH [OF _ _ run] Cons.prems(2) show ?case by simp
qed simp

text \<open>Each request still unanswered costs a round of wake-ups.\<close>

lemma fuel_bound: "fuel w \<le> 2 * clients w * (3 * clients w + 1) + 3 * clients w"
proof -
  have le: "calls p \<le> 2" for p by (cases p) simp_all
  have "sum_over calls w \<le> (\<Sum>i \<in> fset (fmdom (conns w)). 2)"
    unfolding sum_over_def by (intro sum_mono le)
  then have "sum_over calls w \<le> 2 * clients w" by (simp add: clients_def fcard.rep_eq)
  then have "sum_over calls w * (3 * clients w + 1) \<le> 2 * clients w * (3 * clients w + 1)"
    by (rule mult_le_mono1)
  with turns_bound [of "signal (rq w)" w] show ?thesis by (simp add: fuel_def)
qed

subsection \<open>The state at rest\<close>

definition at_rest :: "world \<Rightarrow> bool" where
  "at_rest w \<longleftrightarrow>
     fBall (fmdom (conns w)) (\<lambda>i. disabled (Run i) w \<and> disabled (Park i) w \<and> disabled (Timeout i) w \<and>
       disabled (Wake i) w \<and> disabled (Drained i) w)"

lemma disabled_iff: "disabled e w \<longleftrightarrow> step e w = Disabled"
  by (simp add: disabled_def split: outcome.split)

lemma handle_enabled: "lock w = Free \<Longrightarrow> handle i k args w \<noteq> Disabled"
  by (auto simp: handle_def Let_def split: option.split hres.split)

text \<open>Then only clients that wait for a list without a timeout are left, and those whose wake-up was lost.\<close>

lemma rest_phases:
  assumes "reachable event_ok w" "at_rest w" "lock w \<noteq> Closing" "fmlookup (conns w) i = Some k"
  shows "lock w = Free \<and>
    (case phase k of
       Idle \<Rightarrow> True
     | Parked b t g \<Rightarrow> t = 0 \<and> g = signal (rq w)
     | Draining g \<Rightarrow> g = signal (rq w)
     | _ \<Rightarrow> False)"
proof -
  have ok: "world_ok w" using assms(1) by (rule reachable_ok)
  note w = world_okD [OF ok assms(4)]
  have rest: "step e w = Disabled" if "e \<in> {Run j, Park j, Timeout j, Wake j, Drained j}" "j |\<in>| fmdom (conns w)" for e j
    using assms(2) that by (auto simp: at_rest_def disabled_iff)
  have i: "i |\<in>| fmdom (conns w)" using assms(4) by (rule fmdomI)
  have free: "lock w = Free"
  proof (cases "lock w")
    case (Held j)
    then have "j |\<in>| fmdom (conns w)" using ok by (simp add: world_ok_def)
    with held_parks [OF assms(1) Held] rest [of "Park j" j] show ?thesis by simp
  qed (use assms(3) in simp_all)
  have d: "do_run i w = Disabled" "do_timeout i w = Disabled" "do_wake i w = Disabled" "do_drained i w = Disabled"
    using rest [OF _ i, of "Run i"] rest [OF _ i, of "Timeout i"] rest [OF _ i, of "Wake i"] rest [OF _ i, of "Drained i"]
    by simp_all
  show ?thesis
  proof (cases "phase k")
    case (Called args)
    with d(1) assms(4) handle_enabled [OF free] show ?thesis by (simp add: do_run_def)
  next
    case (Parked b t g)
    then have "g \<le> signal (rq w)" using w(3) by (simp add: conn_ok_def)
    moreover have "t = 0" using d(2) Parked assms(4) by (simp add: do_timeout_def Let_def split: if_splits)
    moreover have "\<not> g < signal (rq w)"
      using d(3) Parked assms(4) free by (auto simp: do_wake_def split: option.splits if_splits bool.splits)
    ultimately show ?thesis using free Parked by simp
  next
    case (Draining g)
    then have "g \<le> signal (rq w)" using w(3) by (simp add: conn_ok_def)
    moreover have "\<not> g < signal (rq w)" using d(4) Draining assms(4) free by (auto simp: do_drained_def)
    ultimately show ?thesis using free Draining by simp
  qed (use w(5) free in simp_all)
qed

end
