(* ===== verification/Spec2Isabelle.thy ===== *)
theory Spec2Isabelle
  imports Examples Effects Queues Wire Arity Ledger Semantics Choices Quiesce Node
begin

text \<open>
  A verification of rediqueue (\<open>src/\<close>), a server in Go that keeps lists and sets in memory,
  speaks the Redis protocol, and can be called directly by the Go program that embeds it.

  \<^bold>\<open>The program.\<close> A goroutine per connection reads requests (\<open>server/proto.go\<close>), \<open>dispatch\<close> in
  \<open>server/server.go\<close> looks the command up and calls its handler. A handler (\<open>cmd_*.go\<close>) checks the
  arguments and hands a closure to \<open>withTx\<close> or \<open>blocking\<close> (\<open>redis.go\<close>), which queue it when the
  connection is in a transaction, and otherwise call it under the one lock of the server. The closure works
  on one of the numbered databases (\<open>db.go\<close>) and writes its reply to the connection. \<open>withTx\<close>
  ends with a broadcast that wakes the connections waiting in \<open>blocking\<close>. EXEC (\<open>cmd_transactions.go\<close>)
  compares the versions of watched keys and calls the queued closures. The direct methods (\<open>direct.go\<close>) change
  the databases under the same lock.

  \<^bold>\<open>The theories\<close>, from the bottom up:

  \<^item> \<open>Prelude\<close>: Go integers (\<open>i64\<close> wraps), strings, \<open>strconv\<close>, case folding, the random source and the
    random order of map iteration, drawn from a stream of choices (\<open>rng\<close>) every theorem quantifies over.
  \<^item> \<open>Peer\<close>: the \<open>Peer\<close> of \<open>server.go\<close>, its \<open>Write*\<close> methods, the bytes they produce (\<open>wire\<close>) and
    the grammar of replies (\<open>reply\<close>).
  \<^item> \<open>State\<close>: the types of \<open>rediqueue.go\<close> - \<open>RedisDB\<close> with its maps and version counters (64-bit words),
    \<open>RediQueue\<close>, \<open>connCtx\<close> - and the functions on them. \<open>txCmd\<close> has one constructor per closure of the
    source with the variables it captures: the closure as data.
  \<^item> \<open>Db\<close>: every function of \<open>db.go\<close>, the invariant \<open>wf_db\<close> (the type map agrees with the two value
    maps, no list is empty), the abstract keyspace \<open>value_of\<close>, and the relations \<open>changed\<close> (one key got a
    value and so many version steps) and \<open>evolves\<close> (no value changed without a version step).
  \<^item> \<open>Command\<close>: the contracts of a command body, as locales: it answers one reply, keeps the invariant and
    moves versions (\<open>watched_command\<close>), and never panics (\<open>total_command\<close>).
  \<^item> \<open>Keys\<close>: \<open>keys.go\<close> and \<open>matchKeys\<close>. \<open>Lists\<close>, \<open>Sets\<close>, \<open>Generic\<close>: the closures of
    \<open>cmd_list.go\<close>, \<open>cmd_set.go\<close>, \<open>cmd_generic.go\<close> and \<open>cmd_server.go\<close>, what each computes on every branch,
    and the interpretation of the contracts on each.
  \<^item> \<open>Queues\<close>: pushes and pops of one key as a refinement of an abstract queue and stack, proved in a locale
    and interpreted on the bodies of the commands.
  \<^item> \<open>Tx\<close>: \<open>run_txCmd\<close> runs a closure; \<open>withTx\<close>, \<open>blocking\<close>, and MULTI, EXEC, DISCARD, WATCH,
    UNWATCH. \<open>panics_on\<close> says exactly which closures panic.
  \<^item> \<open>Semantics\<close>: the abstract machine. \<open>meaning\<close> says what a closure does to the contents of the server - keys
    that hold lists or sets, nothing of type maps, value maps and versions - and what it answers; \<open>run_performs\<close> and
    \<open>exec_performs\<close> show that each closure and a whole EXEC implement it (C1, C2). \<open>meaningful\<close> leaves out the
    commands that choose at random or match patterns, and the arguments whose handling wraps or panics, which have
    properties of their own (C13, C32).
  \<^item> \<open>Choices\<close>: what the commands that choose at random, list a set in map order or match patterns may leave and answer
    (\<open>allowed\<close>); with it every closure has a meaning (C3; single commands in C36, C39).
  \<^item> \<open>Handlers\<close>: every \<open>cmd*\<close> function, with its argument checks in order, as a function from state and
    connection to \<open>hres\<close>: finished, or waiting for a blocking command. Three locales for what a handler keeps,
    interpreted on every one of them.
  \<^item> \<open>Server\<close>: \<open>Register\<close>, the tables the \<open>commands*\<close> functions fill, \<open>start\<close>, \<open>dispatch\<close>; the locale
    \<open>command_table\<close> lifts the contracts of the handlers to \<open>dispatch\<close> and is interpreted on the full table.
    \<open>Arity\<close>: the argument counts of all commands as one table, and which requests never take the lock. \<open>Wire\<close>: the output as bytes, cut by a client.
  \<^item> \<open>Direct\<close>: the methods of \<open>direct.go\<close>, their reading as calls (\<open>api\<close>), \<open>Dump\<close>, and
    \<open>check.go\<close>.
  \<^item> \<open>World\<close>: all together, as events of a step function: connections come and go, send requests, wait, wake,
    time out; the direct API is called; \<open>Close\<close> starts and ends, and \<open>Restart\<close> opens the server again. A request arrives
    (\<open>Arrive\<close>) and its handler runs when it gets the lock (\<open>Run\<close>); \<open>Request\<close> is one after the other (\<open>request_split\<close>).
    \<open>blocking\<close> is cut at the points where the code gives up the lock (\<open>phase\<close>): trying, about to wait, waiting since
    broadcast number g, draining after a timeout. \<open>reachable\<close> is the inductive closure, \<open>world_ok\<close> its invariant. The
    counters of \<open>rediqueue.go\<close> are here too.
  \<^item> \<open>Quiesce\<close>: a measure on worlds that every step of a handler, timer or wake-up decreases, and what the state
    looks like when none of them is possible (C8, C9).
  \<^item> \<open>Node\<close>: the server in its process (\<open>Run\<close>, \<open>RunAddr\<close>, \<open>Start\<close>, \<open>Restart\<close>, the address, \<open>Load\<close> and \<open>Save\<close>) and
    \<open>rediqueue/main.go\<close>, on a network and a file that are parameters.
  \<^item> \<open>Ledger\<close>: the account of an execution - what clients were acknowledged and delivered, read off their requests
    and replies, against what the databases hold (C10).
  \<^item> \<open>Proto\<close>: \<open>readArray\<close> and \<open>readString\<close> over any reader that keeps the laws of a stream of bytes, a
    locale interpreted on a plain text and on a buffer fed in pieces.
  \<^item> \<open>Examples\<close>: concrete states and executions on which the properties are applied. \<open>Effects\<close>: what single
    commands do, spelt out on the concrete databases.

  \<^bold>\<open>Results and panics.\<close> An error reply is an item written; an error a Go function returns is \<open>Inl\<close>. \<open>None\<close>
  is a panic (or \<open>Crash\<close> while reading), which ends the process. The properties say which requests lead there.
  The source ignores most errors of \<open>Register\<close>, \<open>Write\<close> and \<open>Flush\<close>, and so does the model.

  \<^bold>\<open>Termination.\<close> The loops of the source are structural recursions, or \<open>partial_function (option)\<close> in \<open>Proto\<close>,
  where a reader might never return, and it is proved that they do return (C26, C27); no definition has fuel. The
  retry loop of \<open>blocking\<close> is a sequence of events, each retry one step of \<open>World\<close>; C8 bounds their number.

  \<^bold>\<open>The properties\<close> below are grouped: what the commands mean (C1 to C3), the server and its clients (C4 to C15),
  transactions (C16 to C20), the life of a connection and of the server (C21 to C25), the protocol (C26 to C30), lists (C31
  to C34), keys (C35, C36), sets (C37 to C39), the direct methods (C40). Some of them prove that the code does something it
  does not mean to do: a lost wake-up (C6), EXECABORT that keeps the transaction (C18), a reply withheld (C21), Close that
  hangs (C22), a restart that changes the host (C24), a dump that holds nothing (C25), inputs that crash (C12, C13, C28),
  error lines a client can extend (C30), a range that wraps (C32), intersections that pass over absent keys (C37), stored
  empty sets (C38).

  \<^bold>\<open>Hypotheses.\<close> The verb \<open>%q\<close> is the parameter \<open>quote\<close> of \<open>Dump\<close>, of which nothing is assumed. The regular expression
  package is the parameter \<open>re_compile\<close>; C36 alone needs a law of it
  (\<open>conforms\<close>, the documented meaning of the expressions \<open>patternRE\<close> emits), which \<open>go_fragment\<close> satisfies.
  \<open>args_ok\<close>, \<open>event_ok\<close> and \<open>tx_ok\<close> exclude one thing: a count of exactly the smallest integer for
  SRANDMEMBER, whose negation wraps. \<open>api_ok\<close> excludes a direct \<open>Push\<close> of no element, which would store an
  empty list. A version counter wraps after \<open>2 ^ 64\<close> changes, which C17 has as a hypothesis.
  \<open>net.Listen\<close> and \<open>gob\<close> are parameters of \<open>Node\<close>; \<open>binds\<close> and \<open>no_exported_fields\<close> state what their
  documentation says of a port that is given, and of types like \<open>RedisDB\<close>.

  \<^bold>\<open>Not modelled.\<close> Sockets and goroutine creation (events instead); \<open>formatFloat\<close>, which has no caller;
  logging; \<open>test.go\<close> (test helpers on \<open>testing.TB\<close>); the text \<open>CheckList\<close> and \<open>CheckSet\<close> print. \<open>Flush\<close> is
  implicit: the peer keeps all it ever wrote. A handler is one step, though it takes the lock once for the password and
  once for the closure: what it reads in between, the context, belongs to the goroutine of its connection. \<open>Node\<close> and
  \<open>World\<close> are separate: in \<open>World\<close> a restart always gets its port, and \<open>Save\<close>, which only reads the databases under the lock, is
  no event. \<open>List\<close> returns a slice that shares memory with the
  database; the model returns a copy. Case folding is exact for ASCII and for the letters that fold to ASCII.
\<close>

section \<open>What the commands mean\<close>

text \<open>C1: The closures of the commands implement an abstract machine that knows keys, lists and sets only: called on
  a well-formed server, each writes the reply and leaves the contents the machine gives, for all commands but those that
  choose at random or match patterns.\<close>
theorem commands_refine:
  assumes "wf_m m" "meaningful cb (selectedDB (ctx c)) (contents m)"
  shows "\<exists>m'. run_txCmd cb m c = Some (m', emit (snd (meaning cb (selectedDB (ctx c)) (contents m))) c) \<and>
    wf_m m' \<and> contents m' = fst (meaning cb (selectedDB (ctx c)) (contents m))"
  using run_performs [OF assms] by (auto simp: performs_def)

theorem commands_refine_witness:
  "\<exists>m'. run_txCmd (TxSmove ''s'' ''t'' ''x'') exm expeer = Some (m', emit [TInt 1] expeer) \<and>
     contents m' 0 ''s'' = Some (VSet {|''y''|}) \<and> contents m' 0 ''t'' = Some (VSet {|''x'', ''y''|})"
proof -
  have s: "contents exm 0 ''s'' = Some (VSet {|''x'', ''y''|})" and t: "contents exm 0 ''t'' = Some (VSet {|''y''|})"
    by (simp_all add: contents_def)
  then have "meaning (TxSmove ''s'' ''t'' ''x'') 0 (contents exm) =
      ((contents exm)(0 := (contents exm 0)(''s'' := Some (VSet {|''y''|}), ''t'' := Some (VSet {|''x'', ''y''|}))), [TInt 1])"
    by (simp add: set_val_def)
  with commands_refine [OF exm_wf, of "TxSmove ''s'' ''t'' ''x''" expeer] show ?thesis by auto
qed

text \<open>C2: EXEC of a clean transaction whose watched keys are not stale implements the machine on the whole queue: the
  commands one after the other, each on what the one before left, their replies in order after the length.\<close>
theorem exec_refines:
  assumes "wf_m m" "may_use m c" "transaction (ctx c) = Some cbs" "\<not> dirtyTransaction (ctx c)"
    and "\<not> stale m (watching (ctx c))" "all_meaningful cbs (selectedDB (ctx c)) (contents m)"
  shows "\<exists>m' c'. cmdExec m c cmd [] = Some (Finished m' c') \<and> \<not> inTx c' \<and>
    contents m' = fst (meanings cbs (selectedDB (ctx c)) (contents m)) \<and>
    wbuf c' = wbuf c @ TLen (int (length cbs)) # snd (meanings cbs (selectedDB (ctx c)) (contents m))"
  using assms by (rule exec_performs)

theorem exec_refines_witness:
  "\<exists>m' c'. cmdExec exm (extx [TxRpoplpush ''l'' ''m'', TxLlen ''m'']) ''EXEC'' [] = Some (Finished m' c') \<and>
     contents m' 0 ''m'' = Some (VList [''c'', ''z'']) \<and> wbuf c' = [TLen 2, TBulk ''c'', TInt 2]"
proof -
  let ?cbs = "[TxRpoplpush ''l'' ''m'', TxLlen ''m'']"
  have l: "contents exm 0 ''l'' = Some (VList [''a'', ''b'', ''a'', ''c''])" and m: "contents exm 0 ''m'' = Some (VList [''z''])"
    by (simp_all add: contents_def)
  let ?V = "(contents exm 0)(''l'' := Some (VList [''a'', ''b'', ''a'']), ''m'' := Some (VList [''c'', ''z'']))"
  have "meanings ?cbs 0 (contents exm) = ((contents exm)(0 := ?V), [TBulk ''c'', TInt 2])"
    using l m by (simp add: sem_transfer_def sem_pop_def popped_def list_val_def list_in_def on_list_def Let_def)
  with exec_refines [OF exm_wf, of "extx ?cbs" ?cbs "''EXEC''"] show ?thesis
    by (auto simp: may_use_def stale_def)
qed

text \<open>C3: The closures that choose at random, list a set in map order or match patterns refine a non-deterministic
  machine: each panics exactly where it is said to, or leaves contents and writes a reply the machine allows, whatever
  the random source does; only SPOP changes anything.\<close>
theorem choices_refine:
  assumes "wf_m m" "chooses cb" "tx_ok cb"
  shows "case run_txCmd cb m c of
     None \<Rightarrow> panics_on cb m (the_db m (selectedDB (ctx c)))
   | Some (m', c') \<Rightarrow>
       \<not> panics_on cb m (the_db m (selectedDB (ctx c))) \<and>
       (\<exists>ts V. wrote ts c c' \<and> contents m' = (contents m)(selectedDB (ctx c) := V) \<and>
         allowed (re_compile m) cb (contents m (selectedDB (ctx c))) V ts)"
  using choices_yield [OF assms _ refl, of c] txCmd_None_iff [OF assms(3,1), of c]
  by (auto split: option.splits)

theorem choices_refine_witness:
  "\<exists>m' c' d. run_txCmd (TxSpop ''s'' []) exm expeer = Some (m', c') \<and> wrote [TBulk d] expeer c' \<and>
     d \<in> {''x'', ''y''} \<and> contents m' 0 ''s'' = Some (VSet ({|''x'', ''y''|} |-| {|d|}))"
proof -
  have s: "contents exm 0 ''s'' = Some (VSet {|''x'', ''y''|})" by (simp add: contents_def)
  have two: "fcard {|''x'', ''y''|} = 2" by code_simp
  from choices_refine [OF exm_wf, of "TxSpop ''s'' []" expeer] obtain m' c' ts V where
    r: "run_txCmd (TxSpop ''s'' []) exm expeer = Some (m', c')" "wrote ts expeer c'"
      "contents m' 0 = V" "spopped ''s'' 1 False (contents exm 0) V ts"
    by (auto split: option.splits)
  then obtain d where "d \<in> {''x'', ''y''}" "ts = [TBulk d]" "V ''s'' = set_val ({|''x'', ''y''|} |-| {|d|})"
    using s two by (auto simp: spopped_def length_Suc_conv)
  moreover from this(1) have "{|''x'', ''y''|} |-| {|d|} \<noteq> {||}" by auto
  ultimately show ?thesis using r by (auto simp: set_val_def)
qed

section \<open>The server and its clients\<close>

text \<open>C4: In every reachable state, what a client was sent is a sequence of complete replies,
  one for each request it made, but for the one that is being handled or blocks.\<close>
theorem one_reply_per_request:
  assumes "reachable event_ok w" "fmlookup (conns w) i = Some k"
  shows "\<exists>rs. wbuf (cl k) = concat rs \<and> (\<forall>r \<in> set rs. reply r) \<and> length rs + pending (phase k) = requests k"
  using world_okD(3) [OF reachable_ok [OF assms(1)] assms(2)]
  by (auto simp: conn_ok_def has_replies_def)

theorem one_reply_per_request_witness:
  "\<exists>k rs. fmlookup (conns (after ex_push)) 1 = Some k \<and> wbuf (cl k) = concat rs \<and>
     length rs + pending (phase k) = requests k"
proof -
  obtain k where k: "fmlookup (conns (after ex_push)) 1 = Some k"
    using ex_push_run by (auto simp: blocked_on_def split: option.splits)
  have "reachable event_ok (after ex_push)" using ex_block_events(3) ex_push_run by (auto intro: after_reachable)
  from one_reply_per_request [OF this k] k show ?thesis by blast
qed




text \<open>C7: A blocked client that was woken, finds a key of its own and gets the lock is served: one
  reply, and it is back to reading requests.\<close>
theorem woken_client_served:
  assumes "reachable event_ok w" "fmlookup (conns w) i = Some k" "phase k = Parked (BXpop ks lr) t g"
    and "lock w = Free" "g < signal (rq w)" "key \<in> set ks"
    and "value_of (the_db (rq w) (selectedDB (ctx (cl k)))) key \<noteq> None"
  shows "\<exists>w' k' ts. step (Wake i) w = Stepped w' \<and> fmlookup (conns w') i = Some k' \<and> phase k' = Idle \<and>
    reply ts \<and> cl k' = emit ts (cl k)"
proof -
  have "wf_m (rq w)" using world_okD(1) [OF reachable_ok [OF assms(1)] assms(2)] .
  then have "\<not> starved (rq w) (cl k) (BXpop ks lr)" using assms(6,7) by (auto simp: starved_bxpop)
  from woken_served [OF assms(1-5) this] show ?thesis .
qed

theorem woken_client_served_witness:
  "\<exists>w' k'. step (Wake 1) (after ex_push) = Stepped w' \<and> fmlookup (conns w') 1 = Some k' \<and> phase k' = Idle"
proof -
  obtain k where k: "fmlookup (conns (after ex_push)) 1 = Some k"
    "phase k = Parked (BXpop [''k''] Left) 0 0" "selectedDB (ctx (cl k)) = 0"
    using ex_push_run by (auto simp: blocked_on_def split: option.splits)
  have "reachable event_ok (after ex_push)" using ex_block_events(3) ex_push_run by (auto intro: after_reachable)
  from woken_client_served [OF this k(1,2), of "''k''"] ex_push_run k(3) show ?thesis by auto
qed

text \<open>C8: Left alone the server comes to rest: without new connections, requests and direct calls, the handlers, timers
  and wake-ups together take at most \<open>fuel w\<close> more steps, quadratic in the number of clients.\<close>
theorem comes_to_rest:
  assumes "reachable event_ok w" "list_all internal es" "run_events es w = Some w'"
  shows "length es + fuel w' \<le> fuel w \<and> fuel w \<le> 2 * clients w * (3 * clients w + 1) + 3 * clients w"
  using internal_run [OF reachable_ok [OF assms(1)] assms(2,3)] fuel_bound by simp

theorem comes_to_rest_witness:
  "\<exists>w'. run_events [Timeout 1, Drained 1] (after ex_timer) = Some w' \<and> 2 + fuel w' \<le> fuel (after ex_timer)"
proof -
  have r: "run_events ex_timer exworld \<noteq> None \<and> run_events [Timeout 1, Drained 1] (after ex_timer) \<noteq> None"
    by (rule after_eval) code_simp
  have "list_all event_ok ex_timer" by code_simp
  then have "reachable event_ok (after ex_timer)" using r by (intro after_reachable) simp_all
  moreover obtain w' where w': "run_events [Timeout 1, Drained 1] (after ex_timer) = Some w'" using r by blast
  ultimately show ?thesis using comes_to_rest [of "after ex_timer" "[Timeout 1, Drained 1]" w'] by auto
qed

text \<open>C9: At rest, unless Close has begun, the lock is free and every client is served or waits without a timeout for a
  broadcast still to come; the one exception is a timed-out client whose wake-up came too early.\<close>
theorem rest_state:
  assumes "reachable event_ok w" "at_rest w" "lock w \<noteq> Closing" "fmlookup (conns w) i = Some k"
  shows "lock w = Free \<and>
    (case phase k of
       Idle \<Rightarrow> True
     | Parked b t g \<Rightarrow> t = 0 \<and> g = signal (rq w)
     | Draining g \<Rightarrow> g = signal (rq w)
     | _ \<Rightarrow> False)"
  using assms by (rule rest_phases)

theorem rest_state_witness:
  "\<exists>k. fmlookup (conns (after ex_block)) 1 = Some k \<and> at_rest (after ex_block) \<and>
     (case phase k of Idle \<Rightarrow> True | Parked b t g \<Rightarrow> t = 0 \<and> g = signal (rq (after ex_block))
      | Draining g \<Rightarrow> g = signal (rq (after ex_block)) | _ \<Rightarrow> False)"
proof -
  obtain k where "reachable orderly (after ex_block)" and k: "fmlookup (conns (after ex_block)) 1 = Some k"
    by (rule ex_blocked) blast
  then have r: "reachable event_ok (after ex_block)" using reachable_mono orderly_ok by blast
  have "run_events ex_block exworld \<noteq> None \<and> at_rest (after ex_block)"
    by (rule after_eval) code_simp
  then have rest: "at_rest (after ex_block)" by blast
  have "lock (after ex_block) \<noteq> Closing" using ex_block_run by simp
  from rest_state [OF r rest this k] k rest show ?thesis by blast
qed

text \<open>C10: Nothing is lost and nothing is delivered twice: as long as clients only push, pop, block, transfer and
  look, in any order and number, the elements whose push was acknowledged are those in the lists of all databases
  together with those the replies delivered, each as often.\<close>
theorem queue_conserves:
  assumes "account w P D"
  shows "stored (rq w) + D = P"
  using account_balances [OF assms] by blast

theorem queue_conserves_witness:
  "\<exists>w. account w {#''v''#} {#''v''#} \<and> stored (rq w) = {#}"
proof -
  have "case book (ex_push @ [Wake 1]) exworld {#} {#} of None \<Rightarrow> False | Some (w, P, D) \<Rightarrow> P = {#''v''#} \<and> D = {#''v''#}"
    by code_simp
  then obtain w where b: "book (ex_push @ [Wake 1]) exworld {#} {#} = Some (w, {#''v''#}, {#''v''#})"
    by (auto split: option.splits)
  have "list_all queue_event (ex_push @ [Wake 1])" by code_simp
  then have "account w {#''v''#} {#''v''#}" using book_account [OF _ _ b] account.init by (simp add: exworld_def)
  with queue_conserves [OF this] show ?thesis by auto
qed

text \<open>C11: In every reachable state the databases are well typed: the type map says for each key which of the two value
  maps holds it, and no list is empty; and the queued closures are of the kinds the handlers queue.\<close>
theorem well_typed:
  assumes "reachable event_ok w"
  shows "(case (fmlookup (keys (the_db (rq w) i)) key, fmlookup (listKeys (the_db (rq w) i)) key,
        fmlookup (setKeys (the_db (rq w) i)) key) of
      (None, None, None) \<Rightarrow> True
    | (Some ty, Some l, None) \<Rightarrow> ty = ''list'' \<and> l \<noteq> []
    | (Some ty, None, Some s) \<Rightarrow> ty = ''set''
    | _ \<Rightarrow> False) \<and> db_id (the_db (rq w) i) = i \<and>
    (\<forall>j k. fmlookup (conns w) j = Some k \<longrightarrow> (case transaction (ctx (cl k)) of None \<Rightarrow> True | Some cbs \<Rightarrow> list_all tx_ok cbs))"
proof -
  have ok: "world_ok w" using assms by (rule reachable_ok)
  then have "wf_db (the_db (rq w) i) \<and> db_id (the_db (rq w) i) = i" by (auto simp: world_ok_def)
  moreover have "case transaction (ctx (cl k)) of None \<Rightarrow> True | Some cbs \<Rightarrow> list_all tx_ok cbs"
    if "fmlookup (conns w) j = Some k" for j k
    using world_okD(3) [OF ok that] by (auto simp: conn_ok_def peer_ok_def split: option.split)
  ultimately show ?thesis using wf_dbD [of "the_db (rq w) i" key]
    by (auto simp: wf_entry_def split: option.splits)
qed

theorem well_typed_witness:
  "(case (fmlookup (keys (the_db (rq (after ex_push)) 0)) ''k'', fmlookup (listKeys (the_db (rq (after ex_push)) 0)) ''k'') of
      (Some ty, Some l) \<Rightarrow> ty = ''list'' \<and> l \<noteq> [] | _ \<Rightarrow> False)"
proof -
  have "reachable event_ok (after ex_push)" using ex_block_events(3) ex_push_run by (auto intro: after_reachable)
  from well_typed [OF this, of 0 "''k''"] ex_push_run show ?thesis
    by (auto simp: value_of_def split: option.splits if_splits)
qed



text \<open>C13: Exactly when calling a queued or direct closure panics: a rename of a key to itself, a
  pattern whose regular expression does not compile, a random member of a stored empty set.\<close>
theorem closure_panics_iff:
  assumes "tx_ok cb" "wf_m m"
  shows "run_txCmd cb m c = None \<longleftrightarrow> panics_on cb m (the_db m (selectedDB (ctx c)))"
  using assms by (rule txCmd_None_iff)

theorem closure_panics_iff_witness:
  "run_txCmd (TxRename ''l'' ''l'') exm expeer = None \<and> run_txCmd (TxSrandmember ''e'' 0 False) exm expeer = None \<and>
   run_txCmd (TxLrange ''l'' 0 9) exm expeer \<noteq> None"
  using closure_panics_iff [of "TxRename ''l'' ''l''" exm expeer]
    closure_panics_iff [of "TxSrandmember ''e'' 0 False" exm expeer]
    closure_panics_iff [of "TxLrange ''l'' 0 9" exm expeer]
  by (simp add: int_bounds)




section \<open>Transactions\<close>

text \<open>C16: EXEC of a clean transaction answers once and leaves the transaction: an empty array and no change if
  a watched key is stale, else one reply for each queued command, and a broadcast.\<close>
theorem exec_outcome:
  assumes "wf_m m" "peer_ok c" "may_use m c" "transaction (ctx c) = Some cbs" "\<not> dirtyTransaction (ctx c)"
    and "cmdExec m c cmd [] = Some r"
  shows "\<exists>m' c'. r = Finished m' c' \<and> \<not> inTx c' \<and> watching (ctx c') = None \<and>
    (if stale m (watching (ctx c))
     then (\<forall>i. the_db m' i = the_db m i) \<and> wbuf c' = wbuf c @ [TLen 0]
     else signal m' = Suc (signal m) \<and>
       (\<exists>rs. length rs = length cbs \<and> (\<forall>r \<in> set rs. reply r) \<and>
         wbuf c' = wbuf c @ TLen (int (length cbs)) # concat rs))"
proof -
  have "list_all tx_ok cbs" using assms(2,4) by (simp add: peer_ok_def)
  from exec_result [OF assms(1) this assms(3-6)] show ?thesis .
qed

theorem exec_outcome_witness:
  "\<exists>m' c'. cmdExec exm (extx [TxLlen ''l'', TxXpop ''l'' Left]) ''EXEC'' [] = Some (Finished m' c') \<and> \<not> inTx c'"
proof -
  let ?c = "extx [TxLlen ''l'', TxXpop ''l'' Left]"
  have "cmdExec exm ?c ''EXEC'' [] \<noteq> None" by code_simp
  then obtain r where r: "cmdExec exm ?c ''EXEC'' [] = Some r" by blast
  from exec_outcome [OF exm_wf _ _ _ _ r] r show ?thesis by (auto simp: may_use_def)
qed



text \<open>C18: EXEC of a transaction with an error in its queueing runs nothing; against its message, the
  transaction stays open.\<close>
theorem exec_abort_stays_open:
  assumes "may_use m c" "inTx c" "dirtyTransaction (ctx c)"
  shows "\<exists>c'. cmdExec m c cmd [] = Some (Finished m c') \<and> inTx c' \<and> dirtyTransaction (ctx c') \<and>
    wbuf c' = wbuf c @ [TError ''EXECABORT Transaction discarded because of previous errors.'']"
  using assms by (rule exec_dirty)

theorem exec_abort_stays_open_witness:
  "\<exists>c'. cmdExec exm (setDirty (extx [])) ''EXEC'' [] = Some (Finished exm c') \<and> inTx c'"
proof -
  have "ctx (setDirty (extx [])) = new_connCtx\<lparr>transaction := Some [], dirtyTransaction := True\<rparr>"
    by (simp add: setDirty_def extx_def ctx_def)
  then show ?thesis
    using exec_abort_stays_open [of exm "setDirty (extx [])" "''EXEC''"] by (auto simp: may_use_def inTx_def)
qed





section \<open>The life of a connection\<close>


text \<open>C22: Close never returns when a client is blocked, or has a request read whose handler has yet to take the lock:
  it waits for the handler with the lock held, and the handler cannot end without it.\<close>
theorem close_hangs:
  assumes "reachable event_ok w" "fmlookup (conns w) i = Some k" "busy (phase k)"
    and "step CloseStart w = Stepped w'" "list_all event_ok es" "run_events es w' = Some w''"
  shows "lock w'' = Closing"
proof -
  have ok: "world_ok w" using assms(1) by (rule reachable_ok)
  have "world_ok w'" using close_ok(1) [OF ok] assms(4) by simp
  then have "stuck_closing i w'"
    using assms(2-4) by (auto simp: stuck_closing_def do_close_start_def split: if_splits)
  from closing_stuck_run [OF this assms(5,6)] show ?thesis by (simp add: stuck_closing_def)
qed

theorem close_hangs_witness:
  "\<exists>w' w''. step CloseStart (after ex_arrived) = Stepped w' \<and> run_events [] w' = Some w'' \<and> lock w'' = Closing"
proof -
  have r: "run_events ex_arrived exworld \<noteq> None \<and>
      (case fmlookup (conns (after ex_arrived)) 1 of None \<Rightarrow> False | Some k \<Rightarrow> busy (phase k)) \<and>
      lock (after ex_arrived) = Free \<and> listening (after ex_arrived)"
    by (rule after_eval) code_simp
  then obtain k where k: "fmlookup (conns (after ex_arrived)) 1 = Some k" "busy (phase k)"
    by (auto split: option.splits)
  have "list_all event_ok ex_arrived" by code_simp
  with r have "reachable event_ok (after ex_arrived)" by (auto intro: after_reachable)
  moreover obtain w' where w': "step CloseStart (after ex_arrived) = Stepped w'" using r by (simp add: do_close_start_def)
  ultimately show ?thesis using close_hangs [OF _ k w', of "[]"] w' by auto
qed

text \<open>C23: Restarting a closed server preserves the databases, and starts with every command registered, no
  connection and the counters at zero.\<close>
theorem restart_preserves:
  assumes "reachable event_ok w" "step Restart w = Stepped w'"
  shows "rq w' = rq w \<and> conns w' = fmempty \<and> serving commandTable (srv w') \<and> CommandCount w' = Some 0 \<and>
    CurrentConnectionCount w' = Some 0 \<and> TotalConnectionCount w' = Some 0"
proof -
  have w': "w' = w\<lparr>srv := start NewServer, listening := True\<rparr>"
    using assms(2) by (auto simp: do_restart_def split: if_splits)
  have "peers (srv w') = fmdom (conns w')"
    using reachable_ok [OF reachable.step [OF assms(1) _ assms(2)]] by (simp add: world_ok_def)
  then have "fmdom (conns w) = {||}" by (simp add: w' fresh_peers)
  then show ?thesis
    by (simp add: w' started fresh_peers fresh_counters CommandCount_def CurrentConnectionCount_def
        TotalConnectionCount_def TotalCommands_def ClientsLen_def TotalConnections_def fmap_empty_dom)
qed

theorem restart_preserves_witness:
  "\<exists>w'. step Restart (after [Api (APush ''k'' [''v'']), CloseStart, CloseEnd]) = Stepped w' \<and>
     value_of (the_db (rq w') 0) ''k'' = Some (VList [''v''])"
proof -
  let ?es = "[Api (APush ''k'' [''v'']), CloseStart, CloseEnd]"
  have r: "run_events ?es exworld \<noteq> None \<and> (lock (after ?es) = Free \<and> \<not> listening (after ?es) \<and>
      value_of (the_db (rq (after ?es)) 0) ''k'' = Some (VList [''v'']))"
    by (rule after_eval) code_simp
  then have "reachable event_ok (after ?es)" by (auto intro: after_reachable)
  moreover obtain w' where w': "step Restart (after ?es) = Stepped w'" using r by (simp add: do_restart_def)
  ultimately show ?thesis using restart_preserves [of "after ?es" w'] r by simp
qed

text \<open>C24: A closed server that is restarted keeps its databases and its port; should the port be taken, it stays
  closed. It listens on 127.0.0.1 then, whatever address it was started on.\<close>
theorem restart_keeps_port:
  assumes "binds listen" "listens n" "port n \<noteq> 0" "Restart_node listen (Close_node n) = (ok, n')"
  shows "n_rq n' = n_rq n \<and>
    (if ok then listens n' \<and> Port n' = Port n \<and> listen (''127.0.0.1:'' @ Itoa (port n)) = map_option snd (n_srv n')
     else n' = Close_node n)"
  using assms by (rule restart_node)

theorem restart_keeps_port_witness:
  "\<exists>n n'. StartAddr ex_listen '':6300'' (NewNode (\<lambda>_. 0) go_fragment) = (True, n) \<and> Addr n = Some ''[::]:6300'' \<and>
     Restart_node ex_listen (Close_node n) = (True, n') \<and> Port n' = Some ''6300'' \<and> Host n' = Some ''127.0.0.1''"
proof -
  obtain n where s: "StartAddr ex_listen '':6300'' (NewNode (\<lambda>_. 0) go_fragment) = (True, n)" "Addr n = Some ''[::]:6300''"
    and p: "port n = 6300" "Port n = Some ''6300''" by (rule ex_started)
  obtain ok n' where r: "Restart_node ex_listen (Close_node n) = (ok, n')" by force
  have l: "ex_listen (''127.0.0.1:'' @ Itoa 6300) = Some \<lparr>IP = ''127.0.0.1'', tcp_port = 6300\<rparr>"
    by (simp add: Itoa_6300 ex_listen_def)
  have ok: "ok" using r p(1) l by (auto simp: node_defs split: if_splits option.splits)
  from restart_keeps_port [OF ex_binds _ _ r] StartAddr_listens [OF s(1)] p ok l
  have q: "Port n' = Some ''6300''" "map_option snd (n_srv n') = Some \<lparr>IP = ''127.0.0.1'', tcp_port = 6300\<rparr>" by auto
  from q(2) have "Host n' = Some ''127.0.0.1''" by (auto simp: Host_def server_Addr_def)
  with s r ok q(1) show ?thesis by auto
qed



section \<open>The protocol\<close>

text \<open>C26: However the network cuts a pipeline of requests into pieces, \<open>readArray\<close> delivers the requests
  one by one, and leaves what follows.\<close>
theorem requests_read_back:
  assumes "[] \<notin> set pieces" "\<forall>args \<in> set reqs. sendable args"
    and "concat pieces = concat (map wire_array reqs) @ rest"
  shows "\<exists>buf pieces'. read_requests bufio_line bufio_some (length reqs) ([], pieces) = Some (reqs, (buf, pieces')) \<and>
    buf @ concat pieces' = rest"
  using bufio.read_requests_wire [of "([], pieces)" reqs rest] assms by auto

theorem requests_read_back_witness:
  "\<exists>buf pieces'. read_requests bufio_line bufio_some (length [[''GET'', crlf]])
     ([], map (\<lambda>c. [c]) (wire_array [''GET'', crlf])) = Some ([[''GET'', crlf]], (buf, pieces')) \<and>
    buf @ concat pieces' = []"
  by (rule requests_read_back) (auto simp: sendable_def int_bounds max_alloc_def crlf_def)

text \<open>C27: \<open>readArray\<close> returns on every input, and its result depends on the bytes only: it is the same on the
  buffered reader as on the bare text.\<close>
theorem reading_independent_of_pieces:
  assumes "[] \<notin> set pieces"
  shows "\<exists>r buf' pieces'. readArray bufio_line bufio_some (buf, pieces) = Some (r, (buf', pieces')) \<and>
    readArray flat_line flat_some (buf @ concat pieces) = Some (r, buf' @ concat pieces')"
  using bufio.readArray_flat [of "(buf, pieces)"] assms by fastforce

theorem reading_independent_of_pieces_witness:
  "\<exists>r buf' pieces'. readArray bufio_line bufio_some ([], [''*'', ''1'', crlf, ''bad'']) = Some (r, (buf', pieces')) \<and>
    readArray flat_line flat_some ([] @ concat [''*'', ''1'', crlf, ''bad'']) = Some (r, buf' @ concat pieces')"
  by (rule reading_independent_of_pieces) (simp add: crlf_def)


text \<open>C29: The bytes of a reply delimit it: as long as no error or status line contains a carriage return, a
  client can cut the output into replies in only one way.\<close>
theorem replies_self_delimiting:
  assumes "reply a" "reply b" "list_all line_safe a" "list_all line_safe b" "wire_all a @ x = wire_all b @ y"
  shows "a = b \<and> x = y"
  using assms by (rule replies_cut)

theorem replies_self_delimiting_witness:
  "\<exists>a x. reply a \<and> list_all line_safe a \<and> (a = TLen 2 # [TBulk ''0''] @ [TLen 0] \<and> x = wire TNull)"
proof -
  let ?a = "TLen 2 # [TBulk ''0''] @ [TLen 0]"
  have r: "reply ?a" using reply_pair [of "[TBulk ''0'']" "[TLen 0]"] by simp
  from replies_self_delimiting [OF r r, of "wire TNull" "wire TNull"] r show ?thesis by auto
qed

text \<open>C30: The error for an unknown command repeats what the client sent, line ends included: one request whose
  command contains CR LF and a plus sign puts two complete replies on the connection.\<close>
theorem unknown_command_injects:
  assumes "serving commandTable s"
  shows "\<exists>c'. dispatch s m c ((a @ (crlf @ ''+'') @ b) # args) = Some (s, Finished m c') \<and>
    wire_all (wbuf c') = wire_all (wbuf c @ [TError (''ERR unknown command '' @ [CHR 0x27] @ ToLower (ToUpper a)),
      TInline (ToLower (ToUpper b) @ [CHR 0x27])])"
  using assms by (rule unknown_two_lines)

theorem unknown_command_injects_witness:
  "\<exists>c'. dispatch (start NewServer) exm expeer [''x'' @ (crlf @ ''+'') @ ''ok''] =
     Some (start NewServer, Finished exm c')"
  using unknown_command_injects [OF started, of exm expeer "''x''" "''ok''" "[]"] by blast

section \<open>Lists\<close>

text \<open>C31: LRANGE returns, and LTRIM keeps, exactly the elements whose index is between start and stop, where a
  negative index counts from the end; LTRIM deletes the key when none is left.\<close>
theorem ranges_select:
  assumes "wf_db db" "value_of db key = Some (VList l)" "int (length l) \<le> max_int" "in_int stop" "stop \<noteq> max_int"
  shows "lrange_body key first stop db =
      Some (db, TLen (int (length (range_ref first stop l))) # map TBulk (range_ref first stop l)) \<and>
    (\<exists>db'. ltrim_body key first stop db = Some (db', [TInline ''OK'']) \<and>
      changed key (list_val (range_ref first stop l)) 1 db db')"
  using lrange_spec [OF assms(1,4,5), of key first] ltrim_spec [OF assms, of first] assms(2,3) by simp

theorem ranges_select_witness:
  "lrange_body ''l'' 1 (-2) exdb = Some (exdb, [TLen 2, TBulk ''b'', TBulk ''a''])"
  using ranges_select [OF exdb_wf exdb_values(1), of "-2" 1]
  by (simp add: range_ref_def norm_index_def int_bounds upt_rec)

text \<open>C32: With the largest integer as stop, which \<open>redisRange\<close> increments past the range, a range is empty: LRANGE
  returns nothing and LTRIM deletes the list.\<close>
theorem range_to_max_int:
  assumes "wf_db db" "value_of db key = Some (VList l)"
  shows "lrange_body key first max_int db = Some (db, [TLen 0]) \<and>
    (\<exists>db'. ltrim_body key first max_int db = Some (db', [TInline ''OK'']) \<and> changed key None 1 db db')"
proof -
  have r: "redisRange (int (length l)) first max_int False = (0, 0)" by (rule redisRange_max_int) simp
  have "list_val (slice 0 0 l) = None" by (simp add: slice_def list_val_def)
  with ltrim_general [OF assms r] key_facts(2) [OF assms] r show ?thesis
    by (simp add: lrange_body_def slice_def)
qed

theorem range_to_max_int_witness:
  "lrange_body ''l'' 0 9223372036854775807 exdb = Some (exdb, [TLen 0])"
  using range_to_max_int [OF exdb_wf exdb_values(1), of 0] by (simp add: max_int_def)

text \<open>C33: A list is a first-in first-out queue between its two ends and a stack at each end: any sequence of pushes
  at one end and pops at one end gets the replies of the abstract queue or stack, the key is gone exactly
  when that is empty, and no other key is touched.\<close>
theorem list_is_queue_and_stack:
  assumes "wf_db db" "list_or_absent db key" "list_all qop_ok ops"
    and "queue_ops (if po = pu then at_front else at_back) ops (view po key db) = (q, rs)"
  shows "\<exists>db'. run_ops (\<lambda>vs. xpush_body key vs pu) (xpop_body key po) ops db = Some (db', rs) \<and>
    wf_db db' \<and> view po key db' = q \<and> (value_of db' key = None \<longleftrightarrow> q = []) \<and> others_kept key db db'"
proof -
  have k: "list_key_ok key db" using assms(1,2) by (simp add: list_key_ok_def)
  have "\<exists>db'. run_ops (\<lambda>vs. xpush_body key vs pu) (xpop_body key po) ops db = Some (db', rs) \<and>
    list_key_ok key db' \<and> view po key db' = q \<and> others_kept key db db'"
  proof (cases "po = pu")
    case True
    then show ?thesis using lifo.simulates [OF k assms(3)] assms(4) by simp
  next
    case False
    then have "po = other_end pu" by (cases po; cases pu) simp_all
    then show ?thesis using fifo.simulates [OF k assms(3)] assms(4) False by simp
  qed
  then obtain db' where d: "run_ops (\<lambda>vs. xpush_body key vs pu) (xpop_body key po) ops db = Some (db', rs)"
    "list_key_ok key db'" "view po key db' = q" "others_kept key db db'" by blast
  with view_Nil [OF d(2), of po] show ?thesis by (auto simp: list_key_ok_def)
qed

theorem list_is_queue_and_stack_witness:
  "\<exists>db'. run_ops (\<lambda>vs. xpush_body ''n'' vs Left) (xpop_body ''n'' Right) [Enq [''a'', ''b''], Deq, Enq [''c''], Deq, Deq, Deq]
       exdb = Some (db', [[TInt 2], [TBulk ''a''], [TInt 2], [TBulk ''b''], [TBulk ''c''], [TNull]]) \<and>
     value_of db' ''n'' = None"
  using list_is_queue_and_stack [OF exdb_wf, of "''n''" "[Enq [''a'', ''b''], Deq, Enq [''c''], Deq, Deq, Deq]" Right Left "[]"]
  by (auto simp: list_or_absent_def view_def at_back_def)



section \<open>Keys\<close>

text \<open>C35: DEL removes the named keys and no other, moves their versions only, and answers how many of them
  existed, each counted once.\<close>
theorem del_removes:
  assumes "wf_db db"
  shows "\<exists>db'. del_body ks db = Some (db', [TInt (int (card {k \<in> set ks. value_of db k \<noteq> None}))]) \<and>
    wf_db db' \<and> value_of db' = (\<lambda>k. if k \<in> set ks then None else value_of db k) \<and>
    evolves (\<lambda>k. if k \<in> set ks \<and> value_of db k \<noteq> None then 1 else 0) db db'"
  using del_loop_spec [OF assms, of ks 0] by (auto simp: del_body_def)

theorem del_removes_witness:
  "\<exists>db'. del_body [''l'', ''n'', ''l''] exdb = Some (db', [TInt 1]) \<and> value_of db' ''l'' = None \<and>
     value_of db' ''m'' = Some (VList [''z''])"
proof -
  obtain db' where
    d: "del_body [''l'', ''n'', ''l''] exdb =
        Some (db', [TInt (int (card {k \<in> set [''l'', ''n'', ''l'']. value_of exdb k \<noteq> None}))])"
    and v: "value_of db' = (\<lambda>k. if k \<in> set [''l'', ''n'', ''l''] then None else value_of exdb k)"
    using del_removes [OF exdb_wf, of "[''l'', ''n'', ''l'']"] by blast
  have e: "{k \<in> set [''l'', ''n'', ''l'']. value_of exdb k \<noteq> None} = {''l''}" by auto
  have "card {k \<in> set [''l'', ''n'', ''l'']. value_of exdb k \<noteq> None} = 1" unfolding e by simp
  with d v show ?thesis by (intro exI [of _ db']) simp
qed



section \<open>Sets\<close>

text \<open>C37: SDIFF, SUNION and SINTER compute difference, union and intersection, and fail when a key holds a list; but
  SINTER passes over a key that is absent or, from the second key on, no set, where it should be empty or fail.\<close>
theorem set_algebra:
  assumes "wf_db db"
  shows "setDiff (k # ks) db = Some
      (if \<exists>j \<in> set (k # ks). holds_list db j then Inl msgWrongType
       else Inr (ffilter (\<lambda>e. \<forall>j \<in> set ks. e |\<notin>| set_at j db) (set_at k db))) \<and>
    setUnion (k # ks) db = Some
      (if \<exists>j \<in> set (k # ks). holds_list db j then Inl msgWrongType
       else Inr (ffUnion (fset_of_list (map (\<lambda>j. set_at j db) (k # ks))))) \<and>
    setInter (k # ks) db = Some
      (if holds_list db k then Inl msgWrongType
       else Inr (ffilter (\<lambda>e. \<forall>j \<in> set ks. \<forall>t. value_of db j = Some (VSet t) \<longrightarrow> e |\<in>| t) (set_at k db)))"
  using setDiff_spec [OF assms, of k ks] setUnion_spec [OF assms, of k ks] setInter_spec [OF assms, of k ks]
  by simp

theorem set_algebra_witness:
  "setDiff [''s'', ''t''] exdb = Some (Inr {|''x''|}) \<and> setInter [''s'', ''n''] exdb = Some (Inr {|''x'', ''y''|})"
proof -
  have h: "\<not> holds_list exdb ''s''" "\<not> holds_list exdb ''t''" by (simp_all add: holds_list_def)
  have d: "ffilter (\<lambda>e. e |\<notin>| {|''y''|}) {|''x'', ''y''|} = {|''x''|}" by code_simp
  have t: "ffilter (\<lambda>e. True) q = q" for q :: setKey by (rule fset_eqI) simp
  show ?thesis
    using set_algebra [OF exdb_wf, of "''s''" "[''t'']"] set_algebra [OF exdb_wf, of "''s''" "[''n'']"] h d t by simp
qed

text \<open>C38: The STORE variants put the result under the destination, over any value it had, and answer its size; an
  empty result is stored as an empty set.\<close>
theorem store_results:
  assumes "wf_db db" "(body, setop) \<in> {(sdiffstore_body, setDiff), (sinterstore_body, setInter), (sunionstore_body, setUnion)}"
    and "setop (k # ks) db = Some (Inr s)"
  shows "\<exists>db' n. body dest (k # ks) db = Some (db', [TInt (int (fcard s))]) \<and> 0 < n \<and>
    changed dest (Some (VSet s)) n db db'"
proof -
  have "body dest (k # ks) db = store_set setop dest (k # ks) db"
    using assms(2) by (auto simp: sdiffstore_body_def sinterstore_body_def sunionstore_body_def)
  moreover have "\<exists>db' n. store_set setop dest (k # ks) db = Some (db', [TInt (int (fcard s))]) \<and> 0 < n \<and>
      changed dest (Some (VSet s)) n db db'"
    using assms(2) diff.store_set_spec [OF assms(1)] inter.store_set_spec [OF assms(1)]
      union.store_set_spec [OF assms(1)] assms(3) by auto
  ultimately show ?thesis by simp
qed

theorem store_results_witness:
  "\<exists>db'. sdiffstore_body ''l'' [''t'', ''s''] exdb = Some (db', [TInt 0]) \<and> value_of db' ''l'' = Some (VSet {||})"
proof -
  have "setDiff [''t'', ''s''] exdb = Some (Inr {||})"
    by (simp add: setDiff_spec holds_list_def) code_simp
  from store_results [where setop = setDiff, OF exdb_wf _ this, of sdiffstore_body "''l''"] show ?thesis by (auto simp: changed_value)
qed

text \<open>C39: SPOP with a count answers that many distinct members, or all of them, whatever the random source says, and
  removes exactly these.\<close>
theorem spop_takes:
  assumes "wf_db db" "value_of db key = Some (VSet s)"
  shows "\<exists>db' r' ds. spop_body key cnt True r db = Some (db', r', TLen (int (length ds)) # map TBulk ds) \<and>
    distinct ds \<and> set ds \<subseteq> fset s \<and> length ds = min (nat cnt) (fcard s) \<and>
    value_of db' = (if ds = [] then value_of db else (value_of db)(key := set_val (s |-| fset_of_list ds)))"
proof -
  have k: "set_at key db = s" "set_or_absent db key" "db_exists key db" "db_t key db = ''set''"
    using key_facts(3) [OF assms] assms(2) by (auto simp: set_or_absent_def)
  from spop_loop_spec [OF assms(1) k(2), of "nat cnt" r "[]"] obtain db' r' ds n where
    d: "spop_loop (nat cnt) key r db [] = Some (db', r', ds)" "distinct ds" "set ds \<subseteq> fset s"
      "length ds = min (nat cnt) (fcard s)"
      "if ds = [] then db' = db else 0 < n \<and> changed key (set_val (s |-| fset_of_list ds)) n db db'"
    using k(1) by auto
  from d(5) have "value_of db' = (if ds = [] then value_of db else (value_of db)(key := set_val (s |-| fset_of_list ds)))"
    by (auto simp: changed_def split: if_splits)
  then show ?thesis using d(1-4) k(3,4) by (auto simp: spop_body_def)
qed

theorem spop_takes_witness:
  "\<exists>db' r' ds. spop_body ''s'' 5 True (\<lambda>_. 0) exdb = Some (db', r', TLen 2 # map TBulk ds) \<and> distinct ds"
proof -
  have "fcard {|''x'', ''y''|} = 2" by code_simp
  with spop_takes [OF exdb_wf exdb_values(3), of 5 "\<lambda>_. 0"] show ?thesis by fastforce
qed

section \<open>The direct methods\<close>



end
